(* ===== verification/GoBase.thy ===== *)
theory GoBase
  imports Main "HOL-Library.Word" "HOL-Library.Char_ord" "HOL-Library.List_Lexorder"
    "HOL-Library.Sublist" "HOL-Library.Multiset"
begin

unbundle bit_operations_syntax

text \<open>
  The prelude: the parts of the Go language and of its packages \<open>strings\<close>, \<open>strconv\<close> and
  \<open>sort\<close> that the scanner uses, and the generic lemmas the component theories share.

  A Go string is a sequence of bytes, so it is a \<open>string\<close> (a list of 8-bit characters). An
  error return \<open>(T, error)\<close> is a value of \<open>'e + 'a\<close>, \<open>Inl\<close> the error. A loop that stops at
  the first error is \<open>try_fold\<close> or \<open>try_map\<close>. Go's \<open>map[K]struct{}\<close> used for membership is a
  set or a list without duplicates, \<open>map[K]V\<close> a partial function.
\<close>

named_theorems go_simps \<open>equations of the error plumbing that simp may always use\<close>

section \<open>Error results\<close>

definition try_bind :: "'e + 'a \<Rightarrow> ('a \<Rightarrow> 'e + 'b) \<Rightarrow> 'e + 'b" where
  "try_bind r f = (case r of Inl e \<Rightarrow> Inl e | Inr a \<Rightarrow> f a)"

lemma try_bind_Inl [simp, go_simps]: "try_bind (Inl e) f = Inl e"
  by (simp add: try_bind_def)

lemma try_bind_Inr [simp, go_simps]: "try_bind (Inr a) f = f a"
  by (simp add: try_bind_def)

lemma try_bind_eq_Inr: "try_bind r f = Inr b \<longleftrightarrow> (\<exists>a. r = Inr a \<and> f a = Inr b)"
  by (cases r) auto

lemma try_bind_eq_Inl: "try_bind r f = Inl e \<longleftrightarrow> r = Inl e \<or> (\<exists>a. r = Inr a \<and> f a = Inl e)"
  by (cases r) auto

text \<open>\<open>for _, x := range xs { s, err = f(s, x); if err != nil { return err } }\<close>\<close>

primrec try_fold :: "('s \<Rightarrow> 'a \<Rightarrow> 'e + 's) \<Rightarrow> 's \<Rightarrow> 'a list \<Rightarrow> 'e + 's" where
  "try_fold f s [] = Inr s"
| "try_fold f s (x # xs) = try_bind (f s x) (\<lambda>s'. try_fold f s' xs)"

primrec try_map :: "('a \<Rightarrow> 'e + 'b) \<Rightarrow> 'a list \<Rightarrow> 'e + 'b list" where
  "try_map f [] = Inr []"
| "try_map f (x # xs) = try_bind (f x) (\<lambda>y. try_bind (try_map f xs) (\<lambda>ys. Inr (y # ys)))"

lemma try_fold_append:
  "try_fold f s (xs @ ys) = try_bind (try_fold f s xs) (\<lambda>s'. try_fold f s' ys)"
  by (induction xs arbitrary: s) (auto simp: try_bind_def split: sum.splits)

text \<open>An invariant kept by every successful step holds after the loop.\<close>

lemma try_fold_invariant:
  assumes "try_fold f s xs = Inr t" and "I s"
    and "\<And>s x s'. x \<in> set xs \<Longrightarrow> I s \<Longrightarrow> f s x = Inr s' \<Longrightarrow> I s'"
  shows "I t"
  using assms
proof (induction xs arbitrary: s)
  case Nil
  then show ?case by simp
next
  case (Cons x xs)
  from Cons.prems(1) obtain s' where s': "f s x = Inr s'" "try_fold f s' xs = Inr t"
    by (auto simp: try_bind_eq_Inr)
  have "I s'" using Cons.prems(2,3) s'(1) by auto
  moreover have "\<And>s x s'. x \<in> set xs \<Longrightarrow> I s \<Longrightarrow> f s x = Inr s' \<Longrightarrow> I s'"
    using Cons.prems(3) by auto
  ultimately show ?case using Cons.IH s'(2) by blast
qed

lemma try_map_length: "try_map f xs = Inr ys \<Longrightarrow> length ys = length xs"
  by (induction xs arbitrary: ys) (auto simp: try_bind_eq_Inr)

lemma try_map_eq_Inr:
  "try_map f xs = Inr ys \<longleftrightarrow> list_all2 (\<lambda>x y. f x = Inr y) xs ys"
  by (induction xs arbitrary: ys) (auto simp: try_bind_eq_Inr list_all2_Cons1)

section \<open>Package strings\<close>

text \<open>
  \<open>strings.TrimSpace\<close> removes the code points for which \<open>unicode.IsSpace\<close> holds, at both ends.
  Over the bytes of a UTF-8 string these are the sequences below; a byte sequence that is not
  valid UTF-8 is never white space.
\<close>

definition space_seqs :: "string list" where
  "space_seqs =
    [[CHR 0x09], [CHR 0x0A], [CHR 0x0B], [CHR 0x0C], [CHR 0x0D], [CHR 0x20], [CHR 0xC2, CHR 0x85],
     [CHR 0xC2, CHR 0xA0], [CHR 0xE1, CHR 0x9A, CHR 0x80], [CHR 0xE2, CHR 0x80, CHR 0x80],
     [CHR 0xE2, CHR 0x80, CHR 0x81], [CHR 0xE2, CHR 0x80, CHR 0x82],
     [CHR 0xE2, CHR 0x80, CHR 0x83], [CHR 0xE2, CHR 0x80, CHR 0x84],
     [CHR 0xE2, CHR 0x80, CHR 0x85], [CHR 0xE2, CHR 0x80, CHR 0x86],
     [CHR 0xE2, CHR 0x80, CHR 0x87], [CHR 0xE2, CHR 0x80, CHR 0x88],
     [CHR 0xE2, CHR 0x80, CHR 0x89], [CHR 0xE2, CHR 0x80, CHR 0x8A],
     [CHR 0xE2, CHR 0x80, CHR 0xA8], [CHR 0xE2, CHR 0x80, CHR 0xA9],
     [CHR 0xE2, CHR 0x80, CHR 0xAF], [CHR 0xE2, CHR 0x81, CHR 0x9F],
     [CHR 0xE3, CHR 0x80, CHR 0x80]]"

fun strip_seq :: "string list \<Rightarrow> string \<Rightarrow> string option" where
  "strip_seq [] s = None"
| "strip_seq (p # ps) s = (if prefix p s then Some (drop (length p) s) else strip_seq ps s)"

text \<open>Each round strips at least one byte, so the length of the string is fuel enough.\<close>

primrec strip_front_fuel :: "nat \<Rightarrow> string list \<Rightarrow> string \<Rightarrow> string" where
  "strip_front_fuel 0 ps s = s"
| "strip_front_fuel (Suc n) ps s =
     (case strip_seq ps s of None \<Rightarrow> s | Some s' \<Rightarrow> strip_front_fuel n ps s')"

definition strip_front :: "string list \<Rightarrow> string \<Rightarrow> string" where
  "strip_front ps s = strip_front_fuel (length s) ps s"

definition trim_space :: "string \<Rightarrow> string" where
  "trim_space s =
     rev (strip_front (map rev space_seqs) (rev (strip_front space_seqs s)))"

text \<open>Printable ASCII text has nothing to trim.\<close>

definition is_print :: "char \<Rightarrow> bool" where
  "is_print c \<longleftrightarrow> 33 \<le> (of_char c :: nat) \<and> (of_char c :: nat) \<le> 126"

lemma strip_seq_None: "\<forall>p \<in> set ps. p \<noteq> [] \<and> \<not> is_print (hd p) \<Longrightarrow> list_all is_print s \<Longrightarrow> strip_seq ps s = None"
proof (induction ps)
  case (Cons p ps)
  moreover from Cons.prems have "\<not> prefix p s" by (cases p; cases s) auto
  ultimately show ?case by simp
qed simp

lemma strip_front_print:
  "\<forall>p \<in> set ps. p \<noteq> [] \<and> \<not> is_print (hd p) \<Longrightarrow> list_all is_print s \<Longrightarrow> strip_front ps s = s"
  by (cases "length s") (simp_all add: strip_front_def strip_seq_None)

lemma space_seqs_not_print:
  "\<forall>p \<in> set space_seqs. p \<noteq> [] \<and> \<not> is_print (hd p)"
  "\<forall>p \<in> set (map rev space_seqs). p \<noteq> [] \<and> \<not> is_print (hd p)"
  by code_simp+

lemma trim_space_print: "list_all is_print s \<Longrightarrow> trim_space s = s"
  by (simp add: trim_space_def strip_front_print space_seqs_not_print [unfolded set_map]
      space_seqs_not_print list_all_iff del: set_map)

text \<open>
  \<open>strings.ToLower\<close>. The code compares its results with ASCII words only, so what matters is
  which byte sequences become ASCII letters: the ASCII capitals, U+212A (Kelvin sign, to \<open>k\<close>) and
  U+0130 (to \<open>i\<close>). Other code points stay outside ASCII; their bytes are left as they are.
\<close>

definition ascii_lower :: "char \<Rightarrow> char" where
  "ascii_lower c =
     (let n = (of_char c :: nat) in if 65 \<le> n \<and> n \<le> 90 then char_of (n + 32) else c)"

definition kelvin_seq :: string where
  "kelvin_seq = [CHR 0xE2, CHR 0x84, CHR 0xAA]"

definition dotted_I_seq :: string where
  "dotted_I_seq = [CHR 0xC4, CHR 0xB0]"

definition long_s_seq :: string where
  "long_s_seq = [CHR 0xC5, CHR 0xBF]"

fun to_lower :: "string \<Rightarrow> string" where
  "to_lower [] = []"
| "to_lower (a # b # c # s) =
     (if [a, b, c] = kelvin_seq then CHR ''k'' # to_lower s
      else if [a, b] = dotted_I_seq then CHR ''i'' # to_lower (c # s)
      else ascii_lower a # to_lower (b # c # s))"
| "to_lower [a, b] =
     (if [a, b] = dotted_I_seq then ''i'' else [ascii_lower a, ascii_lower b])"
| "to_lower [a] = [ascii_lower a]"

text \<open>
  \<open>strings.EqualFold\<close> with an ASCII word on its right: simple case folding also identifies the
  Kelvin sign with \<open>k\<close> and the long s (U+017F) with \<open>s\<close>.
\<close>

fun fold_case :: "string \<Rightarrow> string" where
  "fold_case [] = []"
| "fold_case (a # b # c # s) =
     (if [a, b, c] = kelvin_seq then CHR ''k'' # fold_case s
      else if [a, b] = long_s_seq then CHR ''s'' # fold_case (c # s)
      else ascii_lower a # fold_case (b # c # s))"
| "fold_case [a, b] =
     (if [a, b] = long_s_seq then ''s'' else [ascii_lower a, ascii_lower b])"
| "fold_case [a] = [ascii_lower a]"

definition equal_fold :: "string \<Rightarrow> string \<Rightarrow> bool" where
  "equal_fold s t \<longleftrightarrow> fold_case s = fold_case t"

text \<open>\<open>strings.Split\<close> with a one-byte separator.\<close>

fun split_on :: "char \<Rightarrow> string \<Rightarrow> string list" where
  "split_on sep [] = [[]]"
| "split_on sep (c # s) =
     (if c = sep then [] # split_on sep s
      else (case split_on sep s of [] \<Rightarrow> [[c]] | w # ws \<Rightarrow> (c # w) # ws))"

primrec join_with :: "char \<Rightarrow> string list \<Rightarrow> string" where
  "join_with sep [] = []"
| "join_with sep (w # ws) = (case ws of [] \<Rightarrow> w | _ \<Rightarrow> w @ sep # join_with sep ws)"

lemma split_on_nonempty [simp]: "split_on sep s \<noteq> []"
  by (induction s) (auto split: list.splits)

lemma split_on_no_sep: "sep \<notin> set s \<Longrightarrow> split_on sep s = [s]"
  by (induction s) auto

lemma split_on_append:
  "sep \<notin> set w \<Longrightarrow> split_on sep (w @ sep # s) = w # split_on sep s"
  by (induction w) auto

lemma join_with_Cons_char: "join_with sep ((c # w) # ws) = c # join_with sep (w # ws)"
  by (cases ws) auto

lemma join_with_Nil_cons: "ws \<noteq> [] \<Longrightarrow> join_with sep ([] # ws) = sep # join_with sep ws"
  by (cases ws) auto

lemma join_split: "join_with sep (split_on sep s) = s"
proof (induction s)
  case Nil
  then show ?case by simp
next
  case (Cons c s)
  obtain w ws where w: "split_on sep s = w # ws"
    using split_on_nonempty [of sep s] by (cases "split_on sep s") auto
  show ?case
  proof (cases "c = sep")
    case True
    then show ?thesis using Cons.IH by (simp add: join_with_Nil_cons del: join_with.simps(2))
  next
    case False
    then show ?thesis using Cons.IH by (simp add: w join_with_Cons_char del: join_with.simps(2))
  qed
qed

lemma split_join:
  "ws \<noteq> [] \<Longrightarrow> \<forall>w \<in> set ws. sep \<notin> set w \<Longrightarrow> split_on sep (join_with sep ws) = ws"
proof (induction ws)
  case Nil
  then show ?case by simp
next
  case (Cons w ws)
  then show ?case
    by (cases ws) (auto simp: split_on_no_sep split_on_append)
qed

lemma split_on_pieces: "w \<in> set (split_on sep s) \<Longrightarrow> sep \<notin> set w"
  by (induction s arbitrary: w) (auto split: list.splits if_splits)

section \<open>Package strconv\<close>

definition is_digit :: "char \<Rightarrow> bool" where
  "is_digit c \<longleftrightarrow> 48 \<le> (of_char c :: nat) \<and> (of_char c :: nat) \<le> 57"

definition digit_val :: "char \<Rightarrow> nat" where
  "digit_val c = of_char c - 48"

definition digit_char :: "nat \<Rightarrow> char" where
  "digit_char d = char_of (48 + d)"

primrec dec_val :: "nat \<Rightarrow> string \<Rightarrow> nat" where
  "dec_val acc [] = acc"
| "dec_val acc (c # s) = dec_val (10 * acc + digit_val c) s"

fun nat_digits :: "nat \<Rightarrow> string" where
  "nat_digits n =
     (if n < 10 then [digit_char n] else nat_digits (n div 10) @ [digit_char (n mod 10)])"

declare nat_digits.simps [simp del]

definition itoa :: "int \<Rightarrow> string" where
  "itoa i = (if i < 0 then CHR ''-'' # nat_digits (nat (- i)) else nat_digits (nat i))"

text \<open>\<open>strconv.Atoi\<close>: an optional sign, then decimal digits only; out of the 64-bit range is an error.\<close>

definition digits_value :: "string \<Rightarrow> nat option" where
  "digits_value s = (if s \<noteq> [] \<and> list_all is_digit s then Some (dec_val 0 s) else None)"

definition atoi :: "string \<Rightarrow> int option" where
  "atoi s =
    (let (neg, ds) = (case s of [] \<Rightarrow> (False, [])
        | c # r \<Rightarrow> if c = CHR ''-'' then (True, r) else if c = CHR ''+'' then (False, r)
                   else (False, c # r))
     in case digits_value ds of None \<Rightarrow> None
        | Some n \<Rightarrow> (let v = (if neg then - int n else int n)
                     in if - (2 ^ 63) \<le> v \<and> v < 2 ^ 63 then Some v else None))"

lemma digit_char_val [simp]: "d < 10 \<Longrightarrow> digit_val (digit_char d) = d"
  by (simp add: digit_val_def digit_char_def)

lemma is_digit_digit_char [simp]: "d < 10 \<Longrightarrow> is_digit (digit_char d)"
  by (simp add: is_digit_def digit_char_def)

lemma dec_val_append: "dec_val acc (s @ t) = dec_val (dec_val acc s) t"
  by (induction s arbitrary: acc) auto

lemma nat_digits_nonempty [simp]: "nat_digits n \<noteq> []"
  by (subst nat_digits.simps) simp

lemma nat_digits_all_digits [simp]: "list_all is_digit (nat_digits n)"
proof (induction n rule: nat_digits.induct)
  case (1 n)
  then show ?case by (subst nat_digits.simps) auto
qed

lemma nat_digits_value [simp]: "dec_val 0 (nat_digits n) = n"
proof (induction n rule: nat_digits.induct)
  case (1 n)
  then show ?case by (subst nat_digits.simps) (auto simp: dec_val_append)
qed

lemma digits_value_nat_digits [simp]: "digits_value (nat_digits n) = Some n"
  by (simp add: digits_value_def)

lemma nat_digits_inject [simp]: "nat_digits m = nat_digits n \<longleftrightarrow> m = n"
  by (metis nat_digits_value)

lemma is_digit_set: "list_all is_digit s \<Longrightarrow> \<not> is_digit c \<Longrightarrow> c \<notin> set s"
  by (auto simp: list_all_iff)

lemma not_digit_chars [simp]:
  "\<not> is_digit CHR ''.''" "\<not> is_digit CHR '':''" "\<not> is_digit CHR ''/''" "\<not> is_digit CHR ''-''"
  "\<not> is_digit CHR ''+''" "\<not> is_digit CHR '',''" "\<not> is_digit CHR ''%''"
  by (simp_all add: is_digit_def)

lemma nat_digits_no_sep: "\<not> is_digit c \<Longrightarrow> c \<notin> set (nat_digits n)"
  by (rule is_digit_set [OF nat_digits_all_digits])

lemma itoa_inject: "0 \<le> i \<Longrightarrow> 0 \<le> j \<Longrightarrow> itoa i = itoa j \<longleftrightarrow> i = j"
  by (auto simp: itoa_def)

lemma atoi_nat_digits: "int n < 2 ^ 63 \<Longrightarrow> atoi (nat_digits n) = Some (int n)"
proof -
  assume n: "int n < 2 ^ 63"
  obtain c r where cr: "nat_digits n = c # r"
    by (cases "nat_digits n") auto
  have "is_digit c" using nat_digits_all_digits [of n] by (simp add: cr)
  then have "c \<noteq> CHR ''-''" "c \<noteq> CHR ''+''" by auto
  then have *: "(case nat_digits n of [] \<Rightarrow> (False, [])
        | c # r \<Rightarrow> if c = CHR ''-'' then (True, r) else if c = CHR ''+'' then (False, r)
                   else (False, c # r)) = (False, nat_digits n)"
    by (simp add: cr)
  show ?thesis
    unfolding atoi_def * using n by simp
qed

lemma atoi_itoa: "0 \<le> i \<Longrightarrow> i < 2 ^ 63 \<Longrightarrow> atoi (itoa i) = Some i"
  by (simp add: itoa_def atoi_nat_digits)

section \<open>Package sort\<close>

text \<open>
  \<open>sort.Slice\<close> is not stable: its result is some permutation ordered by the comparison. The
  model sorts with \<open>sort_key\<close>; the theorems about sorted slices use only that the result is a
  sorted permutation. \<open>sort.Search\<close> is a binary search for the first index where a monotone
  predicate holds.
\<close>

function search_go :: "(nat \<Rightarrow> bool) \<Rightarrow> nat \<Rightarrow> nat \<Rightarrow> nat" where
  "search_go p i j =
     (if i < j then (let h = (i + j) div 2 in
        if \<not> p h then search_go p (h + 1) j else search_go p i h) else i)"
  by pat_completeness auto
termination
  by (relation "measure (\<lambda>(p, i, j). j - i)") (auto simp: Let_def)

declare search_go.simps [simp del]

definition sort_search :: "nat \<Rightarrow> (nat \<Rightarrow> bool) \<Rightarrow> nat" where
  "sort_search n p = search_go p 0 n"

lemma search_go_spec:
  assumes "i \<le> j" and "\<And>k l. k \<le> l \<Longrightarrow> p k \<Longrightarrow> p l"
    and "\<And>k. k < i \<Longrightarrow> \<not> p k" and "\<And>k. j \<le> k \<Longrightarrow> k < n \<Longrightarrow> p k" and "j \<le> n"
  shows "search_go p i j \<le> n \<and> (\<forall>k < search_go p i j. \<not> p k)
    \<and> (\<forall>k. search_go p i j \<le> k \<longrightarrow> k < n \<longrightarrow> p k)"
  using assms
proof (induction p i j rule: search_go.induct)
  case (1 p i j)
  show ?case
  proof (cases "i < j")
    case True
    define h where "h = (i + j) div 2"
    have h: "i \<le> h" "h < j" using True by (auto simp: h_def)
    show ?thesis
    proof (cases "p h")
      case ph: True
      have "search_go p i j = search_go p i h"
        using True ph by (subst search_go.simps) (simp add: h_def Let_def)
      moreover have up: "\<And>k. h \<le> k \<Longrightarrow> k < n \<Longrightarrow> p k" using ph "1.prems"(2) by blast
      have "search_go p i h \<le> n \<and> (\<forall>k < search_go p i h. \<not> p k)
          \<and> (\<forall>k. search_go p i h \<le> k \<longrightarrow> k < n \<longrightarrow> p k)"
      proof (rule "1.IH"(2) [OF True h_def])
        show "\<not> \<not> p h" "i \<le> h" "h \<le> n" using ph h "1.prems"(5) by auto
      qed (use "1.prems"(2,3) up in blast)+
      ultimately show ?thesis by simp
    next
      case ph: False
      have "search_go p i j = search_go p (h + 1) j"
        using True ph by (subst search_go.simps) (simp add: h_def Let_def)
      moreover have down: "\<And>k. k < h + 1 \<Longrightarrow> \<not> p k"
        using ph "1.prems"(2) by (metis less_Suc_eq_le Suc_eq_plus1)
      have "h + 1 \<le> j" using h by simp
      then have "search_go p (h + 1) j \<le> n \<and> (\<forall>k < search_go p (h + 1) j. \<not> p k)
          \<and> (\<forall>k. search_go p (h + 1) j \<le> k \<longrightarrow> k < n \<longrightarrow> p k)"
        by (rule "1.IH"(1) [OF True h_def ph _ "1.prems"(2) down "1.prems"(4,5)])
      ultimately show ?thesis by simp
    qed
  next
    case False
    then have "search_go p i j = i" by (subst search_go.simps) simp
    with False "1.prems" show ?thesis by auto
  qed
qed

lemma sort_search_spec:
  assumes "\<And>k l. k \<le> l \<Longrightarrow> p k \<Longrightarrow> p l"
  shows "sort_search n p \<le> n" "k < sort_search n p \<Longrightarrow> \<not> p k"
    "sort_search n p \<le> k \<Longrightarrow> k < n \<Longrightarrow> p k"
  using search_go_spec [of 0 n p n] assms unfolding sort_search_def by auto

section \<open>Contexts\<close>

text \<open>
  A \<open>context.Context\<close>, as sequential code sees it, is the number of further \<open>ctx.Err()\<close> calls
  that still return nil: \<open>None\<close> for \<open>context.Background()\<close>, which is never canceled, \<open>Some n\<close>
  when the call after the next \<open>n\<close> reports the cancellation (and every later one does too).
  \<open>ctx_poll k c\<close> makes \<open>k\<close> calls: \<open>None\<close> when one of them reports it.

  A loop that polls once per 4,096 iterations and discards its partial result when it is
  canceled makes \<open>polls_for n\<close> calls over \<open>n\<close> iterations.
\<close>

type_synonym ctx = "nat option"

definition ctx_poll :: "nat \<Rightarrow> ctx \<Rightarrow> ctx option" where
  "ctx_poll k c = (case c of None \<Rightarrow> Some None
     | Some n \<Rightarrow> if k \<le> n then Some (Some (n - k)) else None)"

definition polls_for :: "nat \<Rightarrow> nat" where
  "polls_for n = (n + 4095) div 4096"

lemma ctx_poll_Background [simp]: "ctx_poll k None = Some None"
  by (simp add: ctx_poll_def)

lemma polls_for_0 [simp]: "polls_for 0 = 0"
  by (simp add: polls_for_def)

end
