(* ===== verification/NetIP.thy ===== *)
theory NetIP
  imports GoBase
begin

text \<open>
  Addresses and networks: what the scanner uses of Go's \<open>net\<close> and \<open>net/netip\<close> (parsing and
  printing of addresses and CIDRs, masks), and the repository's own \<open>pkg/netutil\<close>
  (\<open>IPRange\<close>, \<open>BuildExecutionKey\<close>) over them.

  A \<open>net.IP\<close> is a slice of 4 or 16 bytes, a \<open>net.IPNet\<close> an address with a mask of 4 or 16
  bytes. IPv4-mapped IPv6 addresses (\<open>::ffff:a.b.c.d\<close>) are kept as the 16-byte values Go keeps,
  because \<open>To4\<close> accepts them: several functions of the repository behave differently on them.
\<close>

section \<open>Bytes and 32-bit addresses\<close>

type_synonym goip = "8 word list"

definition v4_prefix :: goip where
  "v4_prefix = replicate 10 0 @ [0xff, 0xff]"

text \<open>\<open>net.IP.To4\<close>; \<open>None\<close> is Go's nil.\<close>

definition to4 :: "goip \<Rightarrow> goip option" where
  "to4 ip = (if length ip = 4 then Some ip
     else if length ip = 16 \<and> take 12 ip = v4_prefix then Some (drop 12 ip) else None)"

text \<open>\<open>binary.BigEndian.Uint32\<close> and \<open>PutUint32\<close>.\<close>

fun be_u32 :: "goip \<Rightarrow> 32 word" where
  "be_u32 (a # b # c # d # _) =
     push_bit 24 (ucast a) OR push_bit 16 (ucast b) OR push_bit 8 (ucast c) OR ucast d"
| "be_u32 _ = 0"

definition put_u32 :: "32 word \<Rightarrow> goip" where
  "put_u32 w = [ucast (drop_bit 24 w), ucast (drop_bit 16 w), ucast (drop_bit 8 w), ucast w]"

lemma length_put_u32 [simp]: "length (put_u32 w) = 4"
  by (simp add: put_u32_def)

lemma to4_put_u32 [simp]: "to4 (put_u32 w) = Some (put_u32 w)"
  by (simp add: to4_def)

lemma be_u32_put_u32 [simp]: "be_u32 (put_u32 w) = w"
proof (rule bit_word_eqI)
  fix n
  assume "n < LENGTH(32)"
  then consider "n < 8" | "8 \<le> n" "n < 16" | "16 \<le> n" "n < 24" | "24 \<le> n" "n < 32"
    by fastforce
  then show "bit (be_u32 (put_u32 w)) n = bit w n"
    unfolding put_u32_def be_u32.simps
    by cases (auto simp: bit_or_iff bit_push_bit_iff bit_ucast_iff bit_drop_bit_eq)
qed

lemma bit_byte: "8 \<le> n \<Longrightarrow> \<not> bit (x :: 8 word) n"
  using bit_imp_le_length [of x n] by auto

lemma put_u32_be_u32: "length ip = 4 \<Longrightarrow> put_u32 (be_u32 ip) = ip"
proof -
  assume "length ip = 4"
  then obtain a b c d where ip: "ip = [a, b, c, d]"
    by (auto simp: numeral_eq_Suc length_Suc_conv)
  show ?thesis
    unfolding ip put_u32_def be_u32.simps
    by (auto intro!: bit_word_eqI
        simp: bit_or_iff bit_push_bit_iff bit_ucast_iff bit_drop_bit_eq bit_byte)
qed

lemma put_u32_inject [simp]: "put_u32 v = put_u32 w \<longleftrightarrow> v = w"
  by (metis be_u32_put_u32)

lemma be_u32_inject: "length x = 4 \<Longrightarrow> length y = 4 \<Longrightarrow> be_u32 x = be_u32 y \<longleftrightarrow> x = y"
  by (metis put_u32_be_u32)

lemma length_4_cases:
  assumes "length xs = 4"
  obtains a b c d where "xs = [a, b, c, d]"
  using assms by (auto simp: numeral_eq_Suc length_Suc_conv)

lemma to4_length: "to4 ip = Some v \<Longrightarrow> length v = 4"
  by (auto simp: to4_def split: if_splits)

section \<open>Printing\<close>

text \<open>\<open>net.IP.String\<close> of a 4-byte address.\<close>

definition v4_string :: "goip \<Rightarrow> string" where
  "v4_string ip = join_with CHR ''.'' (map (\<lambda>b. nat_digits (unat b)) ip)"

definition u32_string :: "32 word \<Rightarrow> string" where
  "u32_string w = v4_string (put_u32 w)"

text \<open>
  \<open>netip.Addr.String\<close> of a 16-byte address that is not IPv4-mapped: eight groups in hexadecimal,
  the longest run of two or more zero groups (the first of the longest) written \<open>::\<close>.
\<close>

definition hex_char :: "nat \<Rightarrow> char" where
  "hex_char d = (if d < 10 then char_of (48 + d) else char_of (87 + d))"

fun hex_digits :: "nat \<Rightarrow> string" where
  "hex_digits n = (if n < 16 then [hex_char n] else hex_digits (n div 16) @ [hex_char (n mod 16)])"

declare hex_digits.simps [simp del]

fun v6_groups :: "goip \<Rightarrow> nat list" where
  "v6_groups (a # b # r) = (256 * unat a + unat b) # v6_groups r"
| "v6_groups _ = []"

definition zero_run :: "nat list \<Rightarrow> nat \<Rightarrow> nat" where
  "zero_run gs i = length (takeWhile (\<lambda>g. g = 0) (drop i gs))"

definition best_zero_run :: "nat list \<Rightarrow> nat \<times> nat" where
  "best_zero_run gs = fold (\<lambda>i (s, l). let r = zero_run gs i in
     if 2 \<le> r \<and> l < r then (i, r) else (s, l)) [0..<length gs] (0, 0)"

definition v6_string :: "goip \<Rightarrow> string" where
  "v6_string ip = (let gs = v6_groups ip; (s, l) = best_zero_run gs in
     if l = 0 then join_with CHR '':'' (map hex_digits gs)
     else join_with CHR '':'' (map hex_digits (take s gs)) @ ''::''
       @ join_with CHR '':'' (map hex_digits (drop (s + l) gs)))"

definition ip_string :: "goip \<Rightarrow> string" where
  "ip_string ip = (case to4 ip of Some v \<Rightarrow> v4_string v
     | None \<Rightarrow> if length ip = 16 then v6_string ip else ''<nil>'')"

section \<open>Parsing: netip.ParseAddr, net.ParseIP\<close>

datatype naddr = A4 goip | A6 goip string  \<comment> \<open>a 16-byte address carries its zone\<close>

definition parse_octet :: "string \<Rightarrow> 8 word option" where
  "parse_octet s = (case digits_value s of None \<Rightarrow> None
     | Some n \<Rightarrow> if n \<le> 255 \<and> (length s = 1 \<or> hd s \<noteq> CHR ''0'') then Some (of_nat n) else None)"

primrec opt_map :: "('a \<Rightarrow> 'b option) \<Rightarrow> 'a list \<Rightarrow> 'b list option" where
  "opt_map f [] = Some []"
| "opt_map f (x # xs) = (case f x of None \<Rightarrow> None
     | Some y \<Rightarrow> (case opt_map f xs of None \<Rightarrow> None | Some ys \<Rightarrow> Some (y # ys)))"

definition parse_v4 :: "string \<Rightarrow> goip option" where
  "parse_v4 s = (let fs = split_on CHR ''.'' s in
     if length fs = 4 then opt_map parse_octet fs else None)"

definition hex_val :: "char \<Rightarrow> nat option" where
  "hex_val c = (let n = (of_char c :: nat) in
     if 48 \<le> n \<and> n \<le> 57 then Some (n - 48)
     else if 97 \<le> n \<and> n \<le> 102 then Some (n - 87)
     else if 65 \<le> n \<and> n \<le> 70 then Some (n - 55) else None)"

definition hex_word :: "string \<Rightarrow> nat" where
  "hex_word s = fold (\<lambda>c acc. 16 * acc + the (hex_val c)) s 0"

text \<open>
  The loop of \<open>parseIPv6\<close>: \<open>acc\<close> holds the bytes written so far, \<open>ell\<close> the position of the
  ellipsis. Each round writes two bytes or stops, so nine rounds are fuel enough for 16 bytes.
\<close>

fun v6_loop :: "nat \<Rightarrow> string \<Rightarrow> goip \<Rightarrow> nat option \<Rightarrow> (goip \<times> nat option) option" where
  "v6_loop 0 s acc ell = None"
| "v6_loop (Suc n) s acc ell =
    (if 16 \<le> length acc then (if s = [] then Some (acc, ell) else None)
     else
      (let ds = takeWhile (\<lambda>c. hex_val c \<noteq> None) s; rest = drop (length ds) s in
       if ds = [] \<or> 4 < length ds then None
       else if rest \<noteq> [] \<and> hd rest = CHR ''.'' then
         (if ell = None \<and> length acc \<noteq> 12 then None
          else if 16 < length acc + 4 then None
          else (case parse_v4 s of None \<Rightarrow> None | Some v \<Rightarrow> Some (acc @ v, ell)))
       else
         (let v = hex_word ds; acc' = acc @ [of_nat (v div 256), of_nat v] in
          case rest of [] \<Rightarrow> Some (acc', ell)
          | c # s1 \<Rightarrow>
            if c \<noteq> CHR '':'' \<or> s1 = [] then None
            else if hd s1 = CHR '':'' then
              (if ell \<noteq> None then None
               else if tl s1 = [] then Some (acc', Some (length acc'))
               else v6_loop n (tl s1) acc' (Some (length acc')))
            else v6_loop n s1 acc' ell)))"

definition parse_v6_body :: "string \<Rightarrow> goip option" where
  "parse_v6_body s =
    (let (s0, ell0) = (if prefix ''::'' s then (drop 2 s, Some 0) else (s, None)) in
     if ell0 = Some 0 \<and> s0 = [] then Some (replicate 16 0)
     else (case v6_loop 9 s0 [] ell0 of None \<Rightarrow> None
       | Some (acc, ell) \<Rightarrow>
         if length acc < 16 then
           (case ell of None \<Rightarrow> None
            | Some e \<Rightarrow> Some (take e acc @ replicate (16 - length acc) 0 @ drop e acc))
         else if ell \<noteq> None then None else Some acc))"

definition parse_v6 :: "string \<Rightarrow> naddr option" where
  "parse_v6 s =
    (let body = takeWhile (\<lambda>c. c \<noteq> CHR ''%'') s; zone = drop (length body + 1) s in
     if length body < length s \<and> zone = [] then None
     else (case parse_v6_body body of None \<Rightarrow> None | Some ip \<Rightarrow> Some (A6 ip zone)))"

definition parse_addr :: "string \<Rightarrow> naddr option" where
  "parse_addr s =
    (case filter (\<lambda>c. c = CHR ''.'' \<or> c = CHR '':'' \<or> c = CHR ''%'') s of [] \<Rightarrow> None
     | c # _ \<Rightarrow> if c = CHR ''.'' then map_option A4 (parse_v4 s)
       else if c = CHR '':'' then parse_v6 s else None)"

text \<open>\<open>netip.Addr.Unmap\<close> and the 4-byte value of an IPv4 address.\<close>

definition unmap_v4 :: "naddr \<Rightarrow> goip option" where
  "unmap_v4 a = (case a of A4 v \<Rightarrow> Some v | A6 ip _ \<Rightarrow> to4 ip)"

text \<open>\<open>net.ParseIP\<close> returns the 16-byte form and refuses zones.\<close>

definition parse_ip :: "string \<Rightarrow> goip option" where
  "parse_ip s = (case parse_addr s of None \<Rightarrow> None
     | Some (A4 v) \<Rightarrow> Some (v4_prefix @ v)
     | Some (A6 ip zone) \<Rightarrow> if zone = [] then Some ip else None)"

definition parse_ip4 :: "string \<Rightarrow> goip option" where
  \<comment> \<open>\<open>net.ParseIP(s).To4()\<close>\<close>
  "parse_ip4 s = (case parse_ip s of None \<Rightarrow> None | Some ip \<Rightarrow> to4 ip)"

lemma opt_map_map: "(\<And>x. x \<in> set xs \<Longrightarrow> f (g x) = Some x) \<Longrightarrow> opt_map f (map g xs) = Some xs"
  by (induction xs) auto

lemma opt_map_length: "opt_map f xs = Some ys \<Longrightarrow> length ys = length xs"
  by (induction xs arbitrary: ys) (auto split: option.splits)

lemma digit_char_0: "digit_char 0 = CHR ''0''"
  by (simp add: digit_char_def char_of_def bit_0)

lemma digit_char_inject: "m < 10 \<Longrightarrow> n < 10 \<Longrightarrow> digit_char m = digit_char n \<longleftrightarrow> m = n"
  by (metis digit_char_val)

lemma hd_nat_digits: "n \<noteq> 0 \<Longrightarrow> hd (nat_digits n) \<noteq> CHR ''0''"
proof (induction n rule: nat_digits.induct)
  case (1 n)
  show ?case
  proof (cases "n < 10")
    case True
    then show ?thesis using "1.prems" digit_char_inject [of n 0]
      by (subst nat_digits.simps) (simp add: digit_char_0)
  next
    case False
    then have "n div 10 \<noteq> 0" by auto
    then have "hd (nat_digits (n div 10)) \<noteq> CHR ''0''" using "1.IH" False by auto
    then show ?thesis using False by (subst nat_digits.simps) simp
  qed
qed

lemma parse_octet_print [simp]: "parse_octet (nat_digits (unat b)) = Some b"
proof -
  have le: "unat b \<le> 255" using unsigned_less [of b, where ?'a = nat] by simp
  have hd: "length (nat_digits (unat b)) = 1 \<or> hd (nat_digits (unat b)) \<noteq> CHR ''0''"
    by (cases "unat b = 0") (auto simp: nat_digits.simps [of 0] hd_nat_digits)
  show ?thesis using le hd by (simp add: parse_octet_def)
qed

lemma parse_v4_length: "parse_v4 s = Some ip \<Longrightarrow> length ip = 4"
  by (auto simp: parse_v4_def Let_def dest: opt_map_length split: if_splits)

lemma parse_v4_print: "length ip = 4 \<Longrightarrow> parse_v4 (v4_string ip) = Some ip"
proof -
  assume len: "length ip = 4"
  let ?ws = "map (\<lambda>b. nat_digits (unat b)) ip"
  have "split_on CHR ''.'' (v4_string ip) = ?ws"
    unfolding v4_string_def using len by (intro split_join) (auto simp: nat_digits_no_sep)
  moreover have "opt_map parse_octet ?ws = Some ip" by (rule opt_map_map) simp
  ultimately show ?thesis using len by (simp add: parse_v4_def Let_def)
qed

lemma v4_string_chars:
  "length ip = 4 \<Longrightarrow> c \<in> set (v4_string ip) \<Longrightarrow> is_digit c \<or> c = CHR ''.''"
  using nat_digits_all_digits
  by (elim length_4_cases) (auto simp: v4_string_def list_all_iff)

lemma v4_string_dot: "length ip = 4 \<Longrightarrow> CHR ''.'' \<in> set (v4_string ip)"
  by (elim length_4_cases) (simp add: v4_string_def)

lemma parse_addr_print: "length ip = 4 \<Longrightarrow> parse_addr (v4_string ip) = Some (A4 ip)"
proof -
  assume len: "length ip = 4"
  let ?f = "filter (\<lambda>c. c = CHR ''.'' \<or> c = CHR '':'' \<or> c = CHR ''%'') (v4_string ip)"
  have ne: "?f \<noteq> []" using v4_string_dot [OF len] by (auto simp: filter_empty_conv)
  have dots: "c = CHR ''.''" if "c \<in> set ?f" for c
  proof -
    have "is_digit c \<or> c = CHR ''.''" using v4_string_chars [OF len] that by simp
    moreover have "c = CHR ''.'' \<or> c = CHR '':'' \<or> c = CHR ''%''" using that by simp
    ultimately show ?thesis using not_digit_chars by metis
  qed
  obtain c r where cr: "?f = c # r" using ne by (cases ?f) auto
  have "c = CHR ''.''" by (rule dots) (simp add: cr)
  with cr show ?thesis using len unfolding parse_addr_def by (simp add: parse_v4_print)
qed

text \<open>Printing an IPv4 address and parsing it returns the address.\<close>

lemma to4_mapped [simp]: "length v = 4 \<Longrightarrow> to4 (v4_prefix @ v) = Some v"
  by (simp add: to4_def v4_prefix_def)

lemma parse_ip4_print [simp]: "length ip = 4 \<Longrightarrow> parse_ip4 (v4_string ip) = Some ip"
  by (simp add: parse_ip4_def parse_ip_def parse_addr_print)

lemma parse_ip4_length: "parse_ip4 s = Some ip \<Longrightarrow> length ip = 4"
  by (auto simp: parse_ip4_def dest: to4_length split: option.splits)

lemma v4_string_inject:
  "length x = 4 \<Longrightarrow> length y = 4 \<Longrightarrow> v4_string x = v4_string y \<longleftrightarrow> x = y"
  by (metis parse_ip4_print option.inject)

lemma u32_string_inject [simp]: "u32_string v = u32_string w \<longleftrightarrow> v = w"
  by (simp add: u32_string_def v4_string_inject)

lemma parse_ip4_u32_string [simp]: "parse_ip4 (u32_string w) = Some (put_u32 w)"
  by (simp add: u32_string_def)

end
