(* ===== verification/NetCidr.thy ===== *)
theory NetCidr
  imports NetIP
begin

text \<open>
  Networks: Go's \<open>net.IPMask\<close>, \<open>net.IPNet\<close> and \<open>net.ParseCIDR\<close>, and the repository's
  \<open>pkg/netutil\<close>: \<open>IPRange\<close> (ip.go) and \<open>BuildExecutionKey\<close> (key.go).

  The lemmas relate the byte-wise mask operations to blocks of 32-bit addresses: the network of a
  prefix is exactly the interval from its first to its last address.
\<close>

section \<open>Masks\<close>

definition byte_mask :: "nat \<Rightarrow> 8 word" where
  "byte_mask n = (if 8 \<le> n then 0xff else NOT (drop_bit n 0xff))"

definition cidr_mask :: "nat \<Rightarrow> nat \<Rightarrow> goip" where
  \<comment> \<open>\<open>net.CIDRMask(ones, bits)\<close>\<close>
  "cidr_mask ones bits = map (\<lambda>i. byte_mask (ones - 8 * i)) [0..<bits div 8]"

definition mask_size :: "goip \<Rightarrow> nat \<times> nat" where
  \<comment> \<open>\<open>IPMask.Size\<close>: (0, 0) when the mask is not ones followed by zeros\<close>
  "mask_size m = (case find (\<lambda>n. m = cidr_mask n (8 * length m)) [0..<8 * length m + 1] of
     Some n \<Rightarrow> (n, 8 * length m) | None \<Rightarrow> (0, 0))"

definition and_bytes :: "goip \<Rightarrow> goip \<Rightarrow> goip" where
  "and_bytes x y = map2 (AND) x y"

definition or_not_bytes :: "goip \<Rightarrow> goip \<Rightarrow> goip" where
  "or_not_bytes x m = map2 (\<lambda>a b. a OR NOT b) x m"

lemma length_and_bytes: "length (and_bytes x y) = min (length x) (length y)"
  by (simp add: and_bytes_def)

lemma cidr_mask_length [simp]: "length (cidr_mask n b) = b div 8"
  by (simp add: cidr_mask_def)

definition pmask :: "nat \<Rightarrow> 32 word" where
  "pmask k = NOT (mask (32 - k))"

lemma be_u32_cidr_mask: "k \<le> 32 \<Longrightarrow> be_u32 (cidr_mask k 32) = pmask k"
proof -
  have "\<forall>k \<in> set [0..<33]. be_u32 (cidr_mask k 32) = pmask k" by code_simp
  then show "k \<le> 32 \<Longrightarrow> be_u32 (cidr_mask k 32) = pmask k" by auto
qed

lemma mask_size_cidr_mask: "k \<le> 32 \<Longrightarrow> mask_size (cidr_mask k 32) = (k, 32)"
proof -
  have "\<forall>k \<in> set [0..<33]. mask_size (cidr_mask k 32) = (k, 32)" by code_simp
  then show "k \<le> 32 \<Longrightarrow> mask_size (cidr_mask k 32) = (k, 32)" by auto
qed

lemma find_SomeE: "find P xs = Some x \<Longrightarrow> P x \<and> x \<in> set xs"
  by (auto simp: find_Some_iff)

lemma mask_size_32: "mask_size m = (k, 32) \<Longrightarrow> k \<le> 32 \<and> m = cidr_mask k 32"
  by (auto simp: mask_size_def split: option.splits dest!: find_SomeE)

lemma be_u32_and_bytes:
  assumes "length x = 4" and "length y = 4"
  shows "be_u32 (and_bytes x y) = be_u32 x AND be_u32 y"
proof -
  obtain a b c d a' b' c' d' where xy: "x = [a, b, c, d]" "y = [a', b', c', d']"
    using assms by (metis length_4_cases)
  show ?thesis
    unfolding xy and_bytes_def
    by (rule bit_word_eqI) (auto simp: bit_or_iff bit_and_iff bit_push_bit_iff bit_ucast_iff bit_byte)
qed

lemma be_u32_or_not_bytes:
  assumes "length x = 4" and "length y = 4"
  shows "be_u32 (or_not_bytes x y) = be_u32 x OR NOT (be_u32 y)"
proof -
  obtain a b c d a' b' c' d' where xy: "x = [a, b, c, d]" "y = [a', b', c', d']"
    using assms by (metis length_4_cases)
  show ?thesis
  proof (unfold xy or_not_bytes_def, rule bit_word_eqI)
    fix n
    assume "n < LENGTH(32)"
    then consider "n < 8" | "8 \<le> n" "n < 16" | "16 \<le> n" "n < 24" | "24 \<le> n" "n < 32"
      by fastforce
    then show "bit (be_u32 (map2 (\<lambda>a b. a OR NOT b) [a, b, c, d] [a', b', c', d'])) n =
        bit (be_u32 [a, b, c, d] OR NOT (be_u32 [a', b', c', d'])) n"
      by cases (auto simp: bit_or_iff bit_and_iff bit_not_iff bit_push_bit_iff bit_ucast_iff bit_byte)
  qed
qed

section \<open>Blocks of addresses\<close>

lemma unat_block_start:
  fixes w :: "32 word"
  shows "unat (w AND NOT (mask j)) = unat w div 2 ^ j * 2 ^ j"
proof -
  have "w AND NOT (mask j) = push_bit j (drop_bit j w)"
    by (rule bit_word_eqI) (auto simp: bit_simps)
  then have "unat (w AND NOT (mask j)) = take_bit 32 (push_bit j (drop_bit j (unat w)))"
    by (simp add: unsigned_push_bit_eq unat_drop_bit_eq)
  also have "push_bit j (drop_bit j (unat w)) = unat w div 2 ^ j * 2 ^ j"
    by (simp add: push_bit_eq_mult drop_bit_eq_div)
  also have "take_bit 32 (unat w div 2 ^ j * 2 ^ j) = unat w div 2 ^ j * 2 ^ j"
  proof (rule take_bit_nat_eq_self)
    have "unat w < 2 ^ 32" using unsigned_less [of w, where ?'a = nat] by simp
    then show "unat w div 2 ^ j * 2 ^ j < 2 ^ 32"
      by (rule le_less_trans [OF div_times_less_eq_dividend])
  qed
  finally show ?thesis .
qed

lemma unat_block_end:
  fixes w :: "32 word"
  assumes "j \<le> 32"
  shows "unat (w OR mask j) = unat w div 2 ^ j * 2 ^ j + (2 ^ j - 1)"
proof -
  have "unat (w OR mask j) = unat w OR unat (mask j :: 32 word)"
    by (simp add: unsigned_or_eq)
  also have "unat (mask j :: 32 word) = mask j"
    using assms by (transfer fixing: j) (simp add: nat_mask_eq min_def)
  also have "unat w OR mask j = unat w div 2 ^ j * 2 ^ j + mask j"
  proof -
    have "unat w OR mask j = push_bit j (drop_bit j (unat w)) OR mask j"
      by (rule bit_eqI) (auto simp: bit_simps)
    also have "\<dots> = push_bit j (drop_bit j (unat w)) + mask j"
      by (rule disjunctive_add_eq_or [symmetric], rule bit_eqI) (auto simp: bit_simps)
    finally show ?thesis by (simp add: push_bit_eq_mult drop_bit_eq_div)
  qed
  finally show ?thesis by (simp add: mask_eq_exp_minus_1)
qed

lemma nat_div_eq:
  fixes x d q :: nat
  assumes "0 < d"
  shows "x div d = q \<longleftrightarrow> q * d \<le> x \<and> x < q * d + d"
proof
  assume "x div d = q"
  then have "x = q * d + x mod d" using div_mult_mod_eq [of x d] by simp
  moreover have "x mod d < d" using assms by simp
  ultimately show "q * d \<le> x \<and> x < q * d + d" by linarith
next
  assume "q * d \<le> x \<and> x < q * d + d"
  then show "x div d = q" by (intro div_nat_eqI) (auto simp: mult.commute)
qed

text \<open>An address is in a block exactly when masking it gives the first address of the block.\<close>

lemma block_member:
  fixes w x :: "32 word"
  assumes "j \<le> 32"
  shows "x AND NOT (mask j) = w AND NOT (mask j) \<longleftrightarrow>
     w AND NOT (mask j) \<le> x \<and> x \<le> w OR mask j"
proof -
  have "(x AND NOT (mask j) = w AND NOT (mask j)) \<longleftrightarrow>
      unat x div 2 ^ j * 2 ^ j = unat w div 2 ^ j * 2 ^ j"
    by (metis unat_block_start word_unat_eq_iff)
  also have "\<dots> \<longleftrightarrow> unat x div 2 ^ j = unat w div 2 ^ j" by simp
  also have "\<dots> \<longleftrightarrow> unat w div 2 ^ j * 2 ^ j \<le> unat x \<and>
      unat x \<le> unat w div 2 ^ j * 2 ^ j + (2 ^ j - 1)"
  proof -
    have "(0::nat) < 2 ^ j" by simp
    then show ?thesis
      unfolding nat_div_eq [OF \<open>0 < 2 ^ j\<close>, of "unat x" "unat w div 2 ^ j"] by linarith
  qed
  finally show ?thesis
    using assms by (simp add: word_le_nat_alt unat_block_start unat_block_end)
qed

lemma block_size:
  fixes w :: "32 word"
  assumes "j \<le> 32"
  shows "unat (w OR mask j) + 1 - unat (w AND NOT (mask j)) = 2 ^ j"
  using assms by (simp add: unat_block_start unat_block_end)

lemma block_order: "j \<le> 32 \<Longrightarrow> (w :: 32 word) AND NOT (mask j) \<le> w \<and> w \<le> w OR mask j"
  using block_member [of j w w] by simp

section \<open>net.IPNet and net.ParseCIDR\<close>

record ipnet =
  net_ip :: goip
  net_mask :: goip

definition prefix_net :: "32 word \<Rightarrow> nat \<Rightarrow> ipnet" where
  \<comment> \<open>the IPv4 network of an address and a prefix length\<close>
  "prefix_net w k = \<lparr>net_ip = put_u32 (w AND pmask k), net_mask = cidr_mask k 32\<rparr>"

definition cut_slash :: "string \<Rightarrow> (string \<times> string) option" where
  "cut_slash s = (if CHR ''/'' \<in> set s
     then (let a = takeWhile (\<lambda>c. c \<noteq> CHR ''/'') s in Some (a, drop (length a + 1) s))
     else None)"

definition parse_cidr :: "string \<Rightarrow> ipnet option" where
  "parse_cidr s = (case cut_slash s of None \<Rightarrow> None
    | Some (addr, m) \<Rightarrow>
      (case (parse_addr addr, digits_value m) of
         (Some (A4 v), Some n) \<Rightarrow>
           if n \<le> 32 then Some \<lparr>net_ip = and_bytes v (cidr_mask n 32), net_mask = cidr_mask n 32\<rparr>
           else None
       | (Some (A6 ip zone), Some n) \<Rightarrow>
           if zone = [] \<and> n \<le> 128
           then Some \<lparr>net_ip = and_bytes ip (cidr_mask n 128), net_mask = cidr_mask n 128\<rparr>
           else None
       | _ \<Rightarrow> None))"

definition net_number_and_mask :: "ipnet \<Rightarrow> (goip \<times> goip) option" where
  "net_number_and_mask n =
    (case to4 (net_ip n) of
       Some v \<Rightarrow> if length (net_mask n) = 4 then Some (v, net_mask n)
         else if length (net_mask n) = 16 then Some (v, drop 12 (net_mask n)) else None
     | None \<Rightarrow> if length (net_ip n) = 16 \<and> length (net_mask n) = 16
         then Some (net_ip n, net_mask n) else None)"

definition hex_byte :: "8 word \<Rightarrow> string" where
  "hex_byte b = [hex_char (unat b div 16), hex_char (unat b mod 16)]"

definition ipnet_string :: "ipnet \<Rightarrow> string" where
  "ipnet_string n = (case net_number_and_mask n of None \<Rightarrow> ''<nil>''
    | Some (ip, m) \<Rightarrow>
      (case mask_size m of (ones, bits) \<Rightarrow>
        if bits = 0 then ip_string ip @ ''/'' @ concat (map hex_byte m)
        else ip_string ip @ ''/'' @ nat_digits ones))"

definition ipnet_contains :: "ipnet \<Rightarrow> goip \<Rightarrow> bool" where
  "ipnet_contains n ip = (case net_number_and_mask n of None \<Rightarrow> False
    | Some (nn, m) \<Rightarrow>
      (let x = (case to4 ip of Some v \<Rightarrow> v | None \<Rightarrow> ip) in
       length x = length nn \<and> and_bytes nn m = and_bytes x m))"

definition cidr_string :: "32 word \<Rightarrow> nat \<Rightarrow> string" where
  "cidr_string w k = u32_string w @ ''/'' @ nat_digits k"

lemma net_ip_prefix_net [simp]: "net_ip (prefix_net w k) = put_u32 (w AND pmask k)"
  and net_mask_prefix_net [simp]: "net_mask (prefix_net w k) = cidr_mask k 32"
  by (simp_all add: prefix_net_def)

lemma u32_string_no_slash: "CHR ''/'' \<notin> set (u32_string w)"
  using v4_string_chars [of "put_u32 w" "CHR ''/''"] not_digit_chars(3) by (auto simp: u32_string_def)

lemma takeWhile_stop: "x \<notin> set xs \<Longrightarrow> takeWhile (\<lambda>c. c \<noteq> x) (xs @ x # ys) = xs"
  by (induction xs) auto

lemma cut_slash_u32: "cut_slash (u32_string w @ CHR ''/'' # t) = Some (u32_string w, t)"
  by (simp add: cut_slash_def Let_def takeWhile_stop u32_string_no_slash)

text \<open>Parsing the printed form of a network returns the network with its host bits cleared.\<close>

lemma parse_cidr_string: "k \<le> 32 \<Longrightarrow> parse_cidr (cidr_string w k) = Some (prefix_net w k)"
proof -
  assume k: "k \<le> 32"
  have "and_bytes (put_u32 w) (cidr_mask k 32) = put_u32 (w AND pmask k)"
    using k by (intro be_u32_inject [THEN iffD1])
      (simp_all add: be_u32_and_bytes be_u32_cidr_mask length_and_bytes)
  then show ?thesis
    using k by (simp add: parse_cidr_def cidr_string_def cut_slash_u32 prefix_net_def
        parse_addr_print [of "put_u32 w", folded u32_string_def])
qed

lemma ipnet_string_prefix_net:
  "k \<le> 32 \<Longrightarrow> ipnet_string (prefix_net w k) = cidr_string (w AND pmask k) k"
  by (simp add: ipnet_string_def net_number_and_mask_def mask_size_cidr_mask ip_string_def
      cidr_string_def u32_string_def)

section \<open>netutil.IPRange\<close>

definition IPRange :: "ipnet option \<Rightarrow> (goip \<times> goip) option" where
  "IPRange n = (case n of None \<Rightarrow> None
    | Some n \<Rightarrow>
      (case to4 (net_ip n) of None \<Rightarrow> None
       | Some base \<Rightarrow>
         if length (net_mask n) \<noteq> 4 then None
         else (let start = and_bytes base (net_mask n) in
               Some (start, or_not_bytes start (net_mask n)))))"

lemma IPRange_prefix_net:
  assumes "k \<le> 32"
  shows "IPRange (Some (prefix_net w k)) =
     Some (put_u32 (w AND pmask k), put_u32 (w OR mask (32 - k)))"
proof -
  let ?b = "put_u32 (w AND pmask k)" and ?m = "cidr_mask k 32"
  have s: "be_u32 (and_bytes ?b ?m) = w AND pmask k"
    using assms by (simp add: be_u32_and_bytes be_u32_cidr_mask ac_simps)
  have ls: "length (and_bytes ?b ?m) = 4" by (simp add: and_bytes_def)
  have "be_u32 (or_not_bytes (and_bytes ?b ?m) ?m) = w OR mask (32 - k)"
    using assms ls s
    by (simp add: be_u32_or_not_bytes be_u32_cidr_mask pmask_def)
      (rule bit_word_eqI, auto simp: bit_simps)
  moreover have "length (or_not_bytes (and_bytes ?b ?m) ?m) = 4"
    by (simp add: or_not_bytes_def and_bytes_def)
  ultimately have "and_bytes ?b ?m = put_u32 (w AND pmask k)"
      "or_not_bytes (and_bytes ?b ?m) ?m = put_u32 (w OR mask (32 - k))"
    using s ls by (metis put_u32_be_u32)+
  then show ?thesis by (simp add: IPRange_def Let_def)
qed

section \<open>netutil.BuildExecutionKey\<close>

datatype key_error = InvalidDstIP string | InvalidPort int | InvalidProtocol string

definition BuildExecutionKey :: "string \<Rightarrow> int \<Rightarrow> string \<Rightarrow> key_error + string" where
  "BuildExecutionKey dstIP port protocol =
    (case parse_ip4 (trim_space dstIP) of
       None \<Rightarrow> Inl (InvalidDstIP dstIP)
     | Some ip \<Rightarrow>
       if port < 1 \<or> 65535 < port then Inl (InvalidPort port)
       else (let proto = to_lower (trim_space protocol) in
         if proto \<noteq> ''tcp'' then Inl (InvalidProtocol proto)
         else Inr (v4_string ip @ '':'' @ itoa port @ ''/'' @ proto)))"

lemma append_sep_inject:
  "c \<notin> set a \<Longrightarrow> c \<notin> set b \<Longrightarrow> a @ c # x = b @ c # y \<longleftrightarrow> a = b \<and> x = y"
proof (induction a arbitrary: b)
  case Nil
  then show ?case by (cases b) auto
next
  case (Cons d a)
  then show ?case by (cases b) auto
qed

lemma v4_string_no_colon: "length ip = 4 \<Longrightarrow> CHR '':'' \<notin> set (v4_string ip)"
  using v4_string_chars [of ip "CHR '':''"] not_digit_chars(2) by auto

lemma execution_key_cases:
  assumes "BuildExecutionKey d p pr = Inr k"
  obtains ip where "parse_ip4 (trim_space d) = Some ip" "length ip = 4" "1 \<le> p" "p \<le> 65535"
    "k = v4_string ip @ CHR '':'' # nat_digits (nat p) @ ''/tcp''"
  using assms
  by (auto simp: BuildExecutionKey_def itoa_def Let_def split: option.splits if_splits
      dest: parse_ip4_length)

lemma execution_key_inject:
  assumes "BuildExecutionKey d1 p1 r1 = Inr k1" and "BuildExecutionKey d2 p2 r2 = Inr k2"
  shows "k1 = k2 \<longleftrightarrow>
    parse_ip4 (trim_space d1) = parse_ip4 (trim_space d2) \<and> p1 = p2"
proof -
  from assms(1) obtain i1 where 1: "parse_ip4 (trim_space d1) = Some i1" "length i1 = 4"
      "1 \<le> p1" "k1 = v4_string i1 @ CHR '':'' # nat_digits (nat p1) @ ''/tcp''"
    by (rule execution_key_cases)
  from assms(2) obtain i2 where 2: "parse_ip4 (trim_space d2) = Some i2" "length i2 = 4"
      "1 \<le> p2" "k2 = v4_string i2 @ CHR '':'' # nat_digits (nat p2) @ ''/tcp''"
    by (rule execution_key_cases)
  show ?thesis
    using 1 2 by (auto simp: append_sep_inject v4_string_no_colon v4_string_inject)
qed

end
