(* ===== verification/InputRecords.thy ===== *)
theory InputRecords
  imports NetCidr
begin

text \<open>
  \<open>pkg/input\<close>, the parsing half: the record types (types.go, rich_types.go), the header match
  (header_match.go), the basic row parser (cidr.go), the rich row parser (rich_parser.go), the
  string and boundary pools both use, and the port file (ports.go).

  The \<open>encoding/csv\<close> reader is the list of the results its \<open>Read\<close> calls return, an empty list
  being \<open>io.EOF\<close>. Error values carry the data the Go message prints; the message text itself
  is not modelled.
\<close>

section \<open>types.go, rich_types.go, validation_errors.go\<close>

datatype row_error =
    EmptyIP | EmptyIPCidr | BadIPCidr string | NotIPv4IPCidr string | BadIP string
  | MissingField string | BadSrcIP string | SrcIPNotIPv4 string | BadDstIP string
  | DstIPNotIPv4 string | BadSrcSegment string | SrcSegmentNotIPv4 string
  | BadDstSegment string | DstSegmentNotIPv4 string | SrcOutsideSegment | DstOutsideSegment
  | BadProtocol string | BadDecision string | BadPort string

record CIDRRecord =
  FabName :: string
  CIDR :: string
  CIDRName :: string
  Net :: "ipnet option"
  IPRaw :: string
  IPCidrRaw :: string
  Selector :: "ipnet option"
  RowNumber :: int
  IPColName :: string
  IPCidrCol :: string
  IsRich :: bool
  IsValid :: bool
  ValidationCode :: string
  ValidationError :: "row_error option"
  SrcIP :: string
  SrcNetworkSegment :: string
  DstIP :: string
  DstNetworkSegment :: string
  ServiceLabel :: string
  Protocol :: string
  Port :: int
  Decision :: string
  PolicyID :: string
  Reason :: string
  ExecutionKey :: string
  RichInputIdentifier :: string

definition zero_record :: CIDRRecord where
  "zero_record = \<lparr>FabName = [], CIDR = [], CIDRName = [], Net = None, IPRaw = [],
     IPCidrRaw = [], Selector = None, RowNumber = 0, IPColName = [], IPCidrCol = [],
     IsRich = False, IsValid = False, ValidationCode = [], ValidationError = None, SrcIP = [],
     SrcNetworkSegment = [], DstIP = [], DstNetworkSegment = [], ServiceLabel = [],
     Protocol = [], Port = 0, Decision = [], PolicyID = [], Reason = [], ExecutionKey = [],
     RichInputIdentifier = []\<rparr>"

record PortSpec =
  Number :: int
  Proto :: string
  Raw :: string

definition requiredRichFields :: "string list" where
  "requiredRichFields = [''src_ip'', ''src_network_segment'', ''dst_ip'', ''dst_network_segment'',
     ''service_label'', ''protocol'', ''port'', ''decision'', ''matched_policy_id'', ''reason'']"

section \<open>header_match.go\<close>

definition canonicalHeaderName :: "string \<Rightarrow> string" where
  "canonicalHeaderName v = to_lower (trim_space v)"

definition header_map :: "string list \<Rightarrow> (string \<rightharpoonup> nat)" where
  \<comment> \<open>a repeated header keeps the index of its last column\<close>
  "header_map header = fold (\<lambda>(i, h) m. m(canonicalHeaderName h \<mapsto> i)) (enumerate 0 header) Map.empty"

definition detectRichHeaderIndices :: "string list \<Rightarrow> (string \<rightharpoonup> nat) option" where
  "detectRichHeaderIndices header = (let idx = header_map header in
     if list_all (\<lambda>f. idx f \<noteq> None) requiredRichFields then Some idx else None)"

definition normalizeHeader :: "string list \<Rightarrow> string list" where
  "normalizeHeader header = map trim_space header"

fun headerIndex :: "string list \<Rightarrow> string \<Rightarrow> nat option" where
  "headerIndex [] name = None"
| "headerIndex (h # hs) name = (if h = name then Some 0 else map_option Suc (headerIndex hs name))"

section \<open>cidr.go: CIDRRecord.Parse\<close>

definition address_net :: "goip \<Rightarrow> ipnet" where
  "address_net v = \<lparr>net_ip = v, net_mask = [0xff, 0xff, 0xff, 0xff]\<rparr>"

definition parseSelector :: "string \<Rightarrow> ipnet option" where
  "parseSelector raw = (case parse_addr raw of
     Some a \<Rightarrow> map_option address_net (unmap_v4 a)
   | None \<Rightarrow> (case parse_cidr raw of None \<Rightarrow> None
       | Some sel \<Rightarrow> if to4 (net_ip sel) = None then None else Some sel))"

definition record_Parse :: "CIDRRecord \<Rightarrow> row_error + CIDRRecord" where
  "record_Parse r =
    (if trim_space (IPRaw r) = [] then Inl EmptyIP
     else if trim_space (IPCidrRaw r) = [] then Inl EmptyIPCidr
     else (case parse_cidr (trim_space (IPCidrRaw r)) of
       None \<Rightarrow> Inl (BadIPCidr (IPCidrRaw r))
     | Some ipCidrNet \<Rightarrow>
       if to4 (net_ip ipCidrNet) = None then Inl (NotIPv4IPCidr (IPCidrRaw r))
       else (case parseSelector (trim_space (IPRaw r)) of
         None \<Rightarrow> Inl (BadIP (IPRaw r))
       | Some selector \<Rightarrow>
         Inr (r\<lparr>Net := Some ipCidrNet, CIDR := ipnet_string ipCidrNet,
                IPCidrRaw := trim_space (IPCidrRaw r),
                Selector := Some selector, IPRaw := trim_space (IPRaw r)\<rparr>))))"

definition parseSelectorIntoRecord :: "CIDRRecord \<Rightarrow> row_error + CIDRRecord" where
  "parseSelectorIntoRecord r =
    (if trim_space (IPRaw r) = [] then Inl EmptyIP
     else (case parseSelector (trim_space (IPRaw r)) of
       None \<Rightarrow> Inl (BadIP (IPRaw r))
     | Some selector \<Rightarrow> Inr (r\<lparr>Selector := Some selector, IPRaw := trim_space (IPRaw r)\<rparr>)))"

section \<open>cidr.go: the record pool\<close>

text \<open>
  \<open>strings\<close> interns equal strings, \<open>boundaries\<close> remembers a boundary CIDR that already parsed.
  Both stop growing at \<open>basicRecordPoolCapacity\<close> entries. Go's maps are partial functions with
  the number of their keys beside them.
\<close>

record basicBoundary =
  b_raw :: string
  b_canonical :: string
  b_network :: "ipnet option"

record basicRecordPool =
  pool_strings :: "string \<rightharpoonup> string"
  pool_strings_len :: nat
  pool_boundaries :: "string \<rightharpoonup> basicBoundary"
  pool_boundaries_len :: nat

definition basicRecordPoolCapacity :: nat where
  "basicRecordPoolCapacity = 4096"

definition newBasicRecordPool :: basicRecordPool where
  "newBasicRecordPool = \<lparr>pool_strings = Map.empty, pool_strings_len = 0,
     pool_boundaries = Map.empty, pool_boundaries_len = 0\<rparr>"

definition pool_intern :: "basicRecordPool \<Rightarrow> string \<Rightarrow> string \<times> basicRecordPool" where
  "pool_intern pool value =
    (if value = [] then ([], pool)
     else (case pool_strings pool value of
       Some interned \<Rightarrow> (interned, pool)
     | None \<Rightarrow>
       (value, if pool_strings_len pool < basicRecordPoolCapacity
          then pool\<lparr>pool_strings := (pool_strings pool)(value \<mapsto> value),
                    pool_strings_len := Suc (pool_strings_len pool)\<rparr>
          else pool)))"

definition pool_parse_cached ::
  "basicRecordPool \<Rightarrow> CIDRRecord \<Rightarrow> basicBoundary \<Rightarrow> row_error + CIDRRecord \<times> basicRecordPool" where
  "pool_parse_cached pool record boundary =
     try_bind (parseSelectorIntoRecord record) (\<lambda>r.
       Inr (r\<lparr>IPCidrRaw := b_raw boundary, CIDR := b_canonical boundary,
              Net := b_network boundary\<rparr>, pool))"

definition pool_parse_fresh ::
  "basicRecordPool \<Rightarrow> CIDRRecord \<Rightarrow> row_error + CIDRRecord \<times> basicRecordPool" where
  "pool_parse_fresh pool record =
     try_bind (record_Parse record) (\<lambda>r.
       let (raw, pool1) = pool_intern pool (IPCidrRaw r);
           (canonical, pool2) = pool_intern pool1 (CIDR r);
           r' = r\<lparr>IPCidrRaw := raw, CIDR := canonical\<rparr>
       in Inr (r', if pool_boundaries_len pool2 < basicRecordPoolCapacity
            then pool2\<lparr>pool_boundaries := (pool_boundaries pool2)
                   (IPCidrRaw r' \<mapsto> \<lparr>b_raw = IPCidrRaw r', b_canonical = CIDR r', b_network = Net r'\<rparr>),
                 pool_boundaries_len := Suc (pool_boundaries_len pool2)\<rparr>
            else pool2))"

definition pool_parse ::
  "basicRecordPool \<Rightarrow> CIDRRecord \<Rightarrow> row_error + CIDRRecord \<times> basicRecordPool" where
  "pool_parse pool record =
    (let (fab, pool1) = pool_intern pool (FabName record);
         (name, pool2) = pool_intern pool1 (CIDRName record);
         r1 = record\<lparr>FabName := fab, CIDRName := name\<rparr>
     in try_bind
       (case pool_boundaries pool2 (trim_space (IPCidrRaw r1)) of
          Some boundary \<Rightarrow> pool_parse_cached pool2 r1 boundary
        | None \<Rightarrow> pool_parse_fresh pool2 r1)
       (\<lambda>(r2, pool3). let (ip, pool4) = pool_intern pool3 (IPRaw r2)
                      in Inr (r2\<lparr>IPRaw := ip\<rparr>, pool4)))"

text \<open>What every pool built by the loader satisfies: it only remembers what parsing returns.\<close>

definition pool_ok :: "basicRecordPool \<Rightarrow> bool" where
  "pool_ok pool \<longleftrightarrow> (\<forall>s t. pool_strings pool s = Some t \<longrightarrow> t = s) \<and>
     (\<forall>s b. pool_boundaries pool s = Some b \<longrightarrow> s \<noteq> [] \<and> b_raw b = s \<and>
        (\<exists>n. parse_cidr s = Some n \<and> to4 (net_ip n) \<noteq> None \<and>
             b_network b = Some n \<and> b_canonical b = ipnet_string n))"

lemma pool_ok_new [simp]: "pool_ok newBasicRecordPool"
  by (simp add: pool_ok_def newBasicRecordPool_def)

lemma pool_intern_transparent:
  assumes "pool_ok pool"
  shows "\<exists>pool'. pool_intern pool s = (s, pool') \<and> pool_ok pool'
    \<and> pool_boundaries pool' = pool_boundaries pool"
  using assms by (auto simp: pool_intern_def pool_ok_def split: option.splits)

text \<open>The record \<open>Parse\<close> would produce, which is what \<open>pool_parse\<close> produces with the pool.\<close>

lemma record_Parse_cases:
  assumes "record_Parse r = Inr r'"
  obtains n sel where "trim_space (IPCidrRaw r) \<noteq> []"
    "parse_cidr (trim_space (IPCidrRaw r)) = Some n" "to4 (net_ip n) \<noteq> None"
    "r' = r\<lparr>Net := Some n, CIDR := ipnet_string n, IPCidrRaw := trim_space (IPCidrRaw r),
            Selector := Some sel, IPRaw := trim_space (IPRaw r)\<rparr>"
  using assms by (auto simp: record_Parse_def split: if_splits option.splits)

lemma pool_parse_cached_correct:
  assumes "pool_ok pool" and "pool_boundaries pool (trim_space (IPCidrRaw r)) = Some b"
  shows "pool_parse_cached pool r b =
    (case record_Parse r of Inl e \<Rightarrow> Inl e | Inr r' \<Rightarrow> Inr (r', pool))"
proof -
  from assms obtain n where n: "trim_space (IPCidrRaw r) \<noteq> []"
      "b_raw b = trim_space (IPCidrRaw r)" "parse_cidr (trim_space (IPCidrRaw r)) = Some n"
      "to4 (net_ip n) \<noteq> None" "b_network b = Some n" "b_canonical b = ipnet_string n"
    unfolding pool_ok_def by blast
  show ?thesis
    using n by (cases r) (auto simp: pool_parse_cached_def parseSelectorIntoRecord_def
        record_Parse_def split: option.splits)
qed

lemma pool_parse_fresh_correct:
  assumes "pool_ok pool"
  shows "case record_Parse r of
      Inl e \<Rightarrow> pool_parse_fresh pool r = Inl e
    | Inr r' \<Rightarrow> \<exists>pool'. pool_parse_fresh pool r = Inr (r', pool') \<and> pool_ok pool'"
proof (cases "record_Parse r")
  case (Inl e)
  then show ?thesis by (simp add: pool_parse_fresh_def)
next
  case (Inr r')
  then obtain n sel where n: "trim_space (IPCidrRaw r) \<noteq> []"
    "parse_cidr (trim_space (IPCidrRaw r)) = Some n" "to4 (net_ip n) \<noteq> None"
    "r' = r\<lparr>Net := Some n, CIDR := ipnet_string n, IPCidrRaw := trim_space (IPCidrRaw r),
            Selector := Some sel, IPRaw := trim_space (IPRaw r)\<rparr>"
    by (rule record_Parse_cases)
  obtain pool1 where 1: "pool_intern pool (IPCidrRaw r') = (IPCidrRaw r', pool1)" "pool_ok pool1"
    using pool_intern_transparent [OF assms] by blast
  obtain pool2 where 2: "pool_intern pool1 (CIDR r') = (CIDR r', pool2)" "pool_ok pool2"
    using pool_intern_transparent [OF 1(2)] by blast
  have same: "r'\<lparr>IPCidrRaw := IPCidrRaw r', CIDR := CIDR r'\<rparr> = r'" by simp
  show ?thesis
    unfolding Inr pool_parse_fresh_def
    using 1(1) 2 n by (auto simp: Let_def pool_ok_def same)
qed

lemma pool_parse_correct:
  assumes "pool_ok pool"
  shows "case record_Parse r of
      Inl e \<Rightarrow> pool_parse pool r = Inl e
    | Inr r' \<Rightarrow> \<exists>pool'. pool_parse pool r = Inr (r', pool') \<and> pool_ok pool'"
proof -
  obtain pool1 where 1: "pool_intern pool (FabName r) = (FabName r, pool1)" "pool_ok pool1"
    using pool_intern_transparent [OF assms] by blast
  obtain pool2 where 2: "pool_intern pool1 (CIDRName r) = (CIDRName r, pool2)" "pool_ok pool2"
    using pool_intern_transparent [OF 1(2)] by blast
  have same: "r\<lparr>FabName := FabName r, CIDRName := CIDRName r\<rparr> = r" by simp
  let ?body = "case pool_boundaries pool2 (trim_space (IPCidrRaw r)) of
      Some boundary \<Rightarrow> pool_parse_cached pool2 r boundary | None \<Rightarrow> pool_parse_fresh pool2 r"
  have body: "case record_Parse r of Inl e \<Rightarrow> ?body = Inl e
     | Inr r' \<Rightarrow> \<exists>pool'. ?body = Inr (r', pool') \<and> pool_ok pool'"
    using pool_parse_fresh_correct [OF 2(2), of r] 2(2)
    by (auto simp: pool_parse_cached_correct split: option.splits sum.splits)
  have unfold: "pool_parse pool r = try_bind ?body (\<lambda>(r2, pool3).
      let (ip, pool4) = pool_intern pool3 (IPRaw r2) in Inr (r2\<lparr>IPRaw := ip\<rparr>, pool4))"
    unfolding pool_parse_def 1(1) Let_def prod.case 2(1) same ..
  show ?thesis
  proof (cases "record_Parse r")
    case (Inl e)
    with body show ?thesis by (simp add: unfold)
  next
    case (Inr r')
    with body obtain pool3 where 3: "?body = Inr (r', pool3)" "pool_ok pool3" by auto
    obtain pool4 where "pool_intern pool3 (IPRaw r') = (IPRaw r', pool4)" "pool_ok pool4"
      using pool_intern_transparent [OF 3(2)] by blast
    then show ?thesis unfolding unfold 3(1) Inr by simp
  qed
qed

end
