(* ===== verification/RichRecords.thy ===== *)
theory RichRecords
  imports InputRecords
begin

text \<open>
  \<open>pkg/input\<close>, rich mode (rich_parser.go): one policy row to one record, the string pool, and
  the loop over the rows. A \<open>netip.Prefix\<close> over an IPv4 address is the address and its length,
  \<open>None\<close> being the invalid prefix that \<open>netip.PrefixFrom\<close> returns for a length over 32.
\<close>

section \<open>netip.Prefix\<close>

type_synonym v4prefix = "(32 word \<times> nat) option"

definition cut_last_slash :: "string \<Rightarrow> (string \<times> string) option" where
  "cut_last_slash s = (if CHR ''/'' \<in> set s
     then (let b = rev (takeWhile (\<lambda>c. c \<noteq> CHR ''/'') (rev s)) in
           Some (take (length s - length b - 1) s, b))
     else None)"

definition parse_prefix :: "string \<Rightarrow> (naddr \<times> nat) option" where
  \<comment> \<open>\<open>netip.ParsePrefix\<close>\<close>
  "parse_prefix s = (case cut_last_slash s of None \<Rightarrow> None
    | Some (a, b) \<Rightarrow>
      (if 1 < length b \<and> \<not> (49 \<le> (of_char (hd b) :: nat) \<and> (of_char (hd b) :: nat) \<le> 57) then None
       else (case (parse_addr a, atoi b) of
         (Some (A4 v), Some n) \<Rightarrow> if 0 \<le> n \<and> n \<le> 32 then Some (A4 v, nat n) else None
       | (Some (A6 ip zone), Some n) \<Rightarrow>
           if zone = [] \<and> 0 \<le> n \<and> n \<le> 128 then Some (A6 ip zone, nat n) else None
       | _ \<Rightarrow> None)))"

definition prefix_masked :: "goip \<Rightarrow> nat \<Rightarrow> v4prefix" where
  \<comment> \<open>\<open>netip.PrefixFrom(addr, bits).Masked()\<close> for an IPv4 \<open>addr\<close>\<close>
  "prefix_masked v bits = (if bits \<le> 32 then Some (be_u32 v AND pmask bits, bits) else None)"

definition prefix_contains :: "v4prefix \<Rightarrow> goip \<Rightarrow> bool" where
  "prefix_contains p a = (case p of None \<Rightarrow> False
     | Some (w, k) \<Rightarrow> drop_bit (32 - k) (w XOR be_u32 a) = 0)"

definition prefix_string :: "32 word \<times> nat \<Rightarrow> string" where
  "prefix_string p = cidr_string (fst p) (snd p)"

section \<open>parseRichRow\<close>

definition rich_get :: "string list \<Rightarrow> (string \<rightharpoonup> nat) \<Rightarrow> string \<Rightarrow> string" where
  \<comment> \<open>reading a missing key of a Go map gives 0\<close>
  "rich_get row idx field =
    (let i = (case idx field of Some i \<Rightarrow> i | None \<Rightarrow> 0) in
     if length row \<le> i then [] else trim_space (row ! i))"

definition first_missing :: "string list \<Rightarrow> (string \<rightharpoonup> nat) \<Rightarrow> string option" where
  "first_missing row idx = find (\<lambda>f. rich_get row idx f = []) requiredRichFields"

definition rich_addr :: "string \<Rightarrow> (string \<Rightarrow> row_error) \<Rightarrow> (string \<Rightarrow> row_error) \<Rightarrow> row_error + goip" where
  "rich_addr raw bad not4 = (case parse_addr raw of None \<Rightarrow> Inl (bad raw)
     | Some a \<Rightarrow> (case unmap_v4 a of None \<Rightarrow> Inl (not4 raw) | Some v \<Rightarrow> Inr v))"

definition rich_segment ::
  "string \<Rightarrow> (string \<Rightarrow> row_error) \<Rightarrow> (string \<Rightarrow> row_error) \<Rightarrow> row_error + v4prefix" where
  "rich_segment raw bad not4 = (case parse_prefix raw of None \<Rightarrow> Inl (bad raw)
     | Some (a, bits) \<Rightarrow> (case unmap_v4 a of None \<Rightarrow> Inl (not4 raw)
        | Some v \<Rightarrow> Inr (prefix_masked v bits)))"

definition rich_decision :: "string \<Rightarrow> row_error + string" where
  "rich_decision raw = (if equal_fold raw ''deny'' then Inr ''deny''
     else if equal_fold raw ''accept'' then Inr ''accept'' else Inl (BadDecision raw))"

definition rich_port :: "string \<Rightarrow> row_error + int" where
  "rich_port raw = (case atoi raw of None \<Rightarrow> Inl (BadPort raw)
     | Some p \<Rightarrow> if p < 1 \<or> 65535 < p then Inl (BadPort raw) else Inr p)"

definition prefixIPNet :: "32 word \<times> nat \<Rightarrow> ipnet" where
  "prefixIPNet p = \<lparr>net_ip = put_u32 (fst p), net_mask = cidr_mask (snd p) 32\<rparr>"

definition addressIPNet :: "goip \<Rightarrow> ipnet" where
  "addressIPNet v = \<lparr>net_ip = v, net_mask = [0xff, 0xff, 0xff, 0xff]\<rparr>"

definition rich_record :: "(string \<Rightarrow> string) \<Rightarrow> int \<Rightarrow> goip \<Rightarrow> goip \<Rightarrow> 32 word \<times> nat \<Rightarrow> 32 word \<times> nat
    \<Rightarrow> string \<Rightarrow> int \<Rightarrow> CIDRRecord" where
  \<comment> \<open>the record of an accepted row; \<open>get\<close> reads its trimmed columns\<close>
  "rich_record get rowNumber srcAddr dstAddr srcPrefix dstPrefix decision port =
    (let srcIP = v4_string srcAddr; dstIP = v4_string dstAddr;
         dstSegment = prefix_string dstPrefix; dstNet = prefixIPNet dstPrefix in
     \<lparr>FabName = srcIP, CIDR = dstSegment, CIDRName = get ''service_label'', Net = Some dstNet,
      IPRaw = dstIP, IPCidrRaw = dstSegment,
      Selector = Some (if snd dstPrefix = 32 \<and> fst dstPrefix = be_u32 dstAddr then dstNet
                       else addressIPNet dstAddr),
      RowNumber = rowNumber, IPColName = ''dst_ip'', IPCidrCol = ''dst_network_segment'',
      IsRich = True, IsValid = True, ValidationCode = [], ValidationError = None,
      SrcIP = srcIP, SrcNetworkSegment = prefix_string srcPrefix, DstIP = dstIP,
      DstNetworkSegment = dstSegment, ServiceLabel = get ''service_label'', Protocol = ''tcp'',
      Port = port, Decision = decision, PolicyID = get ''matched_policy_id'',
      Reason = get ''reason'',
      ExecutionKey = dstIP @ '':'' @ itoa port @ ''/tcp'',
      RichInputIdentifier = ''row:'' @ itoa rowNumber\<rparr>)"

definition parseRichRow ::
  "string list \<Rightarrow> int \<Rightarrow> (string \<rightharpoonup> nat) \<Rightarrow> row_error + CIDRRecord" where
  "parseRichRow row rowNumber idx =
    (let get = rich_get row idx in
     case first_missing row idx of Some f \<Rightarrow> Inl (MissingField f)
     | None \<Rightarrow>
       try_bind (rich_addr (get ''src_ip'') BadSrcIP SrcIPNotIPv4) (\<lambda>srcAddr.
       try_bind (rich_addr (get ''dst_ip'') BadDstIP DstIPNotIPv4) (\<lambda>dstAddr.
       try_bind (rich_segment (get ''src_network_segment'') BadSrcSegment SrcSegmentNotIPv4) (\<lambda>srcPrefix.
       try_bind (rich_segment (get ''dst_network_segment'') BadDstSegment DstSegmentNotIPv4) (\<lambda>dstPrefix.
       if \<not> prefix_contains srcPrefix srcAddr then Inl SrcOutsideSegment
       else if \<not> prefix_contains dstPrefix dstAddr then Inl DstOutsideSegment
       else if \<not> equal_fold (get ''protocol'') ''tcp'' then Inl (BadProtocol (get ''protocol''))
       else
       try_bind (rich_decision (get ''decision'')) (\<lambda>decision.
       try_bind (rich_port (get ''port'')) (\<lambda>port.
       Inr (rich_record get rowNumber srcAddr dstAddr (the srcPrefix) (the dstPrefix)
              decision port))))))))"

definition validation_code :: "row_error \<Rightarrow> string" where
  "validation_code e = (case e of
     MissingField _ \<Rightarrow> ''missing_field''
   | BadSrcIP _ \<Rightarrow> ''invalid_src_ip'' | SrcIPNotIPv4 _ \<Rightarrow> ''invalid_src_ip''
   | BadDstIP _ \<Rightarrow> ''invalid_dst_ip'' | DstIPNotIPv4 _ \<Rightarrow> ''invalid_dst_ip''
   | BadSrcSegment _ \<Rightarrow> ''invalid_src_network_segment''
   | SrcSegmentNotIPv4 _ \<Rightarrow> ''invalid_src_network_segment''
   | BadDstSegment _ \<Rightarrow> ''invalid_dst_network_segment''
   | DstSegmentNotIPv4 _ \<Rightarrow> ''invalid_dst_network_segment''
   | SrcOutsideSegment \<Rightarrow> ''src_containment_mismatch''
   | DstOutsideSegment \<Rightarrow> ''dst_containment_mismatch''
   | BadProtocol _ \<Rightarrow> ''invalid_protocol'' | BadDecision _ \<Rightarrow> ''invalid_decision''
   | BadPort _ \<Rightarrow> ''invalid_port'' | _ \<Rightarrow> [])"

section \<open>The string pool\<close>

text \<open>
  \<open>internOwned\<close> and \<open>internBorrowed\<close> return a string equal to their argument (they share or
  clone its bytes), so \<open>rich_record\<close> stores the values themselves; \<open>rich_intern_value\<close> is the
  fact that justifies it.
\<close>

record richStringPool =
  rich_values :: "string \<rightharpoonup> string"
  rich_len :: nat

definition newRichStringPool :: richStringPool where
  "newRichStringPool = \<lparr>rich_values = Map.empty, rich_len = 0\<rparr>"

definition rich_intern :: "richStringPool \<Rightarrow> string \<Rightarrow> string \<times> richStringPool" where
  "rich_intern pool v = (case rich_values pool v of Some s \<Rightarrow> (s, pool)
     | None \<Rightarrow> (v, if rich_len pool < 4096
         then \<lparr>rich_values = (rich_values pool)(v \<mapsto> v), rich_len = Suc (rich_len pool)\<rparr>
         else pool))"

definition rich_pool_ok :: "richStringPool \<Rightarrow> bool" where
  "rich_pool_ok pool \<longleftrightarrow> (\<forall>s t. rich_values pool s = Some t \<longrightarrow> t = s) \<and>
     finite (dom (rich_values pool)) \<and> card (dom (rich_values pool)) = rich_len pool \<and>
     rich_len pool \<le> 4096"

lemma rich_pool_ok_new: "rich_pool_ok newRichStringPool"
  by (simp add: rich_pool_ok_def newRichStringPool_def)

lemma rich_intern_value:
  assumes "rich_pool_ok pool"
  shows "fst (rich_intern pool v) = v \<and> rich_pool_ok (snd (rich_intern pool v))"
  using assms
  by (auto simp: rich_intern_def rich_pool_ok_def dom_def [symmetric] domIff split: option.splits)

section \<open>The loop over the rows\<close>

definition invalid_rich :: "int \<Rightarrow> row_error \<Rightarrow> CIDRRecord" where
  "invalid_rich rowNumber e = zero_record\<lparr>RowNumber := rowNumber, IsRich := True, IsValid := False,
     ValidationCode := validation_code e, ValidationError := Some e\<rparr>"

definition rich_row_record :: "string list \<Rightarrow> int \<Rightarrow> (string \<rightharpoonup> nat) \<Rightarrow> CIDRRecord" where
  "rich_row_record row rowNumber idx = (case parseRichRow row rowNumber idx of
     Inl e \<Rightarrow> invalid_rich rowNumber e | Inr r \<Rightarrow> r)"

record RichParseSummary =
  TotalRows :: int
  ValidRows :: nat
  InvalidRows :: nat
  FailureByReason :: "string \<Rightarrow> nat"  \<comment> \<open>a missing key reads as 0\<close>

datatype rich_error = NoUsableRows | RichCanceled

primrec rich_rows_loop :: "ctx \<Rightarrow> string list list \<Rightarrow> int \<Rightarrow> (string \<rightharpoonup> nat) \<Rightarrow>
    CIDRRecord list \<Rightarrow> RichParseSummary \<Rightarrow> CIDRRecord list \<times> RichParseSummary \<times> bool" where
  \<comment> \<open>the last component: the context was canceled\<close>
  "rich_rows_loop c [] i idx out sm = (out, sm, False)"
| "rich_rows_loop c (row # rows) i idx out sm = (case ctx_poll 1 c of
     None \<Rightarrow> (out, sm, True)
   | Some c' \<Rightarrow> (case parseRichRow row (i + 1) idx of
       Inl e \<Rightarrow> rich_rows_loop c' rows (i + 1) idx (out @ [invalid_rich (i + 1) e])
          (sm\<lparr>InvalidRows := Suc (InvalidRows sm),
              FailureByReason := (FailureByReason sm)(validation_code e :=
                Suc (FailureByReason sm (validation_code e)))\<rparr>)
     | Inr r \<Rightarrow> rich_rows_loop c' rows (i + 1) idx (out @ [r]) (sm\<lparr>ValidRows := Suc (ValidRows sm)\<rparr>)))"

definition ParseRichRowsContext :: "ctx \<Rightarrow> string list list \<Rightarrow> (string \<rightharpoonup> nat) \<Rightarrow>
    CIDRRecord list \<times> RichParseSummary \<times> rich_error option" where
  "ParseRichRowsContext c rows idx =
    (case rich_rows_loop c (drop 1 rows) 1 idx [] \<lparr>TotalRows = max 0 (int (length rows) - 1),
        ValidRows = 0, InvalidRows = 0, FailureByReason = (\<lambda>_. 0)\<rparr> of
     (out, sm, canceled) \<Rightarrow>
       (out, sm, if canceled then Some RichCanceled
          else if ValidRows sm = 0 then Some NoUsableRows else None))"

end
