(* ===== verification/InputValidate.thy ===== *)
theory InputValidate
  imports RichRecords
begin

text \<open>
  \<open>pkg/input/validate.go\<close>: the fail-fast checks over all rows. The duplicate search uses an
  open-addressing hash table for basic rows (a map when there are more than 2^32 - 1 of them) and
  a map for rich rows; both are used through the contract \<open>dup_table\<close>.

  Row numbers are 1-based. \<open>RowPanic\<close> stands for the index panic of \<open>binary.BigEndian.Uint32\<close>
  on a nil \<open>To4\<close>; the loaders never produce such a row.
\<close>

datatype validate_error =
    ValidateCanceled | RowNotParsed nat | TableTooLarge | DuplicateRows nat nat
  | SelectorOutside nat | RowPanic nat

section \<open>Keys\<close>

record basicDuplicateKey =
  bk_boundary :: "32 word"
  bk_selector :: "32 word"
  bk_port :: "16 word"
  bk_prefix :: "8 word"
  bk_selectorPrefix :: "8 word"

definition basicDuplicateRowKey :: "CIDRRecord \<Rightarrow> basicDuplicateKey option" where
  "basicDuplicateRowKey row =
    (case (Net row, Selector row) of
       (Some n, Some s) \<Rightarrow> (case (to4 (net_ip n), to4 (net_ip s)) of
           (Some b, Some v) \<Rightarrow>
             Some \<lparr>bk_boundary = be_u32 b, bk_selector = be_u32 v, bk_port = of_int (Port row),
                   bk_prefix = of_nat (fst (mask_size (net_mask n))),
                   bk_selectorPrefix = of_nat (fst (mask_size (net_mask s)))\<rparr>
         | _ \<Rightarrow> None)
     | _ \<Rightarrow> None)"

record richDuplicateKey =
  rk_boundary :: "32 word"
  rk_src :: string
  rk_dst :: string
  rk_port :: int
  rk_prefix :: "8 word"

definition duplicateTupleSrcDst :: "CIDRRecord \<Rightarrow> string \<times> string" where
  "duplicateTupleSrcDst row =
    (let pick = (\<lambda>s. if s = [] then (case Selector row of None \<Rightarrow> s | Some n \<Rightarrow> ipnet_string n) else s)
     in (pick (SrcIP row), pick (DstIP row)))"

definition richDuplicateRowKey :: "CIDRRecord \<Rightarrow> richDuplicateKey option" where
  "richDuplicateRowKey row = (case Net row of None \<Rightarrow> None
    | Some n \<Rightarrow> (case to4 (net_ip n) of None \<Rightarrow> None
        | Some b \<Rightarrow> Some \<lparr>rk_boundary = be_u32 b, rk_src = fst (duplicateTupleSrcDst row),
             rk_dst = snd (duplicateTupleSrcDst row), rk_port = Port row,
             rk_prefix = of_nat (fst (mask_size (net_mask n)))\<rparr>))"

definition basicDuplicateHash :: "basicDuplicateKey \<Rightarrow> 32 word" where
  "basicDuplicateHash key =
    (let v0 = push_bit 32 (ucast (bk_boundary key) :: 64 word) OR ucast (bk_selector key);
         v1 = v0 XOR (push_bit 16 (ucast (bk_port key)) OR push_bit 8 (ucast (bk_prefix key))
                OR ucast (bk_selectorPrefix key));
         v2 = v1 XOR drop_bit 33 v1;
         v3 = v2 * 0xff51afd7ed558ccd;
         v4 = v3 XOR drop_bit 33 v3
     in ucast (v4 XOR drop_bit 32 v4))"

section \<open>The table\<close>

record basicDuplicateSlot =
  slot_hash :: "32 word"
  slot_row :: "32 word"

record basicDuplicateTable =
  tb_slots :: "basicDuplicateSlot list"
  tb_fallback :: "(basicDuplicateKey \<rightharpoonup> nat) option"
  tb_mask :: "64 word"

text \<open>The doubling loop, on the exponent of the capacity; 2^62 is half of the largest \<open>int\<close>.\<close>

function table_exponent :: "nat \<Rightarrow> nat \<Rightarrow> nat option" where
  "table_exponent need e =
    (if 2 ^ e < need then (if (2::nat) ^ 63 - 1 < 2 ^ e * 2 then None else table_exponent need (Suc e))
     else Some e)"
  by pat_completeness auto
termination
proof (relation "measure (\<lambda>(need, e). need - e)")
  fix need e :: nat
  assume "2 ^ e < need"
  with less_exp [of e] have "e < need" by (rule less_trans)
  then show "((need, Suc e), need, e) \<in> measure (\<lambda>(need, e). need - e)" by simp
qed simp

declare table_exponent.simps [simp del]

definition newBasicDuplicateTable :: "nat \<Rightarrow> validate_error + basicDuplicateTable" where
  "newBasicDuplicateTable n =
    (if n = 0 then Inr \<lparr>tb_slots = [], tb_fallback = None, tb_mask = 0\<rparr>
     else if 2 ^ 32 - 1 < n then Inr \<lparr>tb_slots = [], tb_fallback = Some Map.empty, tb_mask = 0\<rparr>
     else (case table_exponent (n + n div 4) 0 of
         None \<Rightarrow> Inl TableTooLarge
       | Some e \<Rightarrow> Inr \<lparr>tb_slots = replicate (2 ^ e) \<lparr>slot_hash = 0, slot_row = 0\<rparr>,
           tb_fallback = None, tb_mask = 2 ^ e - 1\<rparr>))"

text \<open>
  The probe loop changes nothing before it returns, so it either returns within one lap over the
  table or never; the fuel is the number of slots, and \<open>None\<close> means that it never returns.
\<close>

primrec table_probe :: "nat \<Rightarrow> basicDuplicateSlot list \<Rightarrow> 64 word \<Rightarrow> CIDRRecord list \<Rightarrow>
    basicDuplicateKey \<Rightarrow> nat \<Rightarrow> 64 word \<Rightarrow> (basicDuplicateSlot list \<times> nat option) option" where
  "table_probe 0 slots m rows key row index = None"
| "table_probe (Suc n) slots m rows key row index =
    (let slot = slots ! unat index in
     if slot_row slot = 0
     then Some (slots[unat index := \<lparr>slot_hash = basicDuplicateHash key, slot_row = of_nat row\<rparr>], None)
     else if slot_hash slot = basicDuplicateHash key \<and>
        basicDuplicateRowKey (rows ! (unat (slot_row slot) - 1)) = Some key
     then Some (slots, Some (unat (slot_row slot)))
     else table_probe n slots m rows key row ((index + 1) AND m))"

definition table_add :: "CIDRRecord list \<Rightarrow> basicDuplicateTable \<Rightarrow> basicDuplicateKey \<Rightarrow> nat \<Rightarrow>
    (basicDuplicateTable \<times> nat option) option" where
  "table_add rows t key row =
    (case tb_fallback t of
       Some m \<Rightarrow> Some (t\<lparr>tb_fallback := Some (m(key \<mapsto> row))\<rparr>, m key)
     | None \<Rightarrow> (case table_probe (length (tb_slots t)) (tb_slots t) (tb_mask t) rows key row
           (ucast (basicDuplicateHash key) AND tb_mask t) of
         None \<Rightarrow> None
       | Some (slots, prev) \<Rightarrow> Some (t\<lparr>tb_slots := slots\<rparr>, prev)))"

definition rich_add :: "CIDRRecord list \<Rightarrow> (richDuplicateKey \<rightharpoonup> nat) \<Rightarrow> richDuplicateKey \<Rightarrow> nat \<Rightarrow>
    ((richDuplicateKey \<rightharpoonup> nat) \<times> nat option) option" where
  "rich_add rows m key row = (case m key of
     Some prev \<Rightarrow> Some (m, Some prev) | None \<Rightarrow> Some (m(key \<mapsto> row), None))"

section \<open>networkContains\<close>

definition networkContains :: "ipnet option \<Rightarrow> ipnet option \<Rightarrow> bool" where
  "networkContains outer inner =
    (case (outer, inner) of
       (Some o', Some i') \<Rightarrow>
         (case to4 (net_ip o') of
            Some outerStart \<Rightarrow>
              (case (to4 (net_ip i'), mask_size (net_mask o'), mask_size (net_mask i')) of
                 (Some innerStart, (outerPrefix, outerBits), (innerPrefix, innerBits)) \<Rightarrow>
                   if outerBits \<noteq> 32 \<or> innerBits \<noteq> 32 \<or> innerPrefix < outerPrefix then False
                   else (let m = be_u32 (net_mask o') in
                         be_u32 innerStart AND m = be_u32 outerStart AND m)
               | _ \<Rightarrow> False)
          | None \<Rightarrow> (case IPRange (Some i') of None \<Rightarrow> False
              | Some (s, e) \<Rightarrow> ipnet_contains o' s \<and> ipnet_contains o' e))
     | _ \<Rightarrow> False)"

section \<open>ValidateIPRowsContext\<close>

definition is_basic_row :: "CIDRRecord \<Rightarrow> bool" where
  "is_basic_row row \<longleftrightarrow> SrcIP row = [] \<and> DstIP row = []"

primrec count_rows :: "ctx \<Rightarrow> CIDRRecord list \<Rightarrow> nat \<Rightarrow> nat \<Rightarrow> validate_error + ctx \<times> nat" where
  \<comment> \<open>\<open>i\<close> is the number of the row, \<open>b\<close> the basic rows so far\<close>
  "count_rows c [] i b = Inr (c, b)"
| "count_rows c (r # rs) i b = (case ctx_poll 1 c of None \<Rightarrow> Inl ValidateCanceled
     | Some c' \<Rightarrow> if Net r = None \<or> Selector r = None then Inl (RowNotParsed i)
         else count_rows c' rs (Suc i) (if is_basic_row r then Suc b else b))"

primrec dup_scan :: "ctx \<Rightarrow> CIDRRecord list \<Rightarrow> basicDuplicateTable \<Rightarrow> (richDuplicateKey \<rightharpoonup> nat) \<Rightarrow>
    CIDRRecord list \<Rightarrow> nat \<Rightarrow> (validate_error + ctx) option" where
  \<comment> \<open>\<open>None\<close>: a probe never returns\<close>
  "dup_scan c all tb m [] i = Some (Inr c)"
| "dup_scan c all tb m (r # rs) i =
    (case ctx_poll 1 c of None \<Rightarrow> Some (Inl ValidateCanceled)
     | Some c' \<Rightarrow>
       if is_basic_row r then
         (case basicDuplicateRowKey r of None \<Rightarrow> Some (Inl (RowPanic i))
          | Some key \<Rightarrow> (case table_add all tb key i of None \<Rightarrow> None
              | Some (tb', Some prev) \<Rightarrow> Some (Inl (DuplicateRows prev i))
              | Some (tb', None) \<Rightarrow> dup_scan c' all tb' m rs (Suc i)))
       else
         (case richDuplicateRowKey r of None \<Rightarrow> Some (Inl (RowPanic i))
          | Some key \<Rightarrow> (case rich_add all m key i of None \<Rightarrow> None
              | Some (m', Some prev) \<Rightarrow> Some (Inl (DuplicateRows prev i))
              | Some (m', None) \<Rightarrow> dup_scan c' all tb m' rs (Suc i))))"

primrec contain_rows :: "ctx \<Rightarrow> CIDRRecord list \<Rightarrow> nat \<Rightarrow> validate_error + ctx" where
  "contain_rows c [] i = Inr c"
| "contain_rows c (r # rs) i = (case ctx_poll 1 c of None \<Rightarrow> Inl ValidateCanceled
     | Some c' \<Rightarrow> if networkContains (Net r) (Selector r) then contain_rows c' rs (Suc i)
         else Inl (SelectorOutside i))"

definition ValidateIPRowsContext :: "ctx \<Rightarrow> CIDRRecord list \<Rightarrow> (validate_error + ctx) option" where
  "ValidateIPRowsContext c rows =
    (case count_rows c rows 1 0 of Inl e \<Rightarrow> Some (Inl e)
     | Inr (c1, basicCount) \<Rightarrow>
       (case newBasicDuplicateTable basicCount of Inl e \<Rightarrow> Some (Inl e)
        | Inr seenBasic \<Rightarrow>
          (case dup_scan c1 rows seenBasic Map.empty rows 1 of
             None \<Rightarrow> None
           | Some (Inl e) \<Rightarrow> Some (Inl e)
           | Some (Inr c2) \<Rightarrow> Some (contain_rows c2 rows 1))))"

section \<open>The probe sequence\<close>

definition slot_stops :: "CIDRRecord list \<Rightarrow> basicDuplicateKey \<Rightarrow> basicDuplicateSlot \<Rightarrow> bool" where
  "slot_stops rows key slot \<longleftrightarrow> slot_row slot = 0 \<or> (slot_hash slot = basicDuplicateHash key \<and>
     basicDuplicateRowKey (rows ! (unat (slot_row slot) - 1)) = Some key)"

lemma and_mask_of_nat: "e < 64 \<Longrightarrow> (of_nat x :: 64 word) AND (2 ^ e - 1) = of_nat (x mod 2 ^ e)"
  unfolding mask_eq_exp_minus_1 [symmetric] take_bit_eq_mask [symmetric] take_bit_eq_mod [symmetric]
  by (rule bit_word_eqI) (auto simp: bit_simps)

lemma unat_of_nat_64: "x < 2 ^ 64 \<Longrightarrow> unat (of_nat x :: 64 word) = x"
  by (simp add: unsigned_of_nat take_bit_nat_eq_self)

text \<open>The loop stops at the first slot of its sequence where \<open>slot_stops\<close> holds.\<close>

lemma probe_stops_at:
  assumes "length slots = 2 ^ e" and "e < 64" and "x < 2 ^ e"
    and "slot_stops rows key (slots ! ((x + f) mod 2 ^ e))"
    and "\<And>k. k < f \<Longrightarrow> \<not> slot_stops rows key (slots ! ((x + k) mod 2 ^ e))" and "f < n"
  shows "table_probe n slots (2 ^ e - 1) rows key row (of_nat x) =
    (let q = (x + f) mod 2 ^ e in Some (if slot_row (slots ! q) = 0
       then (slots[q := \<lparr>slot_hash = basicDuplicateHash key, slot_row = of_nat row\<rparr>], None)
       else (slots, Some (unat (slot_row (slots ! q))))))"
  using assms
proof (induction f arbitrary: n x)
  case 0
  have "x < 2 ^ 64"
    using 0(2,3) by (meson less_imp_le_nat less_le_trans one_le_numeral power_increasing)
  then show ?case
    using 0 by (cases n) (auto simp: slot_stops_def unat_of_nat_64 Let_def)
next
  case (Suc f)
  then obtain m where n: "n = Suc m" "f < m" by (cases n) auto
  have x64: "x < 2 ^ 64"
    using Suc.prems(2,3) by (meson less_imp_le_nat less_le_trans one_le_numeral power_increasing)
  have start: "\<not> slot_stops rows key (slots ! x)" using Suc.prems(5) [of 0] Suc.prems(3) by simp
  define y where "y = (x + 1) mod 2 ^ e"
  have y: "y < 2 ^ e" by (simp add: y_def)
  have shift: "(y + k) mod 2 ^ e = (x + Suc k) mod 2 ^ e" for k
    by (simp add: y_def mod_add_left_eq)
  have "(of_nat x + 1 :: 64 word) AND (2 ^ e - 1) = of_nat y"
    using and_mask_of_nat [OF Suc.prems(2), of "x + 1"] by (simp add: y_def add.commute)
  then have "table_probe n slots (2 ^ e - 1) rows key row (of_nat x) =
      table_probe m slots (2 ^ e - 1) rows key row (of_nat y)"
    using start by (auto simp: n slot_stops_def unat_of_nat_64 [OF x64] Let_def)
  also have "\<dots> = (let q = (y + f) mod 2 ^ e in Some (if slot_row (slots ! q) = 0
       then (slots[q := \<lparr>slot_hash = basicDuplicateHash key, slot_row = of_nat row\<rparr>], None)
       else (slots, Some (unat (slot_row (slots ! q))))))"
  proof (rule Suc.IH [OF Suc.prems(1,2) y])
    show "slot_stops rows key (slots ! ((y + f) mod 2 ^ e))"
      using Suc.prems(4) by (simp only: shift add_Suc_right)
    show "\<not> slot_stops rows key (slots ! ((y + k) mod 2 ^ e))" if "k < f" for k
      using Suc.prems(5) [of "Suc k"] that by (simp add: shift del: add_Suc_right)
  qed (rule n(2))
  finally show ?case by (simp only: shift)
qed

section \<open>The contract of a duplicate table\<close>

text \<open>
  \<open>holds rows t S\<close>: the table \<open>t\<close> has been given exactly the rows numbered in \<open>S\<close>, which have
  pairwise different keys. \<open>room t n\<close>: one more row fits beside \<open>n\<close>. Adding a row with a new key
  returns and stores it; adding a row whose key is there returns the number of a row with that key.
\<close>

locale dup_table =
  fixes key :: "'r \<Rightarrow> 'k option"
    and add :: "'r list \<Rightarrow> 't \<Rightarrow> 'k \<Rightarrow> nat \<Rightarrow> ('t \<times> nat option) option"
    and holds :: "'r list \<Rightarrow> 't \<Rightarrow> nat set \<Rightarrow> bool"
    and room :: "'t \<Rightarrow> nat \<Rightarrow> bool"
  assumes add_new: "holds rows t S \<Longrightarrow> room t (card S) \<Longrightarrow> i \<notin> S \<Longrightarrow> 0 < i \<Longrightarrow> i \<le> length rows \<Longrightarrow>
      length rows < 2 ^ 32 \<Longrightarrow> key (rows ! (i - 1)) = Some k \<Longrightarrow>
      \<forall>j \<in> S. key (rows ! (j - 1)) \<noteq> Some k \<Longrightarrow>
      \<exists>t'. add rows t k i = Some (t', None) \<and> holds rows t' (insert i S) \<and> room t' = room t"
    and add_old: "holds rows t S \<Longrightarrow> room t (card S) \<Longrightarrow> j \<in> S \<Longrightarrow>
      key (rows ! (j - 1)) = Some k \<Longrightarrow>
      \<exists>t' p. add rows t k i = Some (t', Some p) \<and> p \<in> S \<and> key (rows ! (p - 1)) = Some k"
begin

lemma add_returns:
  assumes "holds rows t S" "room t (card S)" "i \<notin> S" "0 < i" "i \<le> length rows"
    "length rows < 2 ^ 32" "key (rows ! (i - 1)) = Some k"
  obtains (new) t' where "add rows t k i = Some (t', None)" "holds rows t' (insert i S)"
      "room t' = room t" "\<forall>j \<in> S. key (rows ! (j - 1)) \<noteq> Some k"
    | (old) t' p where "add rows t k i = Some (t', Some p)" "p \<in> S"
      "key (rows ! (p - 1)) = Some k"
proof (cases "\<forall>j \<in> S. key (rows ! (j - 1)) \<noteq> Some k")
  case True
  then show thesis using add_new [OF assms True] new by blast
next
  case False
  then obtain j where "j \<in> S" "key (rows ! (j - 1)) = Some k" by blast
  then show thesis using add_old [OF assms(1,2)] old by blast
qed

end

section \<open>Both tables keep the contract\<close>

definition map_holds :: "('r \<Rightarrow> 'k option) \<Rightarrow> 'r list \<Rightarrow> ('k \<rightharpoonup> nat) \<Rightarrow> nat set \<Rightarrow> bool" where
  "map_holds key rows m S \<longleftrightarrow> (\<forall>k i. m k = Some i \<longrightarrow> i \<in> S \<and> key (rows ! (i - 1)) = Some k) \<and>
     (\<forall>i \<in> S. \<exists>k. key (rows ! (i - 1)) = Some k \<and> m k = Some i)"

lemma map_holds_empty [simp]: "map_holds key rows Map.empty {}"
  by (simp add: map_holds_def)

lemma map_holds_new: "map_holds key rows m S \<Longrightarrow> \<forall>j \<in> S. key (rows ! (j - 1)) \<noteq> Some k \<Longrightarrow> m k = None"
  unfolding map_holds_def by (metis not_None_eq)

lemma map_holds_old: "map_holds key rows m S \<Longrightarrow> j \<in> S \<Longrightarrow> key (rows ! (j - 1)) = Some k \<Longrightarrow> m k = Some j"
  unfolding map_holds_def by (metis option.inject)

lemma map_holds_insert:
  assumes "map_holds key rows m S" "key (rows ! (i - 1)) = Some k"
    "\<forall>j \<in> S. key (rows ! (j - 1)) \<noteq> Some k"
  shows "map_holds key rows (m(k \<mapsto> i)) (insert i S)"
  unfolding map_holds_def
proof (intro conjI allI impI ballI)
  fix j
  assume "j \<in> insert i S"
  show "\<exists>k'. key (rows ! (j - 1)) = Some k' \<and> (m(k \<mapsto> i)) k' = Some j"
  proof (cases "j = i")
    case True
    then show ?thesis using assms(2) by auto
  next
    case False
    with \<open>j \<in> insert i S\<close> have "j \<in> S" by simp
    with assms(1) obtain k' where "key (rows ! (j - 1)) = Some k'" "m k' = Some j"
      unfolding map_holds_def by blast
    moreover have "k' \<noteq> k" using assms(3) \<open>j \<in> S\<close> calculation(1) by auto
    ultimately show ?thesis by auto
  qed
qed (use assms(1,2) in \<open>auto simp: map_holds_def split: if_splits\<close>)

interpretation rich_dup: dup_table richDuplicateRowKey rich_add "map_holds richDuplicateRowKey"
  "\<lambda>m n. True"
proof (unfold_locales, goal_cases)
  case (1 rows t S i k)
  then show ?case by (simp add: rich_add_def map_holds_new map_holds_insert)
next
  case (2 rows t S j k i)
  then show ?case by (simp add: rich_add_def map_holds_old)
qed

definition slots_hold :: "CIDRRecord list \<Rightarrow> basicDuplicateSlot list \<Rightarrow> nat \<Rightarrow> nat set \<Rightarrow> bool" where
  \<comment> \<open>every row of \<open>S\<close> is in a slot, and no free slot comes before it in its probe sequence\<close>
  "slots_hold rows slots e S \<longleftrightarrow> length slots = 2 ^ e \<and> e < 64 \<and> finite S \<and>
     card {p. p < 2 ^ e \<and> slot_row (slots ! p) \<noteq> 0} = card S \<and>
     (\<forall>p < 2 ^ e. slot_row (slots ! p) \<noteq> 0 \<longrightarrow> unat (slot_row (slots ! p)) \<in> S) \<and>
     (\<forall>i \<in> S. \<exists>k d. basicDuplicateRowKey (rows ! (i - 1)) = Some k \<and>
        (let p = (\<lambda>d. slots ! ((unat (basicDuplicateHash k) + d) mod 2 ^ e)) in
         slot_row (p d) \<noteq> 0 \<and> unat (slot_row (p d)) = i \<and> slot_hash (p d) = basicDuplicateHash k \<and>
         (\<forall>d' < d. slot_row (p d') \<noteq> 0)))"

definition basic_holds :: "CIDRRecord list \<Rightarrow> basicDuplicateTable \<Rightarrow> nat set \<Rightarrow> bool" where
  "basic_holds rows t S \<longleftrightarrow> (case tb_fallback t of
     Some m \<Rightarrow> map_holds basicDuplicateRowKey rows m S
   | None \<Rightarrow> S = {} \<and> tb_slots t = [] \<or>
       (\<exists>e. slots_hold rows (tb_slots t) e S \<and> tb_mask t = 2 ^ e - 1))"

definition basic_room :: "basicDuplicateTable \<Rightarrow> nat \<Rightarrow> bool" where
  "basic_room t n \<longleftrightarrow> tb_fallback t \<noteq> None \<or> n < length (tb_slots t)"

text \<open>With a free slot the sequence of a key reaches a stopping slot within one lap.\<close>

lemma slots_first_stop:
  assumes "slots_hold rows slots e S" and "card S < 2 ^ e"
  obtains f where "f < 2 ^ e"
    "slot_stops rows k (slots ! ((s + f) mod 2 ^ e))"
    "\<And>d. d < f \<Longrightarrow> \<not> slot_stops rows k (slots ! ((s + d) mod 2 ^ e))"
proof -
  have card: "card {p. p < 2 ^ e \<and> slot_row (slots ! p) \<noteq> 0} = card S"
    using assms(1) by (simp add: slots_hold_def)
  have "{p. p < 2 ^ e \<and> slot_row (slots ! p) \<noteq> 0} \<noteq> {..<2 ^ e}"
  proof
    assume "{p. p < 2 ^ e \<and> slot_row (slots ! p) \<noteq> 0} = {..<2 ^ e}"
    then have "card S = card {..<(2::nat) ^ e}" using card by (simp only:)
    then show False using assms(2) by (simp only: card_lessThan)
  qed
  then obtain p where p: "p < 2 ^ e" "slot_row (slots ! p) = 0" by auto
  define d where "d = (p + 2 ^ e - s mod 2 ^ e) mod 2 ^ e"
  have "(s + d) mod 2 ^ e = (s mod 2 ^ e + (p + 2 ^ e - s mod 2 ^ e)) mod 2 ^ e"
    by (simp only: d_def mod_add_left_eq mod_add_right_eq)
  also have "s mod 2 ^ e + (p + 2 ^ e - s mod 2 ^ e) = p + 2 ^ e"
  proof -
    have "s mod 2 ^ e < 2 ^ e" by simp
    then show ?thesis by linarith
  qed
  finally have "(s + d) mod 2 ^ e = p" using p(1) by simp
  then have stop: "slot_stops rows k (slots ! ((s + d) mod 2 ^ e))"
    using p(2) by (simp add: slot_stops_def)
  let ?f = "LEAST d. slot_stops rows k (slots ! ((s + d) mod 2 ^ e))"
  show thesis
  proof (rule that)
    show "slot_stops rows k (slots ! ((s + ?f) mod 2 ^ e))" using stop by (rule LeastI)
    show "\<not> slot_stops rows k (slots ! ((s + d) mod 2 ^ e))" if "d < ?f" for d
      using that by (rule not_less_Least)
    have "?f \<le> d" using stop by (rule Least_le)
    also have "d < 2 ^ e" by (simp add: d_def)
    finally show "?f < 2 ^ e" .
  qed
qed

lemma slots_probe:
  assumes "slots_hold rows slots e S" and "card S < 2 ^ e"
  obtains f where "f < 2 ^ e"
    "slot_stops rows k (slots ! ((unat (basicDuplicateHash k) + f) mod 2 ^ e))"
    "\<And>d. d < f \<Longrightarrow> \<not> slot_stops rows k (slots ! ((unat (basicDuplicateHash k) + d) mod 2 ^ e))"
    "table_probe (length slots) slots (2 ^ e - 1) rows k row
       (ucast (basicDuplicateHash k) AND (2 ^ e - 1)) =
     (let q = (unat (basicDuplicateHash k) + f) mod 2 ^ e in Some (if slot_row (slots ! q) = 0
       then (slots[q := \<lparr>slot_hash = basicDuplicateHash k, slot_row = of_nat row\<rparr>], None)
       else (slots, Some (unat (slot_row (slots ! q))))))"
proof -
  let ?s = "unat (basicDuplicateHash k)"
  from assms obtain f where f: "f < 2 ^ e" "slot_stops rows k (slots ! ((?s + f) mod 2 ^ e))"
    "\<And>d. d < f \<Longrightarrow> \<not> slot_stops rows k (slots ! ((?s + d) mod 2 ^ e))"
    by (rule slots_first_stop [where s = ?s and k = k]) blast
  have e: "e < 64" "length slots = 2 ^ e" using assms(1) by (auto simp: slots_hold_def)
  have "(ucast (basicDuplicateHash k) :: 64 word) AND (2 ^ e - 1) = of_nat (?s mod 2 ^ e)"
    using and_mask_of_nat [OF e(1), of ?s] by (simp add: unsigned_of_nat)
  moreover have "table_probe (length slots) slots (2 ^ e - 1) rows k row (of_nat (?s mod 2 ^ e)) =
     (let q = (?s mod 2 ^ e + f) mod 2 ^ e in Some (if slot_row (slots ! q) = 0
       then (slots[q := \<lparr>slot_hash = basicDuplicateHash k, slot_row = of_nat row\<rparr>], None)
       else (slots, Some (unat (slot_row (slots ! q))))))"
    by (rule probe_stops_at [OF e(2,1)]) (use f e in \<open>simp_all add: mod_add_left_eq\<close>)
  ultimately show thesis
    using that [OF f] by (simp add: mod_add_left_eq)
qed

lemma slots_add_new:
  assumes inv: "slots_hold rows slots e S" and room: "card S < 2 ^ e"
    and i: "i \<notin> S" "0 < i" "i < 2 ^ 32"
    and key: "basicDuplicateRowKey (rows ! (i - 1)) = Some k"
    and new: "\<forall>j \<in> S. basicDuplicateRowKey (rows ! (j - 1)) \<noteq> Some k"
  shows "\<exists>slots'. table_probe (length slots) slots (2 ^ e - 1) rows k i
       (ucast (basicDuplicateHash k) AND (2 ^ e - 1)) = Some (slots', None) \<and>
     slots_hold rows slots' e (insert i S)"
proof -
  let ?p = "\<lambda>k d. (unat (basicDuplicateHash k) + d) mod 2 ^ e"
  obtain f where f: "f < 2 ^ e" "slot_stops rows k (slots ! ?p k f)"
    "\<And>d. d < f \<Longrightarrow> \<not> slot_stops rows k (slots ! ?p k d)"
    "table_probe (length slots) slots (2 ^ e - 1) rows k i
       (ucast (basicDuplicateHash k) AND (2 ^ e - 1)) =
     (let q = ?p k f in Some (if slot_row (slots ! q) = 0
       then (slots[q := \<lparr>slot_hash = basicDuplicateHash k, slot_row = of_nat i\<rparr>], None)
       else (slots, Some (unat (slot_row (slots ! q))))))"
    using slots_probe [OF inv room] by blast
  define q where "q = ?p k f"
  define slots' where "slots' = slots[q := \<lparr>slot_hash = basicDuplicateHash k, slot_row = of_nat i\<rparr>]"
  have len: "length slots = 2 ^ e" and fin: "finite S" and e64: "e < 64"
    using inv by (auto simp: slots_hold_def)
  have q: "q < 2 ^ e" by (simp add: q_def)
  have free: "slot_row (slots ! q) = 0"
  proof (rule ccontr)
    assume "slot_row (slots ! q) \<noteq> 0"
    moreover from this have "unat (slot_row (slots ! q)) \<in> S"
      using inv q by (simp add: slots_hold_def)
    ultimately show False using f(2) new by (auto simp: slot_stops_def q_def)
  qed
  have row_i: "unat (of_nat i :: 32 word) = i"
    using i(3) by (simp add: unsigned_of_nat take_bit_nat_eq_self)
  then have row_ne: "(of_nat i :: 32 word) \<noteq> 0" using i(2) by (metis unat_0 less_irrefl)
  have at_q: "slots' ! q = \<lparr>slot_hash = basicDuplicateHash k, slot_row = of_nat i\<rparr>"
    using q len by (simp add: slots'_def)
  have other: "slots' ! p = slots ! p" if "slot_row (slots ! p) \<noteq> 0" for p
    using that free by (cases "p = q") (auto simp: slots'_def)
  have occ: "slot_row (slots' ! p) \<noteq> 0 \<longleftrightarrow> p = q \<or> slot_row (slots ! p) \<noteq> 0" if "p < 2 ^ e" for p
    using that at_q row_ne q len by (cases "p = q") (auto simp: slots'_def)
  have "{p. p < 2 ^ e \<and> slot_row (slots' ! p) \<noteq> 0} =
      insert q {p. p < 2 ^ e \<and> slot_row (slots ! p) \<noteq> 0}"
    using occ q by blast
  then have card: "card {p. p < 2 ^ e \<and> slot_row (slots' ! p) \<noteq> 0} = card (insert i S)"
    using inv free i(1) fin by (simp add: slots_hold_def)
  have mem: "unat (slot_row (slots' ! p)) \<in> insert i S"
    if "p < 2 ^ e" "slot_row (slots' ! p) \<noteq> 0" for p
    using that occ [OF that(1)] at_q row_i other inv by (cases "p = q") (auto simp: slots_hold_def)
  have found: "\<exists>k d. basicDuplicateRowKey (rows ! (j - 1)) = Some k \<and>
        slot_row (slots' ! ?p k d) \<noteq> 0 \<and> unat (slot_row (slots' ! ?p k d)) = j \<and>
        slot_hash (slots' ! ?p k d) = basicDuplicateHash k \<and>
        (\<forall>d' < d. slot_row (slots' ! ?p k d') \<noteq> 0)" if "j \<in> insert i S" for j
  proof (cases "j = i")
    case True
    have "\<forall>d' < f. slot_row (slots' ! ?p k d') \<noteq> 0"
      using f(3) occ by (auto simp: slot_stops_def)
    then show ?thesis
      using True key at_q row_i row_ne by (intro exI [of _ k] exI [of _ f]) (simp add: q_def)
  next
    case False
    with that inv obtain k' d where "basicDuplicateRowKey (rows ! (j - 1)) = Some k'"
        "slot_row (slots ! ?p k' d) \<noteq> 0" "unat (slot_row (slots ! ?p k' d)) = j"
        "slot_hash (slots ! ?p k' d) = basicDuplicateHash k'"
        "\<forall>d' < d. slot_row (slots ! ?p k' d') \<noteq> 0"
      unfolding slots_hold_def Let_def by blast
    then show ?thesis
      using other occ by (intro exI [of _ k'] exI [of _ d]) simp
  qed
  have "slots_hold rows slots' e (insert i S)"
    unfolding slots_hold_def Let_def
    using card mem found e64 fin len by (simp add: slots'_def)
  moreover have "table_probe (length slots) slots (2 ^ e - 1) rows k i
       (ucast (basicDuplicateHash k) AND (2 ^ e - 1)) = Some (slots', None)"
    using f(4) free by (simp add: q_def slots'_def Let_def)
  ultimately show ?thesis by blast
qed

lemma slots_add_old:
  assumes inv: "slots_hold rows slots e S" and room: "card S < 2 ^ e"
    and j: "j \<in> S" "basicDuplicateRowKey (rows ! (j - 1)) = Some k"
  shows "\<exists>p. table_probe (length slots) slots (2 ^ e - 1) rows k i
       (ucast (basicDuplicateHash k) AND (2 ^ e - 1)) = Some (slots, Some p) \<and>
     p \<in> S \<and> basicDuplicateRowKey (rows ! (p - 1)) = Some k"
proof -
  let ?p = "\<lambda>d. (unat (basicDuplicateHash k) + d) mod 2 ^ e"
  obtain f where f: "f < 2 ^ e" "slot_stops rows k (slots ! ?p f)"
    "\<And>d. d < f \<Longrightarrow> \<not> slot_stops rows k (slots ! ?p d)"
    "table_probe (length slots) slots (2 ^ e - 1) rows k i
       (ucast (basicDuplicateHash k) AND (2 ^ e - 1)) =
     (let q = ?p f in Some (if slot_row (slots ! q) = 0
       then (slots[q := \<lparr>slot_hash = basicDuplicateHash k, slot_row = of_nat i\<rparr>], None)
       else (slots, Some (unat (slot_row (slots ! q))))))"
    using slots_probe [OF inv room] by blast
  from inv j obtain d where d: "slot_row (slots ! ?p d) \<noteq> 0" "unat (slot_row (slots ! ?p d)) = j"
      "slot_hash (slots ! ?p d) = basicDuplicateHash k" "\<forall>d' < d. slot_row (slots ! ?p d') \<noteq> 0"
    unfolding slots_hold_def Let_def by fastforce
  have "slot_stops rows k (slots ! ?p d)" using d j(2) by (simp add: slot_stops_def)
  then have "f \<le> d" using f(3) by (meson not_le_imp_less)
  then have row: "slot_row (slots ! ?p f) \<noteq> 0" using d(1,4) by (cases "f = d") auto
  moreover have "unat (slot_row (slots ! ?p f)) \<in> S"
    using inv row by (simp add: slots_hold_def)
  ultimately show ?thesis
    using f(2,4) by (auto simp: slot_stops_def Let_def)
qed

interpretation basic_dup: dup_table basicDuplicateRowKey table_add basic_holds basic_room
proof (unfold_locales, goal_cases)
  case (1 rows t S i k)
  show ?case
  proof (cases "tb_fallback t")
    case (Some m)
    then show ?thesis
      using 1 map_holds_new map_holds_insert
      by (fastforce simp: table_add_def basic_holds_def basic_room_def)
  next
    case None
    then obtain e where e: "slots_hold rows (tb_slots t) e S" "tb_mask t = 2 ^ e - 1"
      using 1(1,2) by (auto simp: basic_holds_def basic_room_def)
    moreover have "card S < 2 ^ e" using 1(2) None e(1) by (simp add: basic_room_def slots_hold_def)
    ultimately obtain slots' where s: "table_probe (length (tb_slots t)) (tb_slots t) (2 ^ e - 1) rows k i
         (ucast (basicDuplicateHash k) AND (2 ^ e - 1)) = Some (slots', None)"
        "slots_hold rows slots' e (insert i S)"
      using slots_add_new 1(3-8) by (meson le_less_trans)
    have "length slots' = length (tb_slots t)" using e(1) s(2) by (simp add: slots_hold_def)
    then show ?thesis
      using None e(2) s by (auto simp: table_add_def basic_holds_def basic_room_def)
  qed
next
  case (2 rows t S j k i)
  show ?case
  proof (cases "tb_fallback t")
    case (Some m)
    then show ?thesis
      using 2 map_holds_old [of basicDuplicateRowKey rows m S j k]
      by (simp add: table_add_def basic_holds_def)
  next
    case None
    then obtain e where e: "slots_hold rows (tb_slots t) e S" "tb_mask t = 2 ^ e - 1"
      using 2(1,2) by (auto simp: basic_holds_def basic_room_def)
    moreover have "card S < 2 ^ e" using 2(2) None e(1) by (simp add: basic_room_def slots_hold_def)
    ultimately show ?thesis
      using slots_add_old [of rows "tb_slots t" e S j k i] 2(3,4) None
      by (auto simp: table_add_def)
  qed
qed

section \<open>What the duplicate search reports\<close>

definition row_key :: "CIDRRecord \<Rightarrow> (basicDuplicateKey + richDuplicateKey) option" where
  "row_key r = (if is_basic_row r then map_option Inl (basicDuplicateRowKey r)
     else map_option Inr (richDuplicateRowKey r))"

definition scan_verdict :: "CIDRRecord list \<Rightarrow> ctx \<Rightarrow> (validate_error + ctx) option \<Rightarrow> bool" where
  "scan_verdict rows c res \<longleftrightarrow> (case res of
     Some (Inr c') \<Rightarrow> (\<forall>r \<in> set rows. row_key r \<noteq> None) \<and> distinct (map row_key rows) \<and>
        (c = None \<longrightarrow> c' = None)
   | Some (Inl (DuplicateRows p i)) \<Rightarrow> 0 < p \<and> p < i \<and> i \<le> length rows \<and>
        row_key (rows ! (p - 1)) = row_key (rows ! (i - 1)) \<and>
        distinct (map row_key (take (i - 1) rows))
   | Some (Inl (RowPanic i)) \<Rightarrow> 0 < i \<and> i \<le> length rows \<and> row_key (rows ! (i - 1)) = None
   | Some (Inl ValidateCanceled) \<Rightarrow> c \<noteq> None
   | _ \<Rightarrow> False)"

definition seen_rows :: "(CIDRRecord \<Rightarrow> bool) \<Rightarrow> CIDRRecord list \<Rightarrow> nat \<Rightarrow> nat set" where
  "seen_rows P rows n = {j \<in> {1..n}. P (rows ! (j - 1))}"

lemma seen_rows_0 [simp]: "seen_rows P rows 0 = {}"
  by (auto simp: seen_rows_def)

lemma seen_rows_Suc: "seen_rows P rows (Suc n) =
    (if P (rows ! n) then insert (Suc n) (seen_rows P rows n) else seen_rows P rows n)"
  by (auto simp: seen_rows_def le_Suc_eq)

lemma card_seen_rows: "n \<le> length rows \<Longrightarrow> card (seen_rows P rows n) = length (filter P (take n rows))"
proof (induction n)
  case (Suc n)
  have "Suc n \<notin> seen_rows P rows n" "finite (seen_rows P rows n)" by (auto simp: seen_rows_def)
  then show ?case using Suc by (simp add: seen_rows_Suc take_Suc_conv_app_nth)
qed simp

lemma filter_take_less:
  assumes "n < length rows" and "P (rows ! n)"
  shows "length (filter P (take n rows)) < length (filter P rows)"
proof -
  have "length (filter P rows) = length (filter P (take n rows)) + length (filter P (drop n rows))"
    by (metis append_take_drop_id filter_append length_append)
  moreover have "filter P (drop n rows) \<noteq> []"
    using assms by (simp add: Cons_nth_drop_Suc [symmetric])
  ultimately show ?thesis by simp
qed

lemma table_exponent_Some:
  assumes "need \<le> 2 ^ 62" and "e \<le> 62"
  shows "\<exists>e'. table_exponent need e = Some e' \<and> need \<le> 2 ^ e' \<and> e' \<le> 62"
  using assms
proof (induction need e rule: table_exponent.induct)
  case (1 need e)
  show ?case
  proof (cases "2 ^ e < need")
    case True
    then have lt: "(2::nat) ^ e < 2 ^ 62" using 1(2) by linarith
    then have "e < 62" by (rule power_less_imp_less_exp [rotated]) simp
    then have "(2::nat) ^ Suc e \<le> 2 ^ 62" by (intro power_increasing) auto
    then have "\<not> (2::nat) ^ 63 - 1 < 2 ^ e * 2" by simp
    then show ?thesis
      using True 1 \<open>e < 62\<close> by (subst table_exponent.simps) auto
  next
    case False
    then show ?thesis using 1 by (subst table_exponent.simps) auto
  qed
qed

lemma new_table_ok:
  "\<exists>t. newBasicDuplicateTable n = Inr t \<and> basic_holds rows t {} \<and> (\<forall>k < n. basic_room t k)"
proof (cases "n = 0 \<or> 2 ^ 32 - 1 < n")
  case True
  then show ?thesis by (auto simp: newBasicDuplicateTable_def basic_holds_def basic_room_def)
next
  case False
  then have "n \<le> 2 ^ 32" by simp
  moreover have "n div 4 \<le> n" by (rule div_le_dividend)
  moreover have "(2::nat) ^ 32 + 2 ^ 32 \<le> 2 ^ 62" by simp
  ultimately have "n + n div 4 \<le> 2 ^ 62" by linarith
  then obtain e where e: "table_exponent (n + n div 4) 0 = Some e" "n + n div 4 \<le> 2 ^ e" "e \<le> 62"
    using table_exponent_Some [of "n + n div 4" 0] by auto
  have "slots_hold rows (replicate (2 ^ e) \<lparr>slot_hash = 0, slot_row = 0\<rparr>) e {}"
    using e(3) by (simp add: slots_hold_def cong: conj_cong)
  then show ?thesis
    using False e by (auto simp: newBasicDuplicateTable_def basic_holds_def basic_room_def)
qed

lemma dup_scan_verdict:
  assumes "length rows < 2 ^ 32" and "n \<le> length rows"
    and "basic_holds rows tb (seen_rows is_basic_row rows n)"
    and "\<forall>k < length (filter is_basic_row rows). basic_room tb k"
    and "map_holds richDuplicateRowKey rows m (seen_rows (\<lambda>r. \<not> is_basic_row r) rows n)"
    and "\<forall>r \<in> set (take n rows). row_key r \<noteq> None" and "distinct (map row_key (take n rows))"
  shows "scan_verdict rows c (dup_scan c rows tb m (drop n rows) (Suc n))"
  using assms(2-)
proof (induction "length rows - n" arbitrary: n c tb m)
  case 0
  then show ?case by (simp add: scan_verdict_def)
next
  case (Suc k)
  then have n: "n < length rows" by simp
  let ?r = "rows ! n"
  have dr: "drop n rows = ?r # drop (Suc n) rows" using n by (simp add: Cons_nth_drop_Suc)
  have tk: "take (Suc n) rows = take n rows @ [?r]" using n by (rule take_Suc_conv_app_nth)
  show ?case
  proof (cases "ctx_poll 1 c")
    case None
    then show ?thesis by (auto simp: dr scan_verdict_def ctx_poll_def split: option.splits)
  next
    case (Some c')
    have cc: "scan_verdict rows c' res \<Longrightarrow> scan_verdict rows c res" for res
      using Some by (auto simp: scan_verdict_def ctx_poll_def split: option.splits sum.splits
          validate_error.splits if_splits)
    show ?thesis
    proof (cases "row_key ?r")
      case rk: None
      then show ?thesis
        using n Some by (auto simp: dr scan_verdict_def row_key_def)
    next
      case rk: (Some key)
      have old: "scan_verdict rows c (Some (Inl (DuplicateRows p (Suc n))))"
        if "p \<in> {1..n}" "row_key (rows ! (p - 1)) = row_key ?r" for p
        using that n Suc.prems(6) by (simp add: scan_verdict_def)
      have new: "distinct (map row_key (take (Suc n) rows))"
        if "\<forall>j \<in> {1..n}. row_key (rows ! (j - 1)) \<noteq> row_key ?r"
      proof -
        have "row_key ?r \<notin> set (map row_key (take n rows))"
        proof
          assume "row_key ?r \<in> set (map row_key (take n rows))"
          then obtain j where "j < n" "row_key ?r = row_key (rows ! j)"
            using n by (auto simp: in_set_conv_nth)
          with that [THEN bspec, of "Suc j"] show False by simp
        qed
        then show ?thesis using Suc.prems(6) by (simp add: tk)
      qed
      have some: "\<forall>r \<in> set (take (Suc n) rows). row_key r \<noteq> None"
        using Suc.prems(5) rk by (auto simp: tk)
      show ?thesis
      proof (cases "is_basic_row ?r")
        case b: True
        with rk obtain bk where bk: "basicDuplicateRowKey ?r = Some bk" by (auto simp: row_key_def)
        have room: "basic_room tb (card (seen_rows is_basic_row rows n))"
          using Suc.prems(3) n b by (simp add: card_seen_rows filter_take_less)
        show ?thesis
        proof (rule basic_dup.add_returns [where rows = rows and i = "Suc n" and k = bk,
              OF Suc.prems(2) room])
          show "Suc n \<notin> seen_rows is_basic_row rows n" by (simp add: seen_rows_def)
          show "basicDuplicateRowKey (rows ! (Suc n - 1)) = Some bk" using bk by simp
        next
          fix tb'
          assume t: "table_add rows tb bk (Suc n) = Some (tb', None)"
            "basic_holds rows tb' (insert (Suc n) (seen_rows is_basic_row rows n))"
            "basic_room tb' = basic_room tb"
            "\<forall>j \<in> seen_rows is_basic_row rows n. basicDuplicateRowKey (rows ! (j - 1)) \<noteq> Some bk"
          have "\<forall>j \<in> {1..n}. row_key (rows ! (j - 1)) \<noteq> row_key ?r"
            using t(4) b bk by (auto simp: row_key_def seen_rows_def)
          from new [OF this] have "scan_verdict rows c'
              (dup_scan c' rows tb' m (drop (Suc n) rows) (Suc (Suc n)))"
            using Suc t n b some by (intro Suc.hyps(1)) (auto simp: seen_rows_Suc)
          then show ?thesis using Some b bk t(1) by (simp add: dr cc)
        next
          fix tb' p
          assume "table_add rows tb bk (Suc n) = Some (tb', Some p)"
            "p \<in> seen_rows is_basic_row rows n" "basicDuplicateRowKey (rows ! (p - 1)) = Some bk"
          then show ?thesis
            using old [of p] Some b bk by (simp add: dr row_key_def seen_rows_def)
        qed (use n assms(1) in auto)
      next
        case b: False
        with rk obtain bk where bk: "richDuplicateRowKey ?r = Some bk" by (auto simp: row_key_def)
        let ?rich = "\<lambda>r. \<not> is_basic_row r"
        show ?thesis
        proof (rule rich_dup.add_returns [where rows = rows and i = "Suc n" and k = bk,
              OF Suc.prems(4)])
          show "Suc n \<notin> seen_rows ?rich rows n" by (simp add: seen_rows_def)
          show "richDuplicateRowKey (rows ! (Suc n - 1)) = Some bk" using bk by simp
        next
          fix m'
          assume t: "rich_add rows m bk (Suc n) = Some (m', None)"
            "map_holds richDuplicateRowKey rows m' (insert (Suc n) (seen_rows ?rich rows n))"
            "\<forall>j \<in> seen_rows ?rich rows n. richDuplicateRowKey (rows ! (j - 1)) \<noteq> Some bk"
          have "\<forall>j \<in> {1..n}. row_key (rows ! (j - 1)) \<noteq> row_key ?r"
            using t(3) b bk by (auto simp: row_key_def seen_rows_def)
          from new [OF this] have "scan_verdict rows c'
              (dup_scan c' rows tb m' (drop (Suc n) rows) (Suc (Suc n)))"
            using Suc t n b some by (intro Suc.hyps(1)) (auto simp: seen_rows_Suc)
          then show ?thesis using Some b bk t(1) by (simp add: dr cc)
        next
          fix m' p
          assume "rich_add rows m bk (Suc n) = Some (m', Some p)"
            "p \<in> seen_rows ?rich rows n" "richDuplicateRowKey (rows ! (p - 1)) = Some bk"
          then show ?thesis
            using old [of p] Some b bk by (simp add: dr row_key_def seen_rows_def)
        qed (use n assms(1) in auto)
      qed
    qed
  qed
qed

lemma count_rows_spec:
  "case count_rows c rows i b of
     Inr (c', n) \<Rightarrow> n = b + length (filter is_basic_row rows) \<and> (c = None \<longrightarrow> c' = None) \<and>
       (\<forall>r \<in> set rows. Net r \<noteq> None \<and> Selector r \<noteq> None)
   | Inl ValidateCanceled \<Rightarrow> c \<noteq> None
   | Inl (RowNotParsed k) \<Rightarrow> i \<le> k \<and> k < i + length rows \<and>
       (Net (rows ! (k - i)) = None \<or> Selector (rows ! (k - i)) = None)
   | _ \<Rightarrow> False"
proof (induction rows arbitrary: c i b)
  case Nil
  then show ?case by simp
next
  case (Cons r rs)
  show ?case
  proof (cases "ctx_poll 1 c")
    case None
    then show ?thesis by (auto simp: ctx_poll_def split: option.splits)
  next
    case (Some c')
    have c': "c = None \<Longrightarrow> c' = None" using Some by (auto simp: ctx_poll_def)
    show ?thesis
      using Some Cons.IH [of c' "Suc i" "if is_basic_row r then Suc b else b"] c'
      by (auto split: sum.splits validate_error.splits if_splits simp: nth_Cons' Suc_diff_Suc)
  qed
qed

lemma count_rows_not_parsed:
  assumes "count_rows None rows 1 0 = Inl e"
  shows "\<exists>r \<in> set rows. Net r = None \<or> Selector r = None"
proof -
  obtain k where k: "1 \<le> k" "k < 1 + length rows"
      "Net (rows ! (k - 1)) = None \<or> Selector (rows ! (k - 1)) = None"
    using count_rows_spec [where c = None and rows = rows and i = 1 and b = 0] assms
    by (cases e) auto
  then have "rows ! (k - 1) \<in> set rows" by (intro nth_mem) linarith
  with k(3) show ?thesis by blast
qed

lemma contain_rows_Background:
  "contain_rows None rows i = Inr None \<longleftrightarrow> (\<forall>r \<in> set rows. networkContains (Net r) (Selector r))"
  by (induction rows arbitrary: i) auto

lemma contain_rows_returns: "contain_rows c rows i \<noteq> Inl (DuplicateRows p q)"
  by (induction rows arbitrary: c i) (auto split: option.splits)

lemma validate_verdict:
  assumes "length rows < 2 ^ 32" and "count_rows c rows 1 0 = Inr (c1, n)"
  obtains tb where "newBasicDuplicateTable n = Inr tb"
    "scan_verdict rows c1 (dup_scan c1 rows tb Map.empty rows 1)"
proof -
  have n: "n = length (filter is_basic_row rows)"
    using count_rows_spec [where c = c and rows = rows and i = 1 and b = 0] assms(2) by simp
  obtain tb where tb: "newBasicDuplicateTable n = Inr tb" "basic_holds rows tb {}"
      "\<forall>k < n. basic_room tb k"
    using new_table_ok by blast
  have "scan_verdict rows c1 (dup_scan c1 rows tb Map.empty (drop 0 rows) (Suc 0))"
    by (rule dup_scan_verdict [OF assms(1)]) (use tb n in simp_all)
  then show thesis using that tb(1) by simp
qed

lemma row_key_at: "row_key (rows ! (i - Suc 0)) = None \<Longrightarrow> 0 < i \<Longrightarrow> i \<le> length rows \<Longrightarrow>
    \<exists>r \<in> set rows. row_key r = None"
  by (rule bexI [of _ "rows ! (i - Suc 0)"]) auto

lemma duplicates_reported:
  assumes "length rows < 2 ^ 32" and "\<forall>r \<in> set rows. Net r \<noteq> None \<and> Selector r \<noteq> None"
    and "\<forall>r \<in> set rows. row_key r \<noteq> None" and "\<not> distinct (map row_key rows)"
  shows "\<exists>p i. ValidateIPRowsContext None rows = Some (Inl (DuplicateRows p i))"
proof (cases "count_rows None rows 1 0")
  case (Inl e)
  from count_rows_not_parsed [OF Inl] show ?thesis using assms(2) by blast
next
  case (Inr q)
  obtain c1 n where q: "q = (c1, n)" by (cases q)
  have c1: "c1 = None"
    using count_rows_spec [where c = None and rows = rows and i = 1 and b = 0] Inr q by auto
  obtain tb where tb: "newBasicDuplicateTable n = Inr tb"
      "scan_verdict rows c1 (dup_scan c1 rows tb Map.empty rows 1)"
    using validate_verdict [OF assms(1)] Inr q by metis
  then obtain p i where "dup_scan c1 rows tb Map.empty rows 1 = Some (Inl (DuplicateRows p i))"
    using assms(3,4) c1
    by (auto dest!: row_key_at simp: scan_verdict_def split: option.splits sum.splits validate_error.splits)
  then show ?thesis using Inr q tb(1) by (simp add: ValidateIPRowsContext_def)
qed

section \<open>Containment is inclusion of address ranges\<close>

lemma ipnet_contains_prefix_net:
  "k \<le> 32 \<Longrightarrow> ipnet_contains (prefix_net w k) (put_u32 x) \<longleftrightarrow> x AND pmask k = w AND pmask k"
proof -
  assume k: "k \<le> 32"
  have "and_bytes (put_u32 (w AND pmask k)) (cidr_mask k 32) = and_bytes (put_u32 x) (cidr_mask k 32)
      \<longleftrightarrow> (w AND pmask k) AND pmask k = x AND pmask k"
    using k by (subst be_u32_inject [symmetric])
      (simp_all add: be_u32_and_bytes be_u32_cidr_mask length_and_bytes)
  then show ?thesis
    by (auto simp: ipnet_contains_def net_number_and_mask_def Let_def)
qed

lemma block_subset:
  fixes a b :: "32 word"
  assumes "k \<le> 32" "j \<le> 32"
  shows "{x. x AND pmask j = b AND pmask j} \<subseteq> {x. x AND pmask k = a AND pmask k} \<longleftrightarrow>
     k \<le> j \<and> b AND pmask k = a AND pmask k"
proof
  assume sub: "{x. x AND pmask j = b AND pmask j} \<subseteq> {x. x AND pmask k = a AND pmask k}"
  let ?lo = "b AND pmask j" and ?hi = "b OR mask (32 - j)"
  have mem: "b AND pmask k = a AND pmask k" using sub by blast
  have "?lo AND pmask j = b AND pmask j" by (simp add: and.assoc)
  moreover have "?hi AND pmask j = b AND pmask j"
    using block_member [of "32 - j" ?hi b] block_order [of "32 - j" b] order_trans [of ?lo b ?hi]
    by (simp add: pmask_def)
  ultimately have "?lo AND pmask k = a AND pmask k" "?hi AND pmask k = a AND pmask k"
    using sub by blast+
  then have "a AND pmask k \<le> ?lo" "?hi \<le> a OR mask (32 - k)"
    using block_member [of "32 - k" ?lo a] block_member [of "32 - k" ?hi a] by (auto simp: pmask_def)
  then have "unat ?hi + 1 - unat ?lo \<le> unat (a OR mask (32 - k)) + 1 - unat (a AND pmask k)"
    by (auto simp: word_le_nat_alt)
  then have "(2::nat) ^ (32 - j) \<le> 2 ^ (32 - k)"
    using block_size [of "32 - j" b] block_size [of "32 - k" a] by (simp add: pmask_def)
  then have "32 - j \<le> 32 - k" by (rule power_le_imp_le_exp [rotated]) simp
  then show "k \<le> j \<and> b AND pmask k = a AND pmask k" using assms mem by simp
next
  assume kj: "k \<le> j \<and> b AND pmask k = a AND pmask k"
  have m: "pmask j AND pmask k = pmask k"
    using kj by (auto simp: pmask_def intro!: bit_word_eqI simp: bit_simps)
  show "{x. x AND pmask j = b AND pmask j} \<subseteq> {x. x AND pmask k = a AND pmask k}"
  proof safe
    fix x
    assume "x AND pmask j = b AND pmask j"
    then have "x AND (pmask j AND pmask k) = b AND (pmask j AND pmask k)"
      by (metis and.assoc)
    then show "x AND pmask k = a AND pmask k" using kj m by simp
  qed
qed

lemma networkContains_prefix_net:
  "k \<le> 32 \<Longrightarrow> j \<le> 32 \<Longrightarrow> networkContains (Some (prefix_net a k)) (Some (prefix_net b j)) \<longleftrightarrow>
     k \<le> j \<and> b AND pmask k = a AND pmask k"
proof -
  assume kj: "k \<le> 32" "j \<le> 32"
  have "k \<le> j \<Longrightarrow> pmask j AND pmask k = pmask k"
    by (auto simp: pmask_def intro!: bit_word_eqI simp: bit_simps)
  then have "k \<le> j \<Longrightarrow> (b AND pmask j) AND pmask k = b AND pmask k"
    by (simp add: and.assoc)
  then show ?thesis
    using kj by (auto simp: networkContains_def mask_size_cidr_mask be_u32_cidr_mask Let_def)
qed

section \<open>Properties\<close>

lemma validate_Background_iff:
  assumes "length rows < 2 ^ 32"
  shows "ValidateIPRowsContext None rows = Some (Inr None) \<longleftrightarrow>
    (\<forall>r \<in> set rows. Net r \<noteq> None \<and> Selector r \<noteq> None \<and> row_key r \<noteq> None) \<and>
    distinct (map row_key rows) \<and> (\<forall>r \<in> set rows. networkContains (Net r) (Selector r))"
proof (cases "count_rows None rows 1 0")
  case (Inl e)
  from count_rows_not_parsed [OF Inl] show ?thesis using Inl by (auto simp: ValidateIPRowsContext_def)
next
  case (Inr p)
  obtain c1 n where p: "p = (c1, n)" by (cases p)
  have c1: "c1 = None" "\<forall>r \<in> set rows. Net r \<noteq> None \<and> Selector r \<noteq> None"
    using count_rows_spec [where c = None and rows = rows and i = 1 and b = 0] Inr p by auto
  obtain tb where tb: "newBasicDuplicateTable n = Inr tb"
      "scan_verdict rows c1 (dup_scan c1 rows tb Map.empty rows 1)"
    using validate_verdict [OF assms] Inr p by metis
  show ?thesis
  proof (cases "dup_scan c1 rows tb Map.empty rows 1 = Some (Inr None)")
    case True
    then show ?thesis
      using Inr p c1 tb by (simp add: ValidateIPRowsContext_def scan_verdict_def contain_rows_Background)
  next
    case False
    have "ValidateIPRowsContext None rows \<noteq> Some (Inr None)"
      using Inr p tb False c1(1)
      by (auto simp: ValidateIPRowsContext_def scan_verdict_def split: option.splits sum.splits)
    moreover have "\<not> ((\<forall>r \<in> set rows. row_key r \<noteq> None) \<and> distinct (map row_key rows))"
    proof
      assume ok: "(\<forall>r \<in> set rows. row_key r \<noteq> None) \<and> distinct (map row_key rows)"
      have "0 < p \<Longrightarrow> p < i \<Longrightarrow> i \<le> length rows \<Longrightarrow>
          row_key (rows ! (p - 1)) \<noteq> row_key (rows ! (i - 1))" for p i
        using ok nth_eq_iff_index_eq [of "map row_key rows" "p - 1" "i - 1"] by auto
      then show False
        using tb(2) False c1(1) ok
        by (auto dest!: row_key_at simp: scan_verdict_def split: option.splits sum.splits validate_error.splits)
    qed
    ultimately show ?thesis by blast
  qed
qed

text \<open>
  C23: with no cancellation, ValidateIPRows accepts a slice of fewer than 2^32 rows exactly when
  every row is parsed, no two rows have the same duplicate key (basic rows: boundary, selector and
  port; rich rows: src, dst, boundary and port), and every selector is contained in its boundary.
  The open-addressing hash table never loses a duplicate, never reports a false one, and its probe
  loop always returns.
\<close>

theorem ValidateIPRows_accepts_iff:
  assumes "length rows < 2 ^ 32"
  shows "ValidateIPRowsContext None rows = Some (Inr None) \<longleftrightarrow>
    (\<forall>r \<in> set rows. Net r \<noteq> None \<and> Selector r \<noteq> None \<and> row_key r \<noteq> None) \<and>
    distinct (map row_key rows) \<and> (\<forall>r \<in> set rows. networkContains (Net r) (Selector r))"
  by (rule validate_Background_iff [OF assms])

definition sample_row :: "nat \<Rightarrow> int \<Rightarrow> CIDRRecord" where
  "sample_row host port = zero_record\<lparr>Net := Some (prefix_net 0x0a000000 24),
     Selector := Some (prefix_net (0x0a000000 + of_nat host) 32), Port := port\<rparr>"

lemma sample_parse [simp]:
  "Net (sample_row h p) = Some (prefix_net 0x0a000000 24)"
  "Selector (sample_row h p) = Some (prefix_net (0x0a000000 + of_nat h) 32)"
  "is_basic_row (sample_row h p)" "Port (sample_row h p) = p"
  by (simp_all add: sample_row_def zero_record_def is_basic_row_def)

lemma pmask_32 [simp]: "pmask 32 = - 1"
  by (simp add: pmask_def)

lemma ValidateIPRows_accepts_iff_witness:
  "ValidateIPRowsContext None [sample_row 1 80, sample_row 2 80, sample_row 1 443] = Some (Inr None)"
proof -
  have "(0x0a000001 :: 32 word) AND pmask 24 = 0x0a000000 AND pmask 24"
    "(0x0a000002 :: 32 word) AND pmask 24 = 0x0a000000 AND pmask 24" by code_simp+
  then show ?thesis
    by (subst ValidateIPRows_accepts_iff)
      (auto simp: row_key_def basicDuplicateRowKey_def networkContains_prefix_net)
qed

text \<open>
  a duplicate that ValidateIPRows reports is real and the first one: both rows exist, the
  earlier row has the same duplicate key, and no two rows before the reported one share a key.
\<close>

theorem ValidateIPRows_duplicate_real:
  assumes "length rows < 2 ^ 32"
    and "ValidateIPRowsContext c rows = Some (Inl (DuplicateRows p i))"
  shows "0 < p \<and> p < i \<and> i \<le> length rows \<and>
    row_key (rows ! (p - 1)) = row_key (rows ! (i - 1)) \<and> distinct (map row_key (take (i - 1) rows))"
proof (cases "count_rows c rows 1 0")
  case (Inl e)
  then show ?thesis
    using assms(2) count_rows_spec [where c = c and rows = rows and i = 1 and b = 0]
    by (simp add: ValidateIPRowsContext_def)
next
  case (Inr q)
  obtain c1 n where q: "q = (c1, n)" by (cases q)
  obtain tb where tb: "newBasicDuplicateTable n = Inr tb"
      "scan_verdict rows c1 (dup_scan c1 rows tb Map.empty rows 1)"
    using validate_verdict [OF assms(1)] Inr q by metis
  have "dup_scan c1 rows tb Map.empty rows 1 = Some (Inl (DuplicateRows p i))"
    using assms(2) Inr q tb(1) contain_rows_returns
    by (auto simp: ValidateIPRowsContext_def split: option.splits sum.splits)
  with tb(2) show ?thesis by (simp add: scan_verdict_def)
qed

lemma ValidateIPRows_duplicate_real_witness:
  "\<exists>p i. ValidateIPRowsContext None [sample_row 1 80, sample_row 1 80] =
     Some (Inl (DuplicateRows p i)) \<and> p < i \<and> i \<le> 2"
proof -
  obtain p i where r: "ValidateIPRowsContext None [sample_row 1 80, sample_row 1 80] =
      Some (Inl (DuplicateRows p i))"
    using duplicates_reported [of "[sample_row 1 80, sample_row 1 80]"]
    by (auto simp: row_key_def basicDuplicateRowKey_def)
  from r ValidateIPRows_duplicate_real [OF _ r] show ?thesis by auto
qed

text \<open>
  C40: networkContains(outer, inner) of two IPv4 networks holds exactly when every address of the
  inner network is an address of the outer one (\<open>IPNet.Contains\<close>).
\<close>

theorem networkContains_iff_subset:
  assumes "k \<le> 32" and "j \<le> 32"
  shows "networkContains (Some (prefix_net a k)) (Some (prefix_net b j)) \<longleftrightarrow>
    {x. ipnet_contains (prefix_net b j) (put_u32 x)} \<subseteq> {x. ipnet_contains (prefix_net a k) (put_u32 x)}"
  using assms by (simp add: networkContains_prefix_net ipnet_contains_prefix_net block_subset)

lemma networkContains_iff_subset_witness:
  "{x. ipnet_contains (prefix_net 0x0a000100 24) (put_u32 x)} \<subseteq>
   {x. ipnet_contains (prefix_net 0x0a000000 16) (put_u32 x)}"
proof -
  have "networkContains (Some (prefix_net 0x0a000000 16)) (Some (prefix_net 0x0a000100 24))"
    by code_simp
  then show ?thesis by (subst (asm) networkContains_iff_subset) simp_all
qed

end
