(* ===== verification/RichProps.thy ===== *)
theory RichProps
  imports InputValidate
begin

text \<open>
  What an accepted policy row guarantees to the rest of the program, and the accounting of
  \<open>ParseRichRowsContext\<close> (rich_parser.go).
\<close>

section \<open>Prefixes\<close>

lemma drop_bit_xor_eq_0:
  fixes w x :: "32 word"
  shows "drop_bit n (w XOR x) = 0 \<longleftrightarrow> x AND NOT (mask n) = w AND NOT (mask n)"
proof
  assume z: "drop_bit n (w XOR x) = 0"
  show "x AND NOT (mask n) = w AND NOT (mask n)"
  proof (rule bit_word_eqI)
    fix m
    assume m: "m < LENGTH(32)"
    show "bit (x AND NOT (mask n)) m = bit (w AND NOT (mask n)) m"
    proof (cases "m < n")
      case False
      then have "\<not> bit (drop_bit n (w XOR x)) (m - n)" using z by simp
      then show ?thesis using False m by (auto simp: bit_simps)
    qed (auto simp: bit_simps)
  qed
next
  assume e: "x AND NOT (mask n) = w AND NOT (mask n)"
  show "drop_bit n (w XOR x) = 0"
  proof (rule bit_word_eqI)
    fix m
    have "bit (x AND NOT (mask n)) (n + m) = bit (w AND NOT (mask n)) (n + m)" using e by simp
    then show "bit (drop_bit n (w XOR x)) m = bit (0 :: 32 word) m"
      using bit_imp_le_length [of x "n + m"] bit_imp_le_length [of w "n + m"]
      by (auto simp: bit_simps)
  qed
qed

lemma prefix_contains_masked:
  "k \<le> 32 \<Longrightarrow> prefix_contains (prefix_masked v k) a \<longleftrightarrow> be_u32 a AND pmask k = be_u32 v AND pmask k"
  by (simp add: prefix_masked_def prefix_contains_def drop_bit_xor_eq_0 pmask_def and.assoc
      del: drop_bit_xor)

lemma prefix_contains_cases:
  assumes "prefix_contains (prefix_masked v k) a"
  obtains "k \<le> 32" "prefix_masked v k = Some (be_u32 v AND pmask k, k)"
    "be_u32 a AND pmask k = be_u32 v AND pmask k"
proof -
  have k: "k \<le> 32" using assms by (auto simp: prefix_masked_def prefix_contains_def split: if_splits)
  then show thesis using that assms by (simp add: prefix_contains_masked) (simp add: prefix_masked_def)
qed

lemma full_mask: "cidr_mask 32 32 = [0xff, 0xff, 0xff, 0xff]"
  by code_simp

lemma prefixIPNet_masked: "prefixIPNet (w AND pmask k, k) = prefix_net w k"
  by (simp add: prefixIPNet_def prefix_net_def)

lemma prefix_net_masked [simp]: "prefix_net (w AND pmask k) k = prefix_net w k"
  by (simp add: prefix_net_def and.assoc)

lemma addressIPNet_prefix_net: "length v = 4 \<Longrightarrow> addressIPNet v = prefix_net (be_u32 v) 32"
  by (simp add: addressIPNet_def prefix_net_def full_mask put_u32_be_u32)

lemma v4_string_print: "length ip = 4 \<Longrightarrow> list_all is_print (v4_string ip)"
  using v4_string_chars by (fastforce simp: list_all_iff is_print_def is_digit_def)

lemma unmap_v4_length: "parse_addr s = Some a \<Longrightarrow> unmap_v4 a = Some v \<Longrightarrow> length v = 4"
  by (auto simp: parse_addr_def parse_v6_def Let_def unmap_v4_def dest: parse_v4_length to4_length
      split: naddr.splits list.splits if_splits option.splits)

section \<open>An accepted row\<close>

lemma rich_segment_cases:
  assumes "rich_segment raw e1 e2 = Inr p"
  obtains v k where "p = prefix_masked v k"
  using assms by (auto simp: rich_segment_def split: option.splits)

lemma rich_addr_length: "rich_addr raw e1 e2 = Inr v \<Longrightarrow> length v = 4"
  by (auto simp: rich_addr_def dest: unmap_v4_length split: option.splits)

lemma accepted_row_cases:
  assumes "parseRichRow row n idx = Inr r"
  obtains src dst w j v k p d where "length src = 4" "length dst = 4" "j \<le> 32" "k \<le> 32"
    "be_u32 src AND pmask j = w AND pmask j" "be_u32 dst AND pmask k = v AND pmask k"
    "1 \<le> p" "p \<le> 65535" "d = ''accept'' \<or> d = ''deny''"
    "r = rich_record (rich_get row idx) n src dst (w AND pmask j, j) (v AND pmask k, k) d p"
proof -
  from assms obtain src dst sp dp d p where *:
    "rich_addr (rich_get row idx ''src_ip'') BadSrcIP SrcIPNotIPv4 = Inr src"
    "rich_addr (rich_get row idx ''dst_ip'') BadDstIP DstIPNotIPv4 = Inr dst"
    "rich_segment (rich_get row idx ''src_network_segment'') BadSrcSegment SrcSegmentNotIPv4 = Inr sp"
    "rich_segment (rich_get row idx ''dst_network_segment'') BadDstSegment DstSegmentNotIPv4 = Inr dp"
    "prefix_contains sp src" "prefix_contains dp dst"
    "rich_decision (rich_get row idx ''decision'') = Inr d"
    "rich_port (rich_get row idx ''port'') = Inr p"
    "r = rich_record (rich_get row idx) n src dst (the sp) (the dp) d p"
    by (auto simp: parseRichRow_def Let_def try_bind_eq_Inr split: option.splits if_splits)
  obtain a j where a: "sp = prefix_masked a j" using *(3) by (rule rich_segment_cases)
  obtain b k where b: "dp = prefix_masked b k" using *(4) by (rule rich_segment_cases)
  have dec: "d = ''accept'' \<or> d = ''deny''"
    using *(7) by (auto simp: rich_decision_def split: if_splits)
  have port: "1 \<le> p" "p \<le> 65535" using *(8) by (auto simp: rich_port_def split: option.splits if_splits)
  from *(5,6) show thesis
    unfolding a b
  proof (elim prefix_contains_cases)
    assume "j \<le> 32" "prefix_masked a j = Some (be_u32 a AND pmask j, j)"
      "be_u32 src AND pmask j = be_u32 a AND pmask j" "k \<le> 32"
      "prefix_masked b k = Some (be_u32 b AND pmask k, k)"
      "be_u32 dst AND pmask k = be_u32 b AND pmask k"
    then show thesis
      using that [of src dst j k "be_u32 a" "be_u32 b" p d] *(1,2,9) dec port
      by (simp add: a b rich_addr_length)
  qed
qed

lemma parse_ip4_trim: "length ip = 4 \<Longrightarrow> parse_ip4 (trim_space (v4_string ip)) = Some ip"
  by (simp add: trim_space_print v4_string_print)

text \<open>
  C39: a policy row that the rich parser accepts yields a record the rest of the program can rely
  on: its execution key is the one BuildExecutionKey computes for (dst_ip, port, tcp), its
  destination address is contained in its destination network (so the later containment check
  cannot fail), the printed network parses back to the network, the decision is accept or deny,
  the port is a TCP port, and the record is marked rich and valid.
\<close>

theorem accepted_rich_row:
  assumes "parseRichRow row n idx = Inr r"
  shows "BuildExecutionKey (DstIP r) (Port r) (Protocol r) = Inr (ExecutionKey r)
    \<and> networkContains (Net r) (Selector r) \<and> parse_cidr (CIDR r) = Net r
    \<and> Decision r \<in> {''accept'', ''deny''} \<and> 1 \<le> Port r \<and> Port r \<le> 65535
    \<and> IsRich r \<and> IsValid r \<and> RowNumber r = n"
proof -
  from assms obtain src dst w j v k p d where r: "length src = 4" "length dst = 4" "j \<le> 32" "k \<le> 32"
    "be_u32 src AND pmask j = w AND pmask j" "be_u32 dst AND pmask k = v AND pmask k"
    "1 \<le> p" "p \<le> 65535" "d = ''accept'' \<or> d = ''deny''"
    "r = rich_record (rich_get row idx) n src dst (w AND pmask j, j) (v AND pmask k, k) d p"
    by (rule accepted_row_cases)
  have net: "Net r = Some (prefix_net v k)" "CIDR r = cidr_string (v AND pmask k) k"
    using r by (simp_all add: rich_record_def Let_def prefixIPNet_masked prefix_string_def)
  have sel: "Selector r = Some (prefix_net (be_u32 dst) 32)"
    using r(2,6) by (auto simp: r(10) rich_record_def Let_def prefixIPNet_masked addressIPNet_prefix_net)
  have "networkContains (Net r) (Selector r)"
    using r(4,6) by (simp add: net(1) sel networkContains_prefix_net)
  moreover have "parse_cidr (CIDR r) = Net r"
    using r(4) by (simp add: net parse_cidr_string)
  moreover have "to_lower (trim_space ''tcp'') = ''tcp''" by code_simp
  then have "BuildExecutionKey (DstIP r) (Port r) (Protocol r) = Inr (ExecutionKey r)"
    using r(2,7,8) by (simp add: r(10) rich_record_def Let_def BuildExecutionKey_def parse_ip4_trim)
  ultimately show ?thesis
    using r(7-9) by (simp add: r(10) rich_record_def Let_def)
qed

definition sample_header :: "string list" where
  "sample_header = requiredRichFields"

definition sample_policy :: "string list" where
  "sample_policy = [''10.0.0.5'', ''10.0.0.0/24'', ''192.168.1.9'', ''192.168.1.0/28'', ''web'',
     ''TCP'', ''443'', ''accept'', ''P1'', ''match'']"

lemma accepted_rich_row_witness:
  "\<exists>r. parseRichRow sample_policy 2 (header_map sample_header) = Inr r
    \<and> BuildExecutionKey (DstIP r) (Port r) (Protocol r) = Inr (ExecutionKey r)"
proof -
  have "case parseRichRow sample_policy 2 (header_map sample_header) of Inl e \<Rightarrow> False | Inr r \<Rightarrow> True"
    by code_simp
  then obtain r where r: "parseRichRow sample_policy 2 (header_map sample_header) = Inr r"
    by (auto split: sum.splits)
  from r accepted_rich_row [OF r] show ?thesis by blast
qed

section \<open>The summary\<close>

text \<open>The records of the rows from row number \<open>i\<close> on.\<close>

primrec row_records :: "(string \<rightharpoonup> nat) \<Rightarrow> int \<Rightarrow> string list list \<Rightarrow> CIDRRecord list" where
  "row_records idx i [] = []"
| "row_records idx i (row # rows) = rich_row_record row i idx # row_records idx (i + 1) rows"

lemma length_row_records [simp]: "length (row_records idx i rows) = length rows"
  by (induction rows arbitrary: i) auto

definition summary_ok :: "CIDRRecord list \<Rightarrow> RichParseSummary \<Rightarrow> bool" where
  "summary_ok out sm \<longleftrightarrow> ValidRows sm = length (filter IsValid out) \<and>
     InvalidRows sm = length (filter (\<lambda>r. \<not> IsValid r) out) \<and>
     (\<forall>code. FailureByReason sm code =
        length (filter (\<lambda>r. \<not> IsValid r \<and> ValidationCode r = code) out))"

lemma accepted_valid: "parseRichRow row n idx = Inr r \<Longrightarrow> IsValid r"
  by (erule accepted_row_cases) (simp add: rich_record_def Let_def)

lemma rich_rows_loop_spec:
  assumes "summary_ok out sm"
  shows "\<exists>sm'. rich_rows_loop None rows i idx out sm =
      (out @ row_records idx (i + 1) rows, sm', False) \<and>
    summary_ok (out @ row_records idx (i + 1) rows) sm' \<and> TotalRows sm' = TotalRows sm"
  using assms
proof (induction rows arbitrary: i out sm)
  case Nil
  then show ?case by simp
next
  case (Cons row rows)
  show ?case
  proof (cases "parseRichRow row (i + 1) idx")
    case (Inl e)
    let ?sm = "sm\<lparr>InvalidRows := Suc (InvalidRows sm), FailureByReason := (FailureByReason sm)
      (validation_code e := Suc (FailureByReason sm (validation_code e)))\<rparr>"
    have "summary_ok (out @ [invalid_rich (i + 1) e]) ?sm"
      using Cons.prems by (auto simp: summary_ok_def invalid_rich_def)
    from Cons.IH [OF this, of "i + 1"] Inl show ?thesis
      by (auto simp: rich_row_record_def)
  next
    case (Inr r)
    have "summary_ok (out @ [r]) (sm\<lparr>ValidRows := Suc (ValidRows sm)\<rparr>)"
      using Cons.prems accepted_valid [OF Inr] by (auto simp: summary_ok_def)
    from Cons.IH [OF this, of "i + 1"] Inr show ?thesis
      by (auto simp: rich_row_record_def)
  qed
qed

text \<open>
  without cancellation ParseRichRows returns one record per data row, in order, and a summary
  that agrees with the records: the valid and invalid counts add up to the number of data rows,
  the failure map counts the records of each code, and the error is set exactly when no record is
  valid.
\<close>

theorem ParseRichRows_accounting:
  "case ParseRichRowsContext None rows idx of (out, sm, err) \<Rightarrow>
     out = row_records idx 2 (drop 1 rows) \<and>
     int (ValidRows sm) + int (InvalidRows sm) = TotalRows sm \<and>
     ValidRows sm = length (filter IsValid out) \<and>
     (\<forall>code. FailureByReason sm code =
        length (filter (\<lambda>r. \<not> IsValid r \<and> ValidationCode r = code) out)) \<and>
     err = (if \<exists>r \<in> set out. IsValid r then None else Some NoUsableRows)"
proof -
  define sm0 where "sm0 = \<lparr>TotalRows = max 0 (int (length rows) - 1), ValidRows = 0,
    InvalidRows = 0, FailureByReason = (\<lambda>_. 0)\<rparr>"
  have "summary_ok [] sm0" by (simp add: summary_ok_def sm0_def)
  from rich_rows_loop_spec [OF this, of "drop 1 rows" 1 idx] obtain sm where sm:
    "rich_rows_loop None (drop 1 rows) 1 idx [] sm0 = (row_records idx 2 (drop 1 rows), sm, False)"
    "summary_ok (row_records idx 2 (drop 1 rows)) sm" "TotalRows sm = TotalRows sm0"
    by auto
  have total: "length (filter IsValid xs) + length (filter (\<lambda>r. \<not> IsValid r) xs) = length xs" for xs
    by (rule sum_length_filter_compl)
  have "int (ValidRows sm) + int (InvalidRows sm) = TotalRows sm"
    using sm(2,3) total [of "row_records idx 2 (drop 1 rows)"]
    by (simp add: summary_ok_def sm0_def)
  then show ?thesis
    using sm by (auto simp: ParseRichRowsContext_def sm0_def [symmetric] summary_ok_def
        filter_empty_conv)
qed

end
