(* ===== verification/InputLoad.thy ===== *)
theory InputLoad
  imports RichProps
begin

text \<open>
  \<open>pkg/input\<close>, the loaders: the CSV loops of cidr.go and rich_parser.go with their record limit,
  the two-pass load of a seekable file (limits.go), the bounded reader (limits.go) and the port
  file (ports.go).

  A \<open>csv.Reader\<close> is the list of the results its remaining \<open>Read\<close> calls return, the end of the
  list being \<open>io.EOF\<close>; an error carries an opaque number. Counters of type uint64 are naturals,
  with the overflow checks of the code written out.
\<close>

section \<open>Limits and errors\<close>

record CIDRLimits =
  Path :: string
  MaxBytes :: nat
  MaxRecords :: nat
  capacity :: nat

definition DefaultCIDRLimits :: "string \<Rightarrow> CIDRLimits" where
  "DefaultCIDRLimits path =
     \<lparr>Path = path, MaxBytes = 1000000000, MaxRecords = 10000000, capacity = 0\<rparr>"

record PortLimits =
  PortPath :: string
  PortMaxBytes :: nat
  PortMaxRecords :: nat

definition DefaultPortLimits :: "string \<Rightarrow> PortLimits" where
  "DefaultPortLimits path = \<lparr>PortPath = path, PortMaxBytes = 1000000, PortMaxRecords = 65535\<rparr>"

datatype load_error =
    LoadCanceled | CsvError nat | HeaderOnly | CountOverflow | RecordLimit nat nat
  | ColumnNamesEmpty | MissingIPColumn string | MissingIPCidrColumn string
  | CapacityTooLarge nat | ShortRow int | BadRowPort int string | BadRow int row_error
  | NoUsable | LoadInvalid validate_error | ValidateLoops | RewindFailed | ChangedDuringLoad nat nat

type_synonym csv = "(nat + string list) list"

section \<open>Reading records\<close>

text \<open>The result \<open>None\<close> inside is \<open>io.EOF\<close>.\<close>

definition readCSVRecordContext :: "ctx \<Rightarrow> csv \<Rightarrow> load_error + ctx \<times> (string list \<times> csv) option" where
  "readCSVRecordContext c rd = (case ctx_poll 1 c of None \<Rightarrow> Inl LoadCanceled
     | Some c' \<Rightarrow> (case rd of [] \<Rightarrow> Inr (c', None)
         | Inl e # _ \<Rightarrow> Inl (CsvError e)
         | Inr row # rd' \<Rightarrow> Inr (c', Some (row, rd'))))"

definition readCIDRDataRecord ::
  "ctx \<Rightarrow> csv \<Rightarrow> CIDRLimits \<Rightarrow> nat \<Rightarrow> load_error + ctx \<times> (string list \<times> csv) option" where
  "readCIDRDataRecord c rd limits count' =
     try_bind (readCSVRecordContext c rd) (\<lambda>(c', r). case r of None \<Rightarrow> Inr (c', None)
       | Some _ \<Rightarrow> if count' = 2 ^ 64 - 1 then Inl CountOverflow
           else if 0 < MaxRecords limits \<and> MaxRecords limits < count' + 1
           then Inl (RecordLimit (count' + 2) (count' + 1)) else Inr (c', r))"

lemma readCSVRecord_shorter:
  "readCSVRecordContext c rd = Inr (c', Some (row, rd')) \<Longrightarrow> rd = Inr row # rd'"
  by (auto simp: readCSVRecordContext_def split: option.splits list.splits sum.splits)

lemma readCIDRDataRecord_Some:
  "readCIDRDataRecord c rd limits n = Inr (c', Some (row, rd')) \<Longrightarrow>
     rd = Inr row # rd' \<and> (0 < MaxRecords limits \<longrightarrow> n + 1 \<le> MaxRecords limits) \<and> n \<noteq> 2 ^ 64 - 1"
  by (auto simp: readCIDRDataRecord_def try_bind_eq_Inr split: option.splits if_splits
      dest: readCSVRecord_shorter)

lemma readCIDRDataRecord_None:
  "readCIDRDataRecord c rd limits n = Inr (c', None) \<Longrightarrow> rd = []"
  by (auto simp: readCIDRDataRecord_def readCSVRecordContext_def try_bind_eq_Inr
      split: option.splits if_splits list.splits sum.splits)

section \<open>Basic rows\<close>

record basic_columns =
  ipIdx :: nat
  ipCidrIdx :: nat
  fabIdx :: "nat option"
  cidrNameIdx :: "nat option"
  portIdx :: "nat option"
  ipCol :: string
  ipCidrCol :: string

definition optional_column :: "string list \<Rightarrow> nat option \<Rightarrow> string" where
  "optional_column row i = (case i of None \<Rightarrow> [] | Some k \<Rightarrow>
     if k < length row then trim_space (row ! k) else [])"

definition basic_port :: "string list \<Rightarrow> nat option \<Rightarrow> int \<Rightarrow> load_error + int" where
  "basic_port row i rowNumber = (case i of None \<Rightarrow> Inr 0 | Some k \<Rightarrow>
     if length row \<le> k then Inl (ShortRow rowNumber)
     else (let raw = trim_space (row ! k) in
       if raw = [] then Inr 0
       else (case atoi raw of None \<Rightarrow> Inl (BadRowPort rowNumber raw)
         | Some p \<Rightarrow> if p < 1 \<or> 65535 < p then Inl (BadRowPort rowNumber raw) else Inr p)))"

definition basic_row_record :: "basic_columns \<Rightarrow> string list \<Rightarrow> int \<Rightarrow> load_error + CIDRRecord" where
  \<comment> \<open>the record of a row before \<open>pool.parse\<close>\<close>
  "basic_row_record cols row rowNumber =
    (if length row \<le> max (ipIdx cols) (ipCidrIdx cols) then Inl (ShortRow rowNumber)
     else try_bind (basic_port row (portIdx cols) rowNumber) (\<lambda>port.
       Inr (zero_record\<lparr>IPRaw := trim_space (row ! ipIdx cols),
              IPCidrRaw := trim_space (row ! ipCidrIdx cols), RowNumber := rowNumber,
              IPColName := ipCol cols, IPCidrCol := ipCidrCol cols,
              FabName := optional_column row (fabIdx cols),
              CIDRName := optional_column row (cidrNameIdx cols), Port := port\<rparr>)))"

definition parse_error :: "int \<Rightarrow> row_error + 'a \<Rightarrow> load_error + 'a" where
  "parse_error rowNumber r = (case r of Inl e \<Rightarrow> Inl (BadRow rowNumber e) | Inr a \<Rightarrow> Inr a)"

function basic_loop :: "basic_columns \<Rightarrow> CIDRLimits \<Rightarrow> ctx \<Rightarrow> csv \<Rightarrow> nat \<Rightarrow> string list \<Rightarrow>
    basicRecordPool \<Rightarrow> CIDRRecord list \<Rightarrow> load_error + ctx \<times> CIDRRecord list" where
  "basic_loop cols limits c rd recordCount row pool out =
    (case ctx_poll 1 c of None \<Rightarrow> Inl LoadCanceled
     | Some c1 \<Rightarrow>
       try_bind (basic_row_record cols row (int (recordCount + 1))) (\<lambda>r0.
       try_bind (parse_error (int (recordCount + 1)) (pool_parse pool r0)) (\<lambda>(r, pool').
       (case readCIDRDataRecord c1 rd limits recordCount of
          Inl e \<Rightarrow> Inl e
        | Inr (c2, None) \<Rightarrow> Inr (c2, out @ [r])
        | Inr (c2, Some (next_row, rd')) \<Rightarrow>
            basic_loop cols limits c2 rd' (recordCount + 1) next_row pool' (out @ [r])))))"
  by pat_completeness auto
termination
  by (relation "measure (\<lambda>(cols, limits, c, rd, recordCount, row, pool, out). length rd)")
    (auto dest!: readCIDRDataRecord_Some)

declare basic_loop.simps [simp del]

section \<open>Rich rows\<close>

function rich_csv_loop :: "CIDRLimits \<Rightarrow> (string \<rightharpoonup> nat) \<Rightarrow> ctx \<Rightarrow> csv \<Rightarrow> nat \<Rightarrow> string list \<Rightarrow>
    nat \<Rightarrow> CIDRRecord list \<Rightarrow> load_error + nat \<times> CIDRRecord list" where
  "rich_csv_loop limits idx c rd recordCount row validRows out =
    (case ctx_poll 1 c of None \<Rightarrow> Inl LoadCanceled
     | Some c1 \<Rightarrow>
       let rowNumber = int (recordCount + 1);
           (valid', out') = (case parseRichRow row rowNumber idx of
              Inl e \<Rightarrow> (validRows, out @ [invalid_rich rowNumber e])
            | Inr r \<Rightarrow> (Suc validRows, out @ [r]))
       in (case readCIDRDataRecord c1 rd limits recordCount of
            Inl e \<Rightarrow> Inl e
          | Inr (c2, None) \<Rightarrow> Inr (valid', out')
          | Inr (c2, Some (next_row, rd')) \<Rightarrow>
              rich_csv_loop limits idx c2 rd' (recordCount + 1) next_row valid' out'))"
  by pat_completeness auto
termination
  by (relation "measure (\<lambda>(limits, idx, c, rd, recordCount, row, v, out). length rd)")
    (auto dest!: readCIDRDataRecord_Some)

declare rich_csv_loop.simps [simp del]

definition makeCIDRRecordBuffer :: "nat \<Rightarrow> load_error + CIDRRecord list" where
  "makeCIDRRecordBuffer cap = (if 2 ^ 63 - 1 < cap then Inl (CapacityTooLarge cap) else Inr [])"

definition parseRichCSVContext :: "ctx \<Rightarrow> csv \<Rightarrow> string list \<Rightarrow> (string \<rightharpoonup> nat) \<Rightarrow> CIDRLimits \<Rightarrow>
    load_error + CIDRRecord list" where
  "parseRichCSVContext c rd first indices limits =
     try_bind (makeCIDRRecordBuffer (capacity limits)) (\<lambda>out0.
     try_bind (rich_csv_loop limits indices c rd 1 first 0 out0) (\<lambda>(validRows, out).
       if validRows = 0 then Inl NoUsable else Inr out))"

section \<open>parseCIDRsWithColumnsContext\<close>

definition basic_columns_of :: "string list \<Rightarrow> string \<Rightarrow> string \<Rightarrow> load_error + basic_columns" where
  "basic_columns_of header ipc cidrc =
    (let h = normalizeHeader header in
     case headerIndex h ipc of None \<Rightarrow> Inl (MissingIPColumn ipc)
     | Some i \<Rightarrow> (case headerIndex h cidrc of None \<Rightarrow> Inl (MissingIPCidrColumn cidrc)
        | Some j \<Rightarrow> Inr \<lparr>ipIdx = i, ipCidrIdx = j, fabIdx = headerIndex h ''fab_name'',
             cidrNameIdx = headerIndex h ''cidr_name'', portIdx = headerIndex h ''port'',
             ipCol = ipc, ipCidrCol = cidrc\<rparr>))"

definition validate_loaded :: "ctx \<Rightarrow> CIDRRecord list \<Rightarrow> load_error + CIDRRecord list" where
  "validate_loaded c out = (case ValidateIPRowsContext c out of
     None \<Rightarrow> Inl ValidateLoops
   | Some (Inl e) \<Rightarrow> Inl (LoadInvalid e)
   | Some (Inr _) \<Rightarrow> Inr out)"

lemma validate_loaded_Inr:
  "validate_loaded c out = Inr out' \<longleftrightarrow> out' = out \<and> (\<exists>c'. ValidateIPRowsContext c out = Some (Inr c'))"
  by (auto simp: validate_loaded_def split: option.splits sum.splits)

definition parseCIDRsWithColumnsContext :: "ctx \<Rightarrow> csv \<Rightarrow> string \<Rightarrow> string \<Rightarrow> CIDRLimits \<Rightarrow>
    load_error + CIDRRecord list" where
  "parseCIDRsWithColumnsContext c rd ipc0 cidrc0 limits =
    try_bind (readCSVRecordContext c rd) (\<lambda>(c1, r). case r of None \<Rightarrow> Inl HeaderOnly
      | Some (header, rd1) \<Rightarrow>
    try_bind (readCIDRDataRecord c1 rd1 limits 0) (\<lambda>(c2, r). case r of None \<Rightarrow> Inl HeaderOnly
      | Some (first, rd2) \<Rightarrow>
    let ipc = trim_space ipc0; cidrc = trim_space cidrc0 in
    if ipc = [] \<or> cidrc = [] then Inl ColumnNamesEmpty
    else (case detectRichHeaderIndices header of
       Some richIdx \<Rightarrow> parseRichCSVContext c2 rd2 first richIdx limits
     | None \<Rightarrow>
       try_bind (basic_columns_of header ipc cidrc) (\<lambda>cols.
       try_bind (makeCIDRRecordBuffer (capacity limits)) (\<lambda>out0.
       try_bind (basic_loop cols limits c2 rd2 1 first newBasicRecordPool out0) (\<lambda>(c3, out).
       validate_loaded c3 out))))))"

section \<open>The two-pass load of a file\<close>

function count_loop :: "CIDRLimits \<Rightarrow> ctx \<Rightarrow> csv \<Rightarrow> nat \<Rightarrow> load_error + ctx \<times> nat" where
  "count_loop limits c rd n = (case readCIDRDataRecord c rd limits n of
      Inl e \<Rightarrow> Inl e
    | Inr (c', None) \<Rightarrow> Inr (c', n)
    | Inr (c', Some (row, rd')) \<Rightarrow> count_loop limits c' rd' (n + 1))"
  by pat_completeness auto
termination
  by (relation "measure (\<lambda>(limits, c, rd, n). length rd)") (auto dest!: readCIDRDataRecord_Some)

declare count_loop.simps [simp del]

definition countCIDRFileRecords :: "ctx \<Rightarrow> csv \<Rightarrow> CIDRLimits \<Rightarrow> load_error + ctx \<times> nat" where
  "countCIDRFileRecords c rd limits =
    try_bind (readCSVRecordContext c rd) (\<lambda>(c1, r). case r of None \<Rightarrow> Inl HeaderOnly
      | Some (header, rd1) \<Rightarrow>
    try_bind (count_loop limits c1 rd1 0) (\<lambda>(c2, n).
      if n = 0 then Inl HeaderOnly else Inr (c2, n)))"

text \<open>
  \<open>rd1\<close> and \<open>rd2\<close> are what the two passes over the file read; \<open>seek_ok\<close> is whether the rewind
  between them works.
\<close>

definition loadCIDRsSeekable :: "ctx \<Rightarrow> csv \<Rightarrow> bool \<Rightarrow> csv \<Rightarrow> string \<Rightarrow> string \<Rightarrow> CIDRLimits \<Rightarrow>
    load_error + CIDRRecord list" where
  "loadCIDRsSeekable c rd1 seek_ok rd2 ipc cidrc limits =
    try_bind (countCIDRFileRecords c rd1 limits) (\<lambda>(c1, recordCount).
    if \<not> seek_ok then Inl RewindFailed
    else try_bind (parseCIDRsWithColumnsContext c1 rd2 ipc cidrc (limits\<lparr>capacity := recordCount\<rparr>))
      (\<lambda>records. if length records \<noteq> recordCount
         then Inl (ChangedDuringLoad recordCount (length records)) else Inr records))"

section \<open>ports.go\<close>

datatype port_error =
    PortCanceled | PortCountOverflow nat | PortRecordLimit nat nat | BadPortRow string
  | BadPortNumber string | ScannerError nat

definition parse_port_line :: "string \<Rightarrow> port_error + PortSpec" where
  "parse_port_line line =
    (case split_on CHR ''/'' line of
       [num, proto] \<Rightarrow>
         if to_lower proto \<noteq> ''tcp'' then Inl (BadPortRow line)
         else (case atoi num of None \<Rightarrow> Inl (BadPortNumber line)
           | Some n \<Rightarrow> if n < 1 \<or> 65535 < n then Inl (BadPortNumber line)
               else Inr \<lparr>Number = n, Proto = ''tcp'', Raw = line\<rparr>)
     | _ \<Rightarrow> Inl (BadPortRow line))"

primrec ports_loop :: "PortLimits \<Rightarrow> nat option \<Rightarrow> ctx \<Rightarrow> string list \<Rightarrow> nat \<Rightarrow> nat \<Rightarrow>
    PortSpec list \<Rightarrow> port_error + PortSpec list" where
  \<comment> \<open>\<open>lines\<close> are the texts the Scan calls deliver, \<open>err\<close> what Err returns after the last one\<close>
  "ports_loop limits err c [] lineNumber recordCount out =
    (case ctx_poll 1 c of None \<Rightarrow> Inl PortCanceled
     | Some _ \<Rightarrow> (case err of None \<Rightarrow> Inr out | Some e \<Rightarrow> Inl (ScannerError e)))"
| "ports_loop limits err c (l # ls) lineNumber recordCount out =
    (case ctx_poll 1 c of None \<Rightarrow> Inl PortCanceled
     | Some c' \<Rightarrow>
       let line = trim_space l in
       if line = [] then ports_loop limits err c' ls (Suc lineNumber) recordCount out
       else if recordCount = 2 ^ 64 - 1 then Inl (PortCountOverflow (Suc lineNumber))
       else if 0 < PortMaxRecords limits \<and> PortMaxRecords limits < Suc recordCount
       then Inl (PortRecordLimit (Suc lineNumber) (Suc recordCount))
       else try_bind (parse_port_line line) (\<lambda>p.
         ports_loop limits err c' ls (Suc lineNumber) (Suc recordCount) (out @ [p])))"

definition LoadPortsContextWithLimits ::
  "ctx \<Rightarrow> string list \<Rightarrow> nat option \<Rightarrow> PortLimits \<Rightarrow> port_error + PortSpec list" where
  "LoadPortsContextWithLimits c ls err limits = ports_loop limits err c ls 0 0 []"

section \<open>The bounded reader\<close>

text \<open>
  \<open>src s n\<close> is a \<open>Read\<close> of at most \<open>n\<close> bytes from the underlying \<open>io.Reader\<close> in state \<open>s\<close>: the
  bytes, the error, the new state.
\<close>

datatype io_status = IoNil | IoEOF | IoFail nat

datatype bounded_status = Bounded io_status | SizeLimit nat | ByteCountOverflow

record 's boundedInputReader =
  br_reader :: 's
  br_maxBytes :: nat
  br_consumed :: nat

definition bounded_Read :: "('s \<Rightarrow> nat \<Rightarrow> 8 word list \<times> io_status \<times> 's) \<Rightarrow> nat \<Rightarrow>
    's boundedInputReader \<Rightarrow> 8 word list \<times> bounded_status \<times> 's boundedInputReader" where
  "bounded_Read src len r =
    (if len = 0 then ([], Bounded IoNil, r)
     else (let remaining = br_maxBytes r - min (br_consumed r) (br_maxBytes r) in
       if remaining = 0 then
         (case src (br_reader r) 1 of (bs, st, s') \<Rightarrow>
           if bs \<noteq> [] then ([], SizeLimit (if br_maxBytes r < 2 ^ 64 - 1 then br_maxBytes r + 1
                               else br_maxBytes r), r\<lparr>br_reader := s'\<rparr>)
           else ([], Bounded st, r\<lparr>br_reader := s'\<rparr>))
       else
         (case src (br_reader r) (if remaining < len then remaining + 1 else len) of (bs, st, s') \<Rightarrow>
           if 2 ^ 64 - 1 - br_consumed r < length bs
           then (bs, ByteCountOverflow, r\<lparr>br_reader := s'\<rparr>)
           else (let consumed = br_consumed r + length bs in
             (bs, if br_maxBytes r < consumed then SizeLimit consumed else Bounded st,
              r\<lparr>br_reader := s', br_consumed := consumed\<rparr>)))))"

text \<open>Reads with buffers of the given lengths until one of them returns an error.\<close>

primrec read_session :: "('s \<Rightarrow> nat \<Rightarrow> 8 word list \<times> io_status \<times> 's) \<Rightarrow> nat list \<Rightarrow>
    's boundedInputReader \<Rightarrow> 8 word list \<times> bounded_status" where
  "read_session src [] r = ([], Bounded IoNil)"
| "read_session src (n # ns) r = (case bounded_Read src n r of (bs, st, r') \<Rightarrow>
     if st = Bounded IoNil then (case read_session src ns r' of (cs, st') \<Rightarrow> (bs @ cs, st'))
     else (bs, st))"

lemma read_session_spec:
  assumes src: "\<And>s n bs st s'. src s n = (bs, st, s') \<Longrightarrow>
      length bs \<le> n \<and> content s = bs @ content s' \<and> (st = IoEOF \<longrightarrow> content s' = [])"
    and "k \<le> limit" and "k + length (content s) < 2 ^ 64"
    and "read_session src ns \<lparr>br_reader = s, br_maxBytes = limit, br_consumed = k\<rparr> = (bs, st)"
  shows "(st = Bounded IoEOF \<longrightarrow> bs = content s \<and> k + length bs \<le> limit) \<and>
    ((\<exists>n. st = SizeLimit n) \<longrightarrow> limit < k + length (content s)) \<and> st \<noteq> ByteCountOverflow"
  using assms(2-)
proof (induction ns arbitrary: s k bs st)
  case Nil
  then show ?case by auto
next
  case (Cons n ns)
  let ?r = "\<lparr>br_reader = s, br_maxBytes = limit, br_consumed = k\<rparr>"
  consider (empty) "n = 0" | (full) "n \<noteq> 0" "k = limit" | (more) "n \<noteq> 0" "k < limit"
    using Cons.prems(1) by linarith
  then show ?case
  proof cases
    case empty
    then show ?thesis
      using Cons.IH [OF Cons.prems(1,2)] Cons.prems(3)
      by (auto simp: bounded_Read_def split: prod.splits)
  next
    case full
    obtain b1 st1 s1 where r: "src s 1 = (b1, st1, s1)" by (metis prod_cases3)
    note c = src [OF r]
    show ?thesis
    proof (cases "b1 = []")
      case True
      show ?thesis
      proof (cases "st1 = IoNil")
        case nil: True
        have "read_session src ns \<lparr>br_reader = s1, br_maxBytes = limit, br_consumed = k\<rparr> = (bs, st)"
          using Cons.prems(3) full r True nil
          by (auto simp: bounded_Read_def split: prod.splits)
        from Cons.IH [OF Cons.prems(1) _ this] show ?thesis using c True Cons.prems(2) by auto
      next
        case False
        then have "bs = []" "st = Bounded st1"
          using Cons.prems(3) full r True by (auto simp: bounded_Read_def)
        then show ?thesis using c True full by auto
      qed
    next
      case False
      then have "bs = [] \<and> (\<exists>m. st = SizeLimit m)"
        using Cons.prems(3) full r by (auto simp: bounded_Read_def)
      moreover have "0 < length (content s)" using c False by auto
      ultimately show ?thesis using full by auto
    qed
  next
    case more
    define want where "want = (if limit - k < n then limit - k + 1 else n)"
    obtain b1 st1 s1 where r: "src s want = (b1, st1, s1)" by (metis prod_cases3)
    note c = src [OF r]
    have no_overflow: "\<not> 2 ^ 64 - 1 - k < length b1" using c Cons.prems(2) by auto
    have step: "bounded_Read src n ?r = (b1, if limit < k + length b1 then SizeLimit (k + length b1)
        else Bounded st1, \<lparr>br_reader = s1, br_maxBytes = limit, br_consumed = k + length b1\<rparr>)"
      using more r no_overflow by (simp add: bounded_Read_def want_def Let_def min_def)
    show ?thesis
    proof (cases "limit < k + length b1")
      case True
      then show ?thesis using Cons.prems(3) step c by auto
    next
      case False
      show ?thesis
      proof (cases "st1 = IoNil")
        case nil: True
        obtain cs st' where "read_session src ns
            \<lparr>br_reader = s1, br_maxBytes = limit, br_consumed = k + length b1\<rparr> = (cs, st')"
          by (metis surj_pair)
        moreover from this have "bs = b1 @ cs" "st = st'"
          using Cons.prems(3) step False nil by auto
        ultimately show ?thesis
          using Cons.IH [of "k + length b1" s1 cs st'] False c Cons.prems(2)
          by (auto simp: add.assoc)
      next
        case f: False
        then show ?thesis using Cons.prems(3) step False c by auto
      qed
    qed
  qed
qed

section \<open>The pools do not change what is loaded\<close>

primrec plain_rows :: "basic_columns \<Rightarrow> nat \<Rightarrow> string list list \<Rightarrow> load_error + CIDRRecord list" where
  "plain_rows cols n [] = Inr []"
| "plain_rows cols n (row # rows) =
     try_bind (basic_row_record cols row (int (n + 1))) (\<lambda>r0.
     try_bind (parse_error (int (n + 1)) (record_Parse r0)) (\<lambda>r.
     try_bind (plain_rows cols (n + 1) rows) (\<lambda>rs. Inr (r # rs))))"

lemma read_Background:
  assumes "MaxRecords limits = 0 \<or> n + 1 \<le> MaxRecords limits" and "n \<noteq> 2 ^ 64 - 1"
  shows "readCIDRDataRecord None (Inr row # rd) limits n = Inr (None, Some (row, rd))"
    and "readCIDRDataRecord None [] limits n = Inr (None, None)"
  using assms by (auto simp: readCIDRDataRecord_def readCSVRecordContext_def)

lemma parse_pool:
  assumes "pool_ok pool"
  obtains (err) e where "parse_error n (pool_parse pool r0) = Inl e" "parse_error n (record_Parse r0) = Inl e"
    | (ok) r pool' where "parse_error n (pool_parse pool r0) = Inr (r, pool')"
        "parse_error n (record_Parse r0) = Inr r" "pool_ok pool'"
  using pool_parse_correct [OF assms, of r0]
  by (auto simp: parse_error_def split: sum.splits)

lemma basic_loop_plain:
  assumes "pool_ok pool" and "MaxRecords limits = 0 \<or> n + length rows \<le> MaxRecords limits"
    and "n + length rows < 2 ^ 64"
  shows "basic_loop cols limits None (map Inr rows) n row pool out =
    (case plain_rows cols n (row # rows) of Inl e \<Rightarrow> Inl e | Inr rs \<Rightarrow> Inr (None, out @ rs))"
  using assms
proof (induction rows arbitrary: n row pool out)
  case Nil
  have rd: "readCIDRDataRecord None [] limits n = Inr (None, None)"
    by (simp add: readCIDRDataRecord_def readCSVRecordContext_def)
  show ?case
  proof (cases "basic_row_record cols row (int (n + 1))")
    case (Inr r0)
    show ?thesis
      using Nil(1)
    proof (cases rule: parse_pool [where n = "int (n + 1)" and ?r0.0 = r0])
      case (err e)
      then show ?thesis using Inr by (subst basic_loop.simps) simp
    next
      case (ok r pool')
      then show ?thesis using Inr rd by (subst basic_loop.simps) simp
    qed
  qed (subst basic_loop.simps, simp)
next
  case (Cons row' rows)
  have rd: "readCIDRDataRecord None (map Inr (row' # rows)) limits n = Inr (None, Some (row', map Inr rows))"
  proof -
    have "MaxRecords limits = 0 \<or> n + 1 \<le> MaxRecords limits" "n \<noteq> 2 ^ 64 - 1"
      using Cons.prems(2,3) by auto
    then show ?thesis by (simp add: read_Background)
  qed
  show ?case
  proof (cases "basic_row_record cols row (int (n + 1))")
    case (Inr r0)
    show ?thesis
      using Cons.prems(1)
    proof (cases rule: parse_pool [where n = "int (n + 1)" and ?r0.0 = r0])
      case (err e)
      then show ?thesis using Inr by (subst basic_loop.simps) simp
    next
      case (ok r pool')
      have IH: "basic_loop cols limits None (map Inr rows) (n + 1) row' pool' (out @ [r]) =
          (case plain_rows cols (n + 1) (row' # rows) of Inl e \<Rightarrow> Inl e
           | Inr rs \<Rightarrow> Inr (None, (out @ [r]) @ rs))"
        using Cons.prems ok(3) by (intro Cons.IH) auto
      have "basic_loop cols limits None (map Inr (row' # rows)) n row pool out =
          basic_loop cols limits None (map Inr rows) (n + 1) row' pool' (out @ [r])"
        using Inr ok rd by (subst basic_loop.simps) (simp del: list.map plain_rows.simps)
      also have "\<dots> = (case plain_rows cols n (row # row' # rows) of Inl e \<Rightarrow> Inl e
           | Inr rs \<Rightarrow> Inr (None, out @ rs))"
        unfolding IH plain_rows.simps(2) [of cols n row "row' # rows"] Inr try_bind_Inr ok(2)
        by (cases "plain_rows cols (n + 1) (row' # rows)") simp_all
      finally show ?thesis .
    qed
  qed (subst basic_loop.simps, simp)
qed

section \<open>Record counts\<close>

text \<open>The three outcomes of reading one more record.\<close>

lemma read_outcomes:
  obtains (err) e where "readCIDRDataRecord c rd limits n = Inl e"
    | (eof) c' where "readCIDRDataRecord c rd limits n = Inr (c', None)" "rd = []"
    | (row) c' row rd' where "readCIDRDataRecord c rd limits n = Inr (c', Some (row, rd'))"
        "rd = Inr row # rd'" "0 < MaxRecords limits \<longrightarrow> n + 1 \<le> MaxRecords limits"
proof (cases "readCIDRDataRecord c rd limits n")
  case (Inr p)
  obtain c' o' where p: "p = (c', o')" by (cases p)
  show thesis
  proof (cases o')
    case None
    then show thesis using eof Inr p readCIDRDataRecord_None by blast
  next
    case (Some q)
    obtain r rd' where q: "q = (r, rd')" by (cases q)
    have "readCIDRDataRecord c rd limits n = Inr (c', Some (r, rd'))" using Inr p Some q by simp
    then show thesis using row readCIDRDataRecord_Some by blast
  qed
qed (rule err)

lemma count_loop_Inr:
  assumes "count_loop limits c rd n = Inr (c', m)"
  shows "\<exists>rows. rd = map Inr rows \<and> m = n + length rows \<and>
    (0 < MaxRecords limits \<and> rows \<noteq> [] \<longrightarrow> m \<le> MaxRecords limits)"
  using assms
proof (induction rd arbitrary: c n rule: length_induct)
  case (1 rd)
  show ?case
  proof (cases rule: read_outcomes [of c rd limits n])
    case (err e)
    then show ?thesis using 1(2) by (subst (asm) count_loop.simps) simp
  next
    case (eof c1)
    then have "m = n" using 1(2) by (subst (asm) count_loop.simps) simp
    then show ?thesis using eof by auto
  next
    case (row c1 r rd')
    have "count_loop limits c1 rd' (n + 1) = Inr (c', m)"
      using 1(2) row(1) by (subst (asm) count_loop.simps) simp
    then obtain rows where "rd' = map Inr rows" "m = n + 1 + length rows"
        "0 < MaxRecords limits \<and> rows \<noteq> [] \<longrightarrow> m \<le> MaxRecords limits"
      using 1(1) row(2) by fastforce
    then show ?thesis using row(2,3) by (intro exI [of _ "r # rows"]) auto
  qed
qed

lemma basic_loop_Inr:
  assumes "basic_loop cols limits c rd n row pool out = Inr (c', out')"
  shows "\<exists>rows. rd = map Inr rows \<and> length out' = length out + 1 + length rows"
  using assms
proof (induction rd arbitrary: c n row pool out rule: length_induct)
  case (1 rd)
  from 1(2) obtain c1 r0 r pool' where s: "ctx_poll 1 c = Some c1"
      "basic_row_record cols row (int (n + 1)) = Inr r0"
      "parse_error (int (n + 1)) (pool_parse pool r0) = Inr (r, pool')"
    by (subst (asm) basic_loop.simps) (auto simp: try_bind_eq_Inr split: option.split_asm)
  show ?case
  proof (cases rule: read_outcomes [of c1 rd limits n])
    case (err e)
    then show ?thesis using 1(2) s by (subst (asm) basic_loop.simps) simp
  next
    case (eof c2)
    then have "out' = out @ [r]" using 1(2) s by (subst (asm) basic_loop.simps) simp
    then show ?thesis using eof by auto
  next
    case (row c2 row' rd')
    have "basic_loop cols limits c2 rd' (n + 1) row' pool' (out @ [r]) = Inr (c', out')"
      using 1(2) s row(1) by (subst (asm) basic_loop.simps) simp
    then obtain rows where "rd' = map Inr rows" "length out' = length (out @ [r]) + 1 + length rows"
      using 1(1) row(2) by fastforce
    then show ?thesis using row(2) by (intro exI [of _ "row' # rows"]) auto
  qed
qed

lemma rich_csv_loop_Inr:
  assumes "rich_csv_loop limits idx c rd n row v out = Inr (v', out')"
  shows "\<exists>rows. rd = map Inr rows \<and> length out' = length out + 1 + length rows"
  using assms
proof (induction rd arbitrary: c n row v out rule: length_induct)
  case (1 rd)
  from 1(2) obtain c1 where s: "ctx_poll 1 c = Some c1"
    by (subst (asm) rich_csv_loop.simps) (auto split: option.split_asm)
  obtain v1 out1 where o1: "(case parseRichRow row (int (n + 1)) idx of
      Inl e \<Rightarrow> (v, out @ [invalid_rich (int (n + 1)) e]) | Inr r \<Rightarrow> (Suc v, out @ [r])) = (v1, out1)"
    by (meson surj_pair)
  then have len: "length out1 = length out + 1" by (auto split: sum.splits)
  show ?case
  proof (cases rule: read_outcomes [of c1 rd limits n])
    case (err e)
    then show ?thesis
      using 1(2) by (subst (asm) rich_csv_loop.simps)
        (simp only: Let_def s o1 option.case prod.case sum.case sum.simps)
  next
    case (eof c2)
    then have "out' = out1"
      using 1(2) by (subst (asm) rich_csv_loop.simps)
        (simp only: Let_def s o1 eof(1) option.case prod.case sum.case sum.inject prod.inject)
    then show ?thesis using eof len by auto
  next
    case (row c2 row' rd')
    have "rich_csv_loop limits idx c2 rd' (n + 1) row' v1 out1 = Inr (v', out')"
      using 1(2) by (subst (asm) rich_csv_loop.simps)
        (simp only: Let_def s o1 row(1) option.case prod.case sum.case)
    then obtain rows where "rd' = map Inr rows" "length out' = length out1 + 1 + length rows"
      using 1(1) row(2) by fastforce
    then show ?thesis using row(2) len by (intro exI [of _ "row' # rows"]) auto
  qed
qed

text \<open>A load that succeeds parsed every data row of its pass, whatever mode the header selects.\<close>

lemma parseCIDRs_length:
  assumes "parseCIDRsWithColumnsContext c rd ipc cidrc limits = Inr out"
  shows "\<exists>header rows. rd = Inr header # map Inr rows \<and> length out = length rows"
proof -
  from assms obtain c1 header rd1 where h: "readCSVRecordContext c rd = Inr (c1, Some (header, rd1))"
    by (auto simp: parseCIDRsWithColumnsContext_def try_bind_eq_Inr split: option.split_asm)
  have rd: "rd = Inr header # rd1" using readCSVRecord_shorter [OF h] .
  have body: "try_bind (readCIDRDataRecord c1 rd1 limits 0) (\<lambda>(c2, r). case r of None \<Rightarrow> Inl HeaderOnly
      | Some (first, rd2) \<Rightarrow>
    let ipc = trim_space ipc; cidrc = trim_space cidrc in
    if ipc = [] \<or> cidrc = [] then Inl ColumnNamesEmpty
    else (case detectRichHeaderIndices header of
       Some richIdx \<Rightarrow> parseRichCSVContext c2 rd2 first richIdx limits
     | None \<Rightarrow>
       try_bind (basic_columns_of header ipc cidrc) (\<lambda>cols.
       try_bind (makeCIDRRecordBuffer (capacity limits)) (\<lambda>out0.
       try_bind (basic_loop cols limits c2 rd2 1 first newBasicRecordPool out0) (\<lambda>(c3, out).
       validate_loaded c3 out))))) = Inr out"
    using assms by (simp add: parseCIDRsWithColumnsContext_def h)
  show ?thesis
  proof (cases rule: read_outcomes [of c1 rd1 limits 0])
    case (row c2 first rd2)
    have "\<exists>rows. rd2 = map Inr rows \<and> length out = 1 + length rows"
    proof (cases "detectRichHeaderIndices header")
      case (Some idx)
      then obtain v where "rich_csv_loop limits idx c2 rd2 1 first 0 [] = Inr (v, out)"
        using body row(1)
        by (auto simp: Let_def parseRichCSVContext_def makeCIDRRecordBuffer_def try_bind_eq_Inr
            split: if_splits)
      then show ?thesis using rich_csv_loop_Inr by fastforce
    next
      case None
      then obtain cols c3 where
        "basic_loop cols limits c2 rd2 1 first newBasicRecordPool [] = Inr (c3, out)"
        using body row(1)
        by (auto simp: Let_def makeCIDRRecordBuffer_def try_bind_eq_Inr
              validate_loaded_Inr split: if_splits)
      then show ?thesis using basic_loop_Inr by fastforce
    qed
    then obtain rows where "rd2 = map Inr rows" "length out = 1 + length rows" by blast
    then show ?thesis
      using rd row(2) by (intro exI [of _ header] exI [of _ "first # rows"]) simp
  qed (use body in simp_all)
qed

section \<open>Only the comparison of the two passes reports a change\<close>

definition changed :: "load_error \<Rightarrow> bool" where
  "changed e \<longleftrightarrow> (\<exists>m n. e = ChangedDuringLoad m n)"

lemma header_read_no_change: "readCSVRecordContext c rd = Inl e \<Longrightarrow> \<not> changed e"
  by (auto simp: readCSVRecordContext_def changed_def split: option.splits list.splits sum.splits)

lemma read_no_change: "readCIDRDataRecord c rd limits n = Inl e \<Longrightarrow> \<not> changed e"
  by (auto simp: readCIDRDataRecord_def try_bind_eq_Inl changed_def split: option.splits if_splits
      dest: header_read_no_change [unfolded changed_def])

lemma basic_row_no_change: "basic_row_record cols row n = Inl e \<Longrightarrow> \<not> changed e"
  by (auto simp: basic_row_record_def basic_port_def try_bind_eq_Inl changed_def Let_def
      split: if_splits option.splits)

lemma parse_error_no_change: "parse_error n r = Inl e \<Longrightarrow> \<not> changed e"
  by (auto simp: parse_error_def changed_def split: sum.splits)

lemma basic_loop_no_change: "basic_loop cols limits c rd n row pool out = Inl e \<Longrightarrow> \<not> changed e"
proof (induction rd arbitrary: c n row pool out rule: length_induct)
  case (1 rd)
  show ?case
  proof (cases "\<exists>c1 r0 r pool'. ctx_poll 1 c = Some c1 \<and> basic_row_record cols row (int (n + 1)) = Inr r0 \<and>
      parse_error (int (n + 1)) (pool_parse pool r0) = Inr (r, pool')")
    case True
    then obtain c1 r0 r pool' where s: "ctx_poll 1 c = Some c1"
      "basic_row_record cols row (int (n + 1)) = Inr r0"
      "parse_error (int (n + 1)) (pool_parse pool r0) = Inr (r, pool')" by blast
    show ?thesis
    proof (cases rule: read_outcomes [of c1 rd limits n])
      case (err e')
      then have "e' = e" using 1(2) s by (subst (asm) basic_loop.simps) simp
      then show ?thesis using err read_no_change by blast
    next
      case (eof c2)
      then show ?thesis using 1(2) s by (subst (asm) basic_loop.simps) simp
    next
      case (row c2 row' rd')
      then have "basic_loop cols limits c2 rd' (n + 1) row' pool' (out @ [r]) = Inl e"
        using 1(2) s by (subst (asm) basic_loop.simps) simp
      then show ?thesis using 1(1) row(2) by fastforce
    qed
  next
    case False
    then consider "ctx_poll 1 c = None"
      | c1 e1 where "ctx_poll 1 c = Some c1" "basic_row_record cols row (int (n + 1)) = Inl e1"
      | c1 r0 e1 where "ctx_poll 1 c = Some c1" "basic_row_record cols row (int (n + 1)) = Inr r0"
          "parse_error (int (n + 1)) (pool_parse pool r0) = Inl e1"
      by (metis not_None_eq sum.exhaust surj_pair)
    then show ?thesis
    proof cases
      case 1
      then show ?thesis using "1.prems" by (subst (asm) basic_loop.simps) (auto simp: changed_def)
    next
      case 2
      then show ?thesis
        using "1.prems" basic_row_no_change by (subst (asm) basic_loop.simps) fastforce
    next
      case 3
      then show ?thesis
        using "1.prems" parse_error_no_change by (subst (asm) basic_loop.simps) fastforce
    qed
  qed
qed

lemma rich_csv_loop_no_change:
  "rich_csv_loop limits idx c rd n row v out = Inl e \<Longrightarrow> \<not> changed e"
proof (induction rd arbitrary: c n row v out rule: length_induct)
  case (1 rd)
  show ?case
  proof (cases "ctx_poll 1 c")
    case None
    then show ?thesis using 1(2) by (subst (asm) rich_csv_loop.simps) (auto simp: changed_def)
  next
    case (Some c1)
    obtain v1 out1 where o1: "(case parseRichRow row (int (n + 1)) idx of
      Inl e \<Rightarrow> (v, out @ [invalid_rich (int (n + 1)) e]) | Inr r \<Rightarrow> (Suc v, out @ [r])) = (v1, out1)"
      by (meson surj_pair)
    show ?thesis
    proof (cases rule: read_outcomes [of c1 rd limits n])
      case (err e')
      then have "e' = e"
        using 1(2) by (subst (asm) rich_csv_loop.simps)
          (simp only: Let_def Some o1 option.case prod.case sum.case sum.inject)
      then show ?thesis using err read_no_change by blast
    next
      case (eof c2)
      then show ?thesis
        using 1(2) by (subst (asm) rich_csv_loop.simps)
          (simp only: Let_def Some o1 option.case prod.case sum.case sum.simps)
    next
      case (row c2 row' rd')
      then have "rich_csv_loop limits idx c2 rd' (n + 1) row' v1 out1 = Inl e"
        using 1(2) by (subst (asm) rich_csv_loop.simps)
          (simp only: Let_def Some o1 option.case prod.case sum.case)
      then show ?thesis using 1(1) row(2) by fastforce
    qed
  qed
qed

text \<open>The same over results, so that it composes along \<open>try_bind\<close>.\<close>

definition unchanged :: "load_error + 'a \<Rightarrow> bool" where
  "unchanged r \<longleftrightarrow> (\<forall>e. r = Inl e \<longrightarrow> \<not> changed e)"

lemma unchanged_Inr [simp]: "unchanged (Inr a)"
  by (simp add: unchanged_def)

lemma unchanged_Inl [simp]: "unchanged (Inl e) \<longleftrightarrow> \<not> changed e"
  by (simp add: unchanged_def)

lemma unchanged_bind: "unchanged r \<Longrightarrow> (\<And>a. unchanged (f a)) \<Longrightarrow> unchanged (try_bind r f)"
  by (cases r) auto

lemma unchanged_option: "unchanged n \<Longrightarrow> (\<And>a. unchanged (f a)) \<Longrightarrow>
    unchanged (case x of None \<Rightarrow> n | Some a \<Rightarrow> f a)"
  by (cases x) auto

lemma unchanged_pair: "(\<And>a b. unchanged (f a b)) \<Longrightarrow> unchanged (case x of (a, b) \<Rightarrow> f a b)"
  by (cases x) auto

lemma unchanged_if: "unchanged a \<Longrightarrow> unchanged b \<Longrightarrow> unchanged (if c then a else b)"
  by simp

lemma not_changed [simp]: "\<not> changed LoadCanceled" "\<not> changed HeaderOnly" "\<not> changed NoUsable"
  "\<not> changed ColumnNamesEmpty" "\<not> changed (MissingIPColumn s)" "\<not> changed (MissingIPCidrColumn s)"
  "\<not> changed (CapacityTooLarge n)" "\<not> changed (LoadInvalid v)" "\<not> changed ValidateLoops"
  by (simp_all add: changed_def)

lemma unchanged_parts: "unchanged (readCSVRecordContext c rd)" "unchanged (readCIDRDataRecord c rd limits n)"
  "unchanged (basic_loop cols limits c rd n row pool out)"
  "unchanged (rich_csv_loop limits idx c rd n row v out)" "unchanged (validate_loaded c out)"
  "unchanged (makeCIDRRecordBuffer n)" "unchanged (basic_columns_of h i j)"
  using header_read_no_change read_no_change basic_loop_no_change rich_csv_loop_no_change
  by (auto simp: unchanged_def validate_loaded_def makeCIDRRecordBuffer_def basic_columns_of_def
      Let_def split: option.splits sum.splits if_splits)

lemmas unchanged_rules = unchanged_bind unchanged_option unchanged_pair unchanged_if unchanged_parts

lemma parse_no_change: "unchanged (parseCIDRsWithColumnsContext c rd ipc cidrc limits)"
  unfolding parseCIDRsWithColumnsContext_def parseRichCSVContext_def Let_def
  by (intro unchanged_rules) simp_all

lemma count_loop_no_change: "count_loop limits c rd n = Inl e \<Longrightarrow> \<not> changed e"
proof (induction rd arbitrary: c n rule: length_induct)
  case (1 rd)
  show ?case
  proof (cases rule: read_outcomes [of c rd limits n])
    case (err e')
    then have "e' = e" using 1(2) by (subst (asm) count_loop.simps) simp
    then show ?thesis using err read_no_change by blast
  next
    case (eof c')
    then show ?thesis using 1(2) by (subst (asm) count_loop.simps) simp
  next
    case (row c' r rd')
    then have "count_loop limits c' rd' (n + 1) = Inl e"
      using 1(2) by (subst (asm) count_loop.simps) simp
    then show ?thesis using 1(1) row(2) by fastforce
  qed
qed

lemma count_no_change: "unchanged (countCIDRFileRecords c rd limits)"
proof -
  have "unchanged (count_loop limits c rd n)" for c rd n
    using count_loop_no_change by (simp add: unchanged_def)
  then show ?thesis
    unfolding countCIDRFileRecords_def by (intro unchanged_rules) simp_all
qed

section \<open>Properties\<close>

lemma basic_load_plain:
  assumes "detectRichHeaderIndices header = None"
    and "trim_space ipc \<noteq> []" and "trim_space cidrc \<noteq> []" and "capacity limits < 2 ^ 63"
    and "MaxRecords limits = 0 \<or> 1 + length rows \<le> MaxRecords limits" and "1 + length rows < 2 ^ 64"
  shows "parseCIDRsWithColumnsContext None (Inr header # Inr first # map Inr rows) ipc cidrc limits =
    try_bind (basic_columns_of header (trim_space ipc) (trim_space cidrc)) (\<lambda>cols.
    try_bind (plain_rows cols 1 (first # rows)) (\<lambda>out. validate_loaded None out))"
proof -
  have h: "readCSVRecordContext None (Inr header # rd) = Inr (None, Some (header, rd))" for rd
    by (simp add: readCSVRecordContext_def)
  have f: "readCIDRDataRecord None (Inr first # map Inr rows) limits 0 = Inr (None, Some (first, map Inr rows))"
    using assms(5) by (intro read_Background) auto
  show ?thesis
  proof (cases "basic_columns_of header (trim_space ipc) (trim_space cidrc)")
    case (Inr cols)
    have "basic_loop cols limits None (map Inr rows) 1 first newBasicRecordPool [] =
      (case plain_rows cols 1 (first # rows) of Inl e \<Rightarrow> Inl e | Inr rs \<Rightarrow> Inr (None, [] @ rs))"
      using assms(5,6) by (intro basic_loop_plain) auto
    then show ?thesis
      using assms(1-4) Inr h f
      by (simp add: parseCIDRsWithColumnsContext_def makeCIDRRecordBuffer_def Let_def
          del: plain_rows.simps split: sum.split)
  qed (use assms(1-4) h f in \<open>simp add: parseCIDRsWithColumnsContext_def Let_def\<close>)
qed

text \<open>
  C37: in basic mode the string and boundary pools never change what is loaded: reading a file
  without CSV errors, within the limits and without cancellation, gives exactly the records that
  \<open>CIDRRecord.Parse\<close> computes row by row, validated at the end.
\<close>

theorem basic_load_pool_free:
  assumes "detectRichHeaderIndices header = None"
    and "trim_space ipc \<noteq> []" and "trim_space cidrc \<noteq> []" and "capacity limits < 2 ^ 63"
    and "MaxRecords limits = 0 \<or> 1 + length rows \<le> MaxRecords limits" and "1 + length rows < 2 ^ 64"
  shows "parseCIDRsWithColumnsContext None (Inr header # Inr first # map Inr rows) ipc cidrc limits =
    try_bind (basic_columns_of header (trim_space ipc) (trim_space cidrc)) (\<lambda>cols.
    try_bind (plain_rows cols 1 (first # rows)) (\<lambda>out. validate_loaded None out))"
  by (rule basic_load_plain [OF assms])

lemma basic_load_pool_free_witness:
  "parseCIDRsWithColumnsContext None [Inr [''ip'', ''ip_cidr''], Inr [''10.0.0.1'', ''10.0.0.0/24'']]
     ''ip'' ''ip_cidr'' (DefaultCIDRLimits []) =
   try_bind (basic_columns_of [''ip'', ''ip_cidr''] (trim_space ''ip'') (trim_space ''ip_cidr'')) (\<lambda>cols.
   try_bind (plain_rows cols 1 [[''10.0.0.1'', ''10.0.0.0/24'']]) (\<lambda>out. validate_loaded None out))"
proof -
  have "detectRichHeaderIndices [''ip'', ''ip_cidr''] = None" by code_simp
  moreover have "trim_space ''ip'' \<noteq> []" "trim_space ''ip_cidr'' \<noteq> []" by code_simp+
  ultimately show ?thesis
    using basic_load_pool_free [of "[''ip'', ''ip_cidr'']" "''ip''" "''ip_cidr''" "DefaultCIDRLimits []"
        "[]" "[''10.0.0.1'', ''10.0.0.0/24'']"]
    by (simp add: DefaultCIDRLimits_def)
qed

definition small_file :: csv where
  "small_file = [Inr [''ip'', ''ip_cidr''], Inr [''10.0.0.1'', ''10.0.0.0/24'']]"

lemma small_file_loads:
  "\<exists>records. loadCIDRsSeekable None small_file True small_file ''ip'' ''ip_cidr'' (DefaultCIDRLimits []) = Inr records"
proof -
  let ?rows = "try_bind (basic_columns_of [''ip'', ''ip_cidr''] (trim_space ''ip'') (trim_space ''ip_cidr'')) (\<lambda>cols.
     plain_rows cols 1 [[''10.0.0.1'', ''10.0.0.0/24'']])"
  have "case ?rows of Inl e \<Rightarrow> False | Inr records \<Rightarrow> length records = 1 \<and> list_all (\<lambda>r. Net r \<noteq> None \<and>
      Selector r \<noteq> None \<and> row_key r \<noteq> None \<and> networkContains (Net r) (Selector r)) records"
    by code_simp
  then obtain cols r where cols: "basic_columns_of [''ip'', ''ip_cidr''] (trim_space ''ip'') (trim_space ''ip_cidr'') = Inr cols"
    and r: "plain_rows cols 1 [[''10.0.0.1'', ''10.0.0.0/24'']] = Inr [r]"
    and good: "Net r \<noteq> None" "Selector r \<noteq> None" "row_key r \<noteq> None" "networkContains (Net r) (Selector r)"
    by (auto simp: try_bind_def length_Suc_conv split: sum.splits)
  have "ValidateIPRowsContext None [r] = Some (Inr None)"
    by (subst validate_Background_iff) (simp_all add: good)
  then have valid: "validate_loaded None [r] = Inr [r]"
    by (simp add: validate_loaded_def)
  have names: "detectRichHeaderIndices [''ip'', ''ip_cidr''] = None" "trim_space ''ip'' \<noteq> []" "trim_space ''ip_cidr'' \<noteq> []"
    by code_simp+
  have count: "countCIDRFileRecords None small_file (DefaultCIDRLimits []) = Inr (None, 1)"
    by (simp add: small_file_def countCIDRFileRecords_def readCSVRecordContext_def count_loop.simps
        readCIDRDataRecord_def DefaultCIDRLimits_def)
  have "parseCIDRsWithColumnsContext None small_file ''ip'' ''ip_cidr'' ((DefaultCIDRLimits [])\<lparr>capacity := 1\<rparr>) = Inr [r]"
    using basic_load_plain [OF names, of "(DefaultCIDRLimits [])\<lparr>capacity := 1\<rparr>" "[]" "[''10.0.0.1'', ''10.0.0.0/24'']"]
      cols r valid by (simp add: small_file_def DefaultCIDRLimits_def del: plain_rows.simps)
  then show ?thesis
    using count by (simp add: loadCIDRsSeekable_def)
qed

text \<open>
  the two-pass load of a file that does not change never reports that it changed, and a
  successful load returns one record per data row and respects the record limit.
\<close>

theorem unchanged_file_load:
  "(\<forall>m n. loadCIDRsSeekable c rd seek_ok rd ipc cidrc limits \<noteq> Inl (ChangedDuringLoad m n)) \<and>
   (\<forall>records. loadCIDRsSeekable c rd seek_ok rd ipc cidrc limits = Inr records \<longrightarrow>
      records \<noteq> [] \<and> length records + 1 = length rd \<and>
      (0 < MaxRecords limits \<longrightarrow> length records \<le> MaxRecords limits))"
proof (cases "countCIDRFileRecords c rd limits")
  case (Inl e)
  have "e \<noteq> ChangedDuringLoad m n" for m n
    using count_no_change [of c rd limits] Inl by (auto simp: changed_def)
  then show ?thesis using Inl by (simp add: loadCIDRsSeekable_def)
next
  case (Inr p)
  obtain c1 m where p: "p = (c1, m)" by (cases p)
  from Inr p obtain c0 header rd1 where rd: "rd = Inr header # rd1"
      "count_loop limits c0 rd1 0 = Inr (c1, m)" "m \<noteq> 0"
    by (auto simp: countCIDRFileRecords_def try_bind_eq_Inr dest!: readCSVRecord_shorter
        split: option.split_asm if_splits)
  from count_loop_Inr [OF rd(2)] obtain rows where rows: "rd1 = map Inr rows" "m = length rows"
      "0 < MaxRecords limits \<and> rows \<noteq> [] \<longrightarrow> m \<le> MaxRecords limits"
    by auto
  have len: "length out = m"
    if "parseCIDRsWithColumnsContext c1 rd ipc cidrc limits' = Inr out" for out limits'
    using parseCIDRs_length [OF that] rd(1) rows(1,2) by auto
  have no_change: "parseCIDRsWithColumnsContext c1 rd ipc cidrc limits' \<noteq> Inl (ChangedDuringLoad a b)"
    for limits' a b
    using parse_no_change [of c1 rd ipc cidrc limits'] by (auto simp: unchanged_def changed_def)
  show ?thesis
    using Inr p rd rows len no_change
    by (auto simp: loadCIDRsSeekable_def try_bind_eq_Inr try_bind_eq_Inl)
qed

lemma unchanged_file_load_witness:
  "\<exists>records. loadCIDRsSeekable None small_file True small_file ''ip'' ''ip_cidr'' (DefaultCIDRLimits []) = Inr records
   \<and> length records = 1"
proof -
  obtain records where
    load: "loadCIDRsSeekable None small_file True small_file ''ip'' ''ip_cidr'' (DefaultCIDRLimits []) = Inr records"
    using small_file_loads by blast
  then have "length records + 1 = length small_file"
    using unchanged_file_load [of None small_file True "''ip''" "''ip_cidr''" "DefaultCIDRLimits []"] by blast
  then show ?thesis
    using load by (auto simp: small_file_def)
qed

text \<open>
  C38: the bounded reader is exact. Over any source that keeps the \<open>io.Reader\<close> contract, a session
  that ends with EOF has delivered all bytes of the source and they fit the limit; a size error is
  reported only when the source holds more bytes than the limit; and the byte counter cannot
  overflow when the source is shorter than 2^64 bytes.
\<close>

theorem bounded_reader_exact:
  assumes src: "\<And>s n bs st s'. src s n = (bs, st, s') \<Longrightarrow>
      length bs \<le> n \<and> content s = bs @ content s' \<and> (st = IoEOF \<longrightarrow> content s' = [])"
    and "length (content s) < 2 ^ 64"
    and "read_session src ns \<lparr>br_reader = s, br_maxBytes = limit, br_consumed = 0\<rparr> = (bs, st)"
  shows "(st = Bounded IoEOF \<longrightarrow> bs = content s \<and> length bs \<le> limit) \<and>
    ((\<exists>n. st = SizeLimit n) \<longrightarrow> limit < length (content s)) \<and> st \<noteq> ByteCountOverflow"
  using read_session_spec [OF src, where k = 0] assms(2,3) by simp

primrec list_source :: "8 word list \<Rightarrow> nat \<Rightarrow> 8 word list \<times> io_status \<times> 8 word list" where
  "list_source [] n = ([], IoEOF, [])"
| "list_source (b # bs) n = (take n (b # bs), IoNil, drop n (b # bs))"

lemma bounded_reader_exact_witness:
  "read_session list_source [4, 4, 4] \<lparr>br_reader = [1, 2, 3], br_maxBytes = 3, br_consumed = 0\<rparr>
     = ([1, 2, 3], Bounded IoEOF) \<and>
   3 < length [1, 2, 3, 4 :: 8 word]"
proof -
  have src: "length bs \<le> n \<and> s = bs @ s' \<and> (st = IoEOF \<longrightarrow> s' = [])"
    if "list_source s n = (bs, st, s')" for s n bs st s'
    using that by (cases s) auto
  have "read_session list_source [4, 4] \<lparr>br_reader = [1, 2, 3, 4], br_maxBytes = 3, br_consumed = 0\<rparr>
     = ([1, 2, 3, 4], SizeLimit 4)"
    by (simp add: bounded_Read_def Let_def)
  from bounded_reader_exact [where content = "\<lambda>s. s", OF src _ this]
  have "3 < length [1, 2, 3, 4 :: 8 word]" by simp
  moreover have "read_session list_source [4, 4, 4]
      \<lparr>br_reader = [1, 2, 3], br_maxBytes = 3, br_consumed = 0\<rparr> = ([1, 2, 3], Bounded IoEOF)"
    by (simp add: bounded_Read_def Let_def)
  ultimately show ?thesis by blast
qed

text \<open>
  a port file in which every line is \<open>n/tcp\<close> with a port number loads as exactly those ports,
  in order, when the record limit admits them; with one port too many it is refused.
\<close>

definition port_line :: "int \<Rightarrow> string" where
  "port_line n = itoa n @ ''/tcp''"

lemma parse_port_line_print:
  assumes "1 \<le> n" and "n \<le> 65535"
  shows "parse_port_line (port_line n) = Inr \<lparr>Number = n, Proto = ''tcp'', Raw = port_line n\<rparr>"
    and "trim_space (port_line n) = port_line n" and "port_line n \<noteq> []"
proof -
  have d: "itoa n = nat_digits (nat n)" using assms(1) by (simp add: itoa_def)
  have "split_on CHR ''/'' (port_line n) = [nat_digits (nat n), ''tcp'']"
    by (simp add: port_line_def d split_on_append nat_digits_no_sep)
  moreover have "to_lower ''tcp'' = ''tcp''" by code_simp
  moreover have "atoi (nat_digits (nat n)) = Some n"
    using assms by (simp add: atoi_nat_digits)
  ultimately show "parse_port_line (port_line n) = Inr \<lparr>Number = n, Proto = ''tcp'', Raw = port_line n\<rparr>"
    using assms by (simp add: parse_port_line_def)
  have "list_all is_print (nat_digits (nat n))"
    using nat_digits_all_digits [of "nat n"] by (auto simp: list_all_iff is_digit_def is_print_def)
  moreover have "list_all is_print ''/tcp''" by code_simp
  ultimately show "trim_space (port_line n) = port_line n"
    by (intro trim_space_print) (simp add: port_line_def d)
  show "port_line n \<noteq> []" by (simp add: port_line_def)
qed

lemma ports_loop_print:
  assumes "\<forall>n \<in> set ns. 1 \<le> n \<and> n \<le> 65535" and "k + length ns < 2 ^ 64"
    and "k \<le> PortMaxRecords limits \<or> PortMaxRecords limits = 0"
  shows "ports_loop limits None None (map port_line ns) l k out =
    (if PortMaxRecords limits = 0 \<or> k + length ns \<le> PortMaxRecords limits
     then Inr (out @ map (\<lambda>n. \<lparr>Number = n, Proto = ''tcp'', Raw = port_line n\<rparr>) ns)
     else Inl (PortRecordLimit (l + (PortMaxRecords limits + 1 - k)) (PortMaxRecords limits + 1)))"
  using assms
proof (induction ns arbitrary: k l out)
  case (Cons n ns)
  then have n: "1 \<le> n" "n \<le> 65535" by simp_all
  show ?case
  proof (cases "0 < PortMaxRecords limits \<and> PortMaxRecords limits < Suc k")
    case True
    then have "k = PortMaxRecords limits" using Cons.prems(3) by linarith
    then show ?thesis
      using True Cons.prems(2) parse_port_line_print [OF n] by (simp add: Let_def)
  next
    case False
    then have "Suc k \<le> PortMaxRecords limits \<or> PortMaxRecords limits = 0" by linarith
    from Cons.IH [OF _ _ this, of "Suc l" "out @ [\<lparr>Number = n, Proto = ''tcp'', Raw = port_line n\<rparr>]"]
    have IH: "ports_loop limits None None (map port_line ns) (Suc l) (Suc k)
        (out @ [\<lparr>Number = n, Proto = ''tcp'', Raw = port_line n\<rparr>]) =
      (if PortMaxRecords limits = 0 \<or> Suc k + length ns \<le> PortMaxRecords limits
       then Inr ((out @ [\<lparr>Number = n, Proto = ''tcp'', Raw = port_line n\<rparr>]) @
         map (\<lambda>n. \<lparr>Number = n, Proto = ''tcp'', Raw = port_line n\<rparr>) ns)
       else Inl (PortRecordLimit (Suc l + (PortMaxRecords limits + 1 - Suc k)) (PortMaxRecords limits + 1)))"
      using Cons.prems by simp
    have "k \<noteq> 2 ^ 64 - 1" using Cons.prems(2) by simp
    then have "ports_loop limits None None (map port_line (n # ns)) l k out =
        ports_loop limits None None (map port_line ns) (Suc l) (Suc k)
          (out @ [\<lparr>Number = n, Proto = ''tcp'', Raw = port_line n\<rparr>])"
      using False parse_port_line_print [OF n] by (auto simp: Let_def)
    moreover have "Suc l + (PortMaxRecords limits + 1 - Suc k) = l + (PortMaxRecords limits + 1 - k)"
      if "PortMaxRecords limits \<noteq> 0"
      using that Cons.prems(3) by linarith
    ultimately show ?thesis unfolding IH by simp
  qed
qed auto

theorem LoadPorts_print:
  assumes "\<forall>n \<in> set ns. 1 \<le> n \<and> n \<le> 65535" and "length ns < 2 ^ 64"
  shows "LoadPortsContextWithLimits None (map port_line ns) None limits =
    (if PortMaxRecords limits = 0 \<or> length ns \<le> PortMaxRecords limits
     then Inr (map (\<lambda>n. \<lparr>Number = n, Proto = ''tcp'', Raw = port_line n\<rparr>) ns)
     else Inl (PortRecordLimit (PortMaxRecords limits + 1) (PortMaxRecords limits + 1)))"
  using ports_loop_print [of ns 0 limits 0 "[]"] assms by (simp add: LoadPortsContextWithLimits_def)

lemma LoadPorts_print_witness:
  "LoadPortsContextWithLimits None [''22/tcp'', ''443/tcp''] None (DefaultPortLimits []) =
     Inr [\<lparr>Number = 22, Proto = ''tcp'', Raw = ''22/tcp''\<rparr>, \<lparr>Number = 443, Proto = ''tcp'', Raw = ''443/tcp''\<rparr>]"
proof -
  have "port_line 22 = ''22/tcp''" "port_line 443 = ''443/tcp''" by code_simp+
  then show ?thesis
    using LoadPorts_print [of "[22, 443]" "DefaultPortLimits []"] by (simp add: DefaultPortLimits_def)
qed

end
