(* ===== verification/TaskExpand.thy ===== *)
theory TaskExpand
  imports InputRecords
begin

text \<open>
  \<open>pkg/task\<close>: the candidate estimate and its limits (expansion_limits.go), the expansion of
  selectors to addresses (selector_expand.go), the index arithmetic of targets (index.go, ipv4.go),
  the broadcast filter (broadcast.go) and the chunk type (types.go).

  Counters of type uint64 are naturals with the overflow checks of the code; addresses are 32-bit
  words. Go's \<open>map[uint32]struct{}\<close> is a set, and sorting its keys is \<open>sorted_list_of_set\<close>.
\<close>

section \<open>types.go\<close>

record Chunk =
  chunkCIDR :: string
  chunkCIDRName :: string
  Ports :: "string list"
  NextIndex :: int
  ScannedCount :: int
  TotalCount :: int
  Status :: string

definition Remaining :: "Chunk \<Rightarrow> int" where
  "Remaining c = (if TotalCount c \<le> NextIndex c then 0 else TotalCount c - NextIndex c)"

section \<open>expansion_limits.go\<close>

datatype expand_error =
    NegativeCountLimit | NegativeMemoryLimit | MemoryLimitTooLarge
  | EmptySelector | SelectorNotIPv4 string | InvalidSelector string
  | CandidateOverflow int string | MemoryOverflow int string | LimitExceeded int string nat nat
  | RowError int expand_error | MissingSegment | MissingTargetIP | MissingSelector | ExpandCanceled

record ExpansionLimits =
  candidateLimit :: nat
  memoryLimitGB :: nat
  memoryLimitByte :: nat

definition decimalGB :: nat where "decimalGB = 1000000000"

definition NewExpansionLimits :: "int \<Rightarrow> int \<Rightarrow> expand_error + ExpansionLimits" where
  "NewExpansionLimits candidates memGB =
    (if candidates < 0 then Inl NegativeCountLimit
     else if memGB < 0 then Inl NegativeMemoryLimit
     else if (2 ^ 64 - 1) div decimalGB < nat memGB then Inl MemoryLimitTooLarge
     else Inr \<lparr>candidateLimit = nat candidates, memoryLimitGB = nat memGB,
               memoryLimitByte = nat memGB * decimalGB\<rparr>)"

record ExpansionEstimate =
  CandidateCount :: nat
  EstimatedBytes :: nat

definition estimateExpansionBytes :: "nat \<Rightarrow> nat option" where
  "estimateExpansionBytes n =
    (if (2 ^ 64 - 1 - 1000000000) div 1500 < n then None else Some (1000000000 + n * 1500))"

definition exceedsExpansionLimits :: "nat \<Rightarrow> nat \<Rightarrow> ExpansionLimits \<Rightarrow> bool" where
  "exceedsExpansionLimits n estimated limits \<longleftrightarrow>
     0 < candidateLimit limits \<and> candidateLimit limits < n \<or>
     0 < memoryLimitByte limits \<and> memoryLimitByte limits < estimated"

definition addCandidateCount ::
  "nat \<Rightarrow> int \<Rightarrow> string \<Rightarrow> nat \<Rightarrow> ExpansionLimits \<Rightarrow> expand_error + ExpansionEstimate" where
  "addCandidateCount sofar row cidr n limits =
    (if 2 ^ 64 - 1 - sofar < n then Inl (CandidateOverflow row cidr)
     else (case estimateExpansionBytes (sofar + n) of
         None \<Rightarrow> Inl (MemoryOverflow row cidr)
       | Some estimated \<Rightarrow>
           if exceedsExpansionLimits (sofar + n) estimated limits
           then Inl (LimitExceeded row cidr (sofar + n) estimated)
           else Inr \<lparr>CandidateCount = sofar + n, EstimatedBytes = estimated\<rparr>))"

definition countSelectorCandidates :: "string \<Rightarrow> expand_error + nat \<times> string" where
  "countSelectorCandidates raw =
    (let selector = trim_space raw in
     if selector = [] then Inl EmptySelector
     else (case parse_ip selector of
       Some ip \<Rightarrow> if to4 ip = None then Inl (SelectorNotIPv4 selector) else Inr (1, selector)
     | None \<Rightarrow> (case parse_cidr selector of None \<Rightarrow> Inl (InvalidSelector selector)
        | Some network \<Rightarrow> (case mask_size (net_mask network) of (ones, bits) \<Rightarrow>
            if bits \<noteq> 32 \<or> to4 (net_ip network) = None then Inl (SelectorNotIPv4 selector)
            else Inr (2 ^ (bits - ones), selector)))))"

definition estimate0 :: ExpansionEstimate where
  "estimate0 = \<lparr>CandidateCount = 0, EstimatedBytes = 1000000000\<rparr>"

text \<open>The selectors with their row numbers.\<close>

definition EstimateIPSelectors ::
  "(int \<times> string) list \<Rightarrow> ExpansionLimits \<Rightarrow> expand_error + ExpansionEstimate" where
  "EstimateIPSelectors inputs limits = try_fold (\<lambda>est (row, sel).
     (case countSelectorCandidates sel of Inl e \<Rightarrow> Inl (RowError row e)
      | Inr (n, cidr) \<Rightarrow> addCandidateCount (CandidateCount est) row cidr n limits)) estimate0 inputs"

record CandidateInput =
  ci_Row :: int
  ci_CIDR :: string
  ci_Count :: nat

definition EstimateCandidateCounts ::
  "CandidateInput list \<Rightarrow> ExpansionLimits \<Rightarrow> expand_error + ExpansionEstimate" where
  "EstimateCandidateCounts inputs limits = try_fold (\<lambda>est item.
     addCandidateCount (CandidateCount est) (ci_Row item) (ci_CIDR item) (ci_Count item) limits)
     estimate0 inputs"

subsection \<open>Authorized records\<close>

definition recordCIDR :: "CIDRRecord \<Rightarrow> string" where
  "recordCIDR r =
    (if IsRich r \<and> trim_space (DstNetworkSegment r) \<noteq> [] then trim_space (DstNetworkSegment r)
     else if trim_space (CIDR r) \<noteq> [] then trim_space (CIDR r)
     else (case Net r of Some n \<Rightarrow> ipnet_string n | None \<Rightarrow> []))"

definition recordUsesPrecheckExpansion :: "CIDRRecord \<Rightarrow> bool" where
  "recordUsesPrecheckExpansion r \<longleftrightarrow> IsRich r \<and> equal_fold (trim_space (Reason r)) ''PRECHECK_ALLOW_ALL''"

definition recordExpansionSelector :: "CIDRRecord \<Rightarrow> string \<Rightarrow> expand_error + string" where
  "recordExpansionSelector r cidr =
    (if IsRich r then
       (if recordUsesPrecheckExpansion r then (if cidr = [] then Inl MissingSegment else Inr cidr)
        else if trim_space (DstIP r) \<noteq> [] then Inr (trim_space (DstIP r)) else Inl MissingTargetIP)
     else if trim_space (IPRaw r) \<noteq> [] then Inr (trim_space (IPRaw r))
     else (case Selector r of Some n \<Rightarrow> Inr (ipnet_string n)
       | None \<Rightarrow> (case Net r of Some n \<Rightarrow> Inr (ipnet_string n) | None \<Rightarrow> Inl MissingSelector)))"

definition normalizedProtocol :: "string \<Rightarrow> string" where
  "normalizedProtocol p = (let q = to_lower (trim_space p) in if q = [] then ''tcp'' else q)"

definition is_deny :: "CIDRRecord \<Rightarrow> bool" where
  "is_deny r \<longleftrightarrow> equal_fold (trim_space (Decision r)) ''deny''"

definition denied_keys :: "CIDRRecord list \<Rightarrow> string list" where
  "denied_keys records = filter (\<lambda>k. k \<noteq> []) (map (\<lambda>r. trim_space (ExecutionKey r))
     (filter (\<lambda>r. IsRich r \<and> IsValid r \<and> is_deny r) records))"

type_synonym denied_group = "int \<times> string"

definition denied_candidate :: "string list \<Rightarrow> CIDRRecord \<Rightarrow> (denied_group \<times> 32 word) option" where
  \<comment> \<open>what one record adds to the sets of \<open>newDeniedCandidateIndex\<close>\<close>
  "denied_candidate denied r =
    (if \<not> IsRich r \<or> \<not> IsValid r \<or> \<not> is_deny r then None
     else (case parse_ip4 (trim_space (DstIP r)) of None \<Rightarrow> None
       | Some ip \<Rightarrow>
         (case BuildExecutionKey (v4_string ip) (Port r) (normalizedProtocol (Protocol r)) of
            Inl _ \<Rightarrow> None
          | Inr key \<Rightarrow> if key \<notin> set denied then None
              else Some ((Port r, normalizedProtocol (Protocol r)), be_u32 ip))))"

definition denied_set :: "CIDRRecord list \<Rightarrow> string list \<Rightarrow> denied_group \<Rightarrow> 32 word set" where
  "denied_set records denied g =
     set (map snd (filter (\<lambda>p. fst p = g) (List.map_filter (denied_candidate denied) records)))"

definition newDeniedCandidateIndex ::
  "CIDRRecord list \<Rightarrow> string list \<Rightarrow> denied_group \<Rightarrow> 32 word list" where
  "newDeniedCandidateIndex records denied g = sorted_list_of_set (denied_set records denied g)"

definition denied_count :: "(denied_group \<Rightarrow> 32 word list) \<Rightarrow> CIDRRecord \<Rightarrow> string \<Rightarrow> nat" where
  "denied_count index r selector =
    (case parse_cidr selector of None \<Rightarrow> 0
     | Some network \<Rightarrow> (case to4 (net_ip network) of None \<Rightarrow> 0
       | Some start \<Rightarrow>
         (let startN = be_u32 start; endN = startN OR NOT (be_u32 (net_mask network));
              addresses = index (Port r, normalizedProtocol (Protocol r));
              lo = sort_search (length addresses) (\<lambda>i. length addresses \<le> i \<or> startN \<le> addresses ! i);
              hi = sort_search (length addresses) (\<lambda>i. length addresses \<le> i \<or> endN < addresses ! i)
          in hi - lo)))"

definition authorized_step :: "string list \<Rightarrow> (denied_group \<Rightarrow> 32 word list) \<Rightarrow> ExpansionLimits \<Rightarrow>
    string set option \<Rightarrow> ExpansionEstimate \<Rightarrow> nat \<times> CIDRRecord \<Rightarrow> expand_error + ExpansionEstimate" where
  "authorized_step denied index limits included est ir =
    (case ir of (i, r) \<Rightarrow>
     let row = (if RowNumber r \<le> 0 then int i + 1 else RowNumber r); cidr = recordCIDR r in
     if IsRich r \<and> (\<not> IsValid r \<or> is_deny r) then Inr est
     else if IsRich r \<and> trim_space (ExecutionKey r) \<in> set denied \<and> \<not> recordUsesPrecheckExpansion r
     then Inr est
     else if (case included of None \<Rightarrow> False | Some cs \<Rightarrow> cidr \<notin> cs) then Inr est
     else (case recordExpansionSelector r cidr of Inl e \<Rightarrow> Inl (RowError row e)
       | Inr selector \<Rightarrow> (case countSelectorCandidates selector of Inl e \<Rightarrow> Inl (RowError row e)
         | Inr (n, normalized) \<Rightarrow>
             addCandidateCount (CandidateCount est) row normalized
               (if recordUsesPrecheckExpansion r then n - denied_count index r selector else n)
               limits)))"

definition EstimateAuthorizedCIDRRecords :: "CIDRRecord list \<Rightarrow> ExpansionLimits \<Rightarrow> string set option \<Rightarrow>
    expand_error + ExpansionEstimate" where
  "EstimateAuthorizedCIDRRecords records limits included =
    (let denied = denied_keys records in
     try_fold (authorized_step denied (newDeniedCandidateIndex records denied) limits included)
       estimate0 (enumerate 0 records))"

section \<open>selector_expand.go\<close>

lemma unat_succ: "cur \<noteq> - 1 \<Longrightarrow> unat (cur + 1 :: 32 word) = unat cur + 1"
  using unatSuc [of cur] by (metis add.commute add.left_neutral add_eq_0_iff2 Suc_eq_plus1 add.inverse_inverse)

text \<open>
  The loop over one range. The counter is 32 bits wide, so the code breaks at the last address;
  without that \<open>cur++\<close> would wrap to zero and never end.
\<close>

function range_loop :: "ctx \<Rightarrow> 32 word \<Rightarrow> 32 word \<Rightarrow> 32 word \<Rightarrow> 32 word set \<Rightarrow> (ctx \<times> 32 word set) option" where
  "range_loop c startN cur endN uniq =
    (if cur \<le> endN then
       (case (if (cur - startN) mod 4096 = 0 then ctx_poll 1 c else Some c) of
          None \<Rightarrow> None
        | Some c' \<Rightarrow> if cur = - 1 then Some (c', insert cur uniq)
            else range_loop c' startN (cur + 1) endN (insert cur uniq))
     else Some (c, uniq))"
  by pat_completeness auto
termination
proof (relation "measure (\<lambda>(c, s, cur, e, u). 2 ^ 32 - unat cur)")
  fix c :: ctx and startN cur endN :: "32 word" and uniq c'
  assume "cur \<noteq> - 1"
  then have "unat (cur + 1) = unat cur + 1"
    by (rule unat_succ)
  moreover have "unat cur < 2 ^ 32" using unsigned_less [of cur, where ?'a = nat] by simp
  ultimately show "((c', startN, cur + 1, endN, insert cur uniq), c, startN, cur, endN, uniq)
      \<in> measure (\<lambda>(c, s, cur, e, u). 2 ^ 32 - unat cur)"
    by simp
qed simp

declare range_loop.simps [simp del]

definition expand_selector :: "ctx \<Rightarrow> 32 word set \<Rightarrow> string \<Rightarrow> expand_error + ctx \<times> 32 word set" where
  "expand_selector c uniq raw0 =
    (case ctx_poll 1 c of None \<Rightarrow> Inl ExpandCanceled
     | Some c1 \<Rightarrow>
       let raw = trim_space raw0 in
       if raw = [] then Inl EmptySelector
       else (case parse_ip raw of
         Some ip \<Rightarrow> (case to4 ip of None \<Rightarrow> Inl (SelectorNotIPv4 raw)
           | Some v4 \<Rightarrow> Inr (c1, insert (be_u32 v4) uniq))
       | None \<Rightarrow> (case parse_cidr raw of None \<Rightarrow> Inl (InvalidSelector raw)
         | Some n \<Rightarrow> (case IPRange (Some n) of None \<Rightarrow> Inl (SelectorNotIPv4 raw)
           | Some (start, end_ip) \<Rightarrow>
             (case range_loop c1 (be_u32 start) (be_u32 start) (be_u32 end_ip) uniq of
                None \<Rightarrow> Inl ExpandCanceled | Some r \<Rightarrow> Inr r)))))"

definition expand_ctx ::
  "ctx \<Rightarrow> string list \<Rightarrow> ExpansionLimits \<Rightarrow> expand_error + ctx \<times> string list" where
  \<comment> \<open>with the context that is left for the caller\<close>
  "expand_ctx c selectors limits =
    (case ctx_poll 1 c of None \<Rightarrow> Inl ExpandCanceled
     | Some c1 \<Rightarrow>
       try_bind (EstimateIPSelectors (map (\<lambda>(i, s). (int i + 1, s)) (enumerate 0 selectors)) limits) (\<lambda>_.
       try_bind (try_fold (\<lambda>(c, uniq) raw. expand_selector c uniq raw) (c1, {}) selectors) (\<lambda>(c2, uniq).
       (case ctx_poll (2 * polls_for (card uniq)) c2 of None \<Rightarrow> Inl ExpandCanceled
        | Some c3 \<Rightarrow> Inr (c3, map u32_string (sorted_list_of_set uniq))))))"

definition ExpandIPSelectorsContextWithLimits ::
  "ctx \<Rightarrow> string list \<Rightarrow> ExpansionLimits \<Rightarrow> expand_error + string list" where
  "ExpandIPSelectorsContextWithLimits c selectors limits =
     try_bind (expand_ctx c selectors limits) (\<lambda>(_, ips). Inr ips)"

section \<open>index.go, ipv4.go, broadcast.go\<close>

definition IndexToTarget :: "int \<Rightarrow> string list \<Rightarrow> int list \<Rightarrow> string \<times> int" where
  "IndexToTarget idx ips ports =
    (if idx < 0 \<or> ips = [] \<or> ports = [] then ([], 0)
     else (let ipIdx = nat idx div length ports; portIdx = nat idx mod length ports in
       if length ips \<le> ipIdx then ([], 0) else (ips ! ipIdx, ports ! portIdx)))"

datatype ipv4_error = NilNetwork | NotIPv4 | UnexpectedMaskBits nat | EmptyPorts | NegativeIndex
  | IndexOutOfRange

definition CountIPv4Hosts :: "ipnet option \<Rightarrow> ipv4_error + nat" where
  "CountIPv4Hosts n = (case n of None \<Rightarrow> Inl NilNetwork
     | Some n \<Rightarrow> if to4 (net_ip n) = None then Inl NotIPv4
         else (case mask_size (net_mask n) of (ones, bits) \<Rightarrow>
           if bits \<noteq> 32 then Inl (UnexpectedMaskBits bits) else Inr (2 ^ (bits - ones))))"

definition IndexToIPv4Target :: "ipnet option \<Rightarrow> int list \<Rightarrow> int \<Rightarrow> ipv4_error + string \<times> int" where
  "IndexToIPv4Target n ports idx =
    (if n = None then Inl NilNetwork
     else if ports = [] then Inl EmptyPorts
     else if idx < 0 then Inl NegativeIndex
     else try_bind (CountIPv4Hosts n) (\<lambda>totalHosts.
       let ipOffset = nat idx div length ports; portIdx = nat idx mod length ports in
       if totalHosts \<le> ipOffset then Inl IndexOutOfRange
       else Inr (u32_string (be_u32 (the (to4 (net_ip (the n)))) + of_nat ipOffset), ports ! portIdx)))"

definition FilterBoundaryBroadcast :: "string list \<Rightarrow> ipnet option \<Rightarrow> string list" where
  "FilterBoundaryBroadcast ips boundary =
    (case boundary of None \<Rightarrow> ips
     | Some b \<Rightarrow> (case mask_size (net_mask b) of (ones, bits) \<Rightarrow>
         if bits \<noteq> 32 \<or> 31 \<le> ones then ips
         else (case IPRange (Some b) of None \<Rightarrow> ips
           | Some (start, end_ip) \<Rightarrow> filter (\<lambda>ip. ip \<noteq> ip_string end_ip) ips)))"

section \<open>Selectors as sets of addresses\<close>

definition selector_addresses :: "string \<Rightarrow> 32 word set" where
  "selector_addresses raw = (case parse_ip4 (trim_space raw) of Some v \<Rightarrow> {be_u32 v}
     | None \<Rightarrow> (case parse_cidr (trim_space raw) of None \<Rightarrow> {}
         | Some n \<Rightarrow> {x. ipnet_contains n (put_u32 x)}))"

lemma contains_prefix_net:
  "k \<le> 32 \<Longrightarrow> ipnet_contains (prefix_net w k) (put_u32 x) \<longleftrightarrow> w AND pmask k \<le> x \<and> x \<le> w OR mask (32 - k)"
proof -
  assume k: "k \<le> 32"
  have "and_bytes (put_u32 (w AND pmask k)) (cidr_mask k 32) = and_bytes (put_u32 x) (cidr_mask k 32)
      \<longleftrightarrow> (w AND pmask k) AND pmask k = x AND pmask k"
    using k by (subst be_u32_inject [symmetric])
      (simp_all add: be_u32_and_bytes be_u32_cidr_mask length_and_bytes)
  then show ?thesis
    using block_member [of "32 - k" x w]
    by (auto simp: ipnet_contains_def net_number_and_mask_def Let_def pmask_def)
qed

lemma parse_cidr_32:
  assumes "parse_cidr s = Some n" and "mask_size (net_mask n) = (k, 32)"
  shows "k \<le> 32 \<and> (\<exists>w. n = prefix_net w k)"
proof -
  have m: "k \<le> 32" "net_mask n = cidr_mask k 32" using mask_size_32 [OF assms(2)] by auto
  have "\<exists>v. length v = 4 \<and> net_ip n = and_bytes v (net_mask n)"
  proof -
    have len: "length (net_mask n) = 4" by (simp add: m(2))
    from assms(1) consider (v4) t v j where "parse_addr t = Some (A4 v)"
        "n = \<lparr>net_ip = and_bytes v (cidr_mask j 32), net_mask = cidr_mask j 32\<rparr>"
      | (v6) v j where "n = \<lparr>net_ip = and_bytes v (cidr_mask j 128), net_mask = cidr_mask j 128\<rparr>"
      by (auto simp: parse_cidr_def split: option.splits prod.splits naddr.splits if_splits)
    then show ?thesis
    proof cases
      case v4
      then have "length v = 4"
        by (auto simp: parse_addr_def parse_v6_def Let_def dest: parse_v4_length
            split: list.splits if_splits option.splits)
      then show ?thesis using v4(2) by auto
    next
      case v6
      then show ?thesis using len by simp
    qed
  qed
  then obtain v where v: "length v = 4" "net_ip n = and_bytes v (net_mask n)" by blast
  have "net_ip n = put_u32 (be_u32 v AND pmask k)"
    using v m by (intro be_u32_inject [THEN iffD1])
      (simp_all add: be_u32_and_bytes be_u32_cidr_mask length_and_bytes)
  then show ?thesis
    using m by (intro conjI exI [of _ "be_u32 v"]) (simp_all add: prefix_net_def)
qed

text \<open>A selector whose candidates can be counted is one address or one IPv4 block.\<close>

lemma count_cases:
  assumes "countSelectorCandidates raw = Inr (n, t)"
  obtains (one) ip v where "parse_ip (trim_space raw) = Some ip" "to4 ip = Some v" "n = 1"
      "selector_addresses raw = {be_u32 v}"
    | (block) w k where "parse_ip (trim_space raw) = None"
        "parse_cidr (trim_space raw) = Some (prefix_net w k)" "k \<le> 32" "n = 2 ^ (32 - k)"
        "selector_addresses raw = {w AND pmask k..w OR mask (32 - k)}"
proof (cases "parse_ip (trim_space raw)")
  case (Some ip)
  then show thesis
    using assms one by (auto simp: countSelectorCandidates_def selector_addresses_def parse_ip4_def
        Let_def split: if_splits)
next
  case None
  then obtain net k where net: "parse_cidr (trim_space raw) = Some net"
      "mask_size (net_mask net) = (k, 32)" "n = 2 ^ (32 - k)"
    using assms by (auto simp: countSelectorCandidates_def Let_def split: if_splits option.splits prod.splits)
  from parse_cidr_32 [OF net(1,2)] obtain w where w: "k \<le> 32" "net = prefix_net w k" by blast
  show thesis
  proof (rule block [OF None _ w(1) net(3)])
    show "parse_cidr (trim_space raw) = Some (prefix_net w k)" using net(1) w(2) by simp
    show "selector_addresses raw = {w AND pmask k..w OR mask (32 - k)}"
      using None net(1) w
      by (auto simp: selector_addresses_def parse_ip4_def contains_prefix_net)
  qed
qed

lemma card_word_interval: "card {a..b :: 32 word} = unat b + 1 - unat a"
proof -
  have inj: "inj_on (unat :: 32 word \<Rightarrow> nat) {a..b}" by (rule inj_onI) (simp add: word_unat_eq_iff)
  have "unat ` {a..b} = {unat a..unat b}"
  proof (intro equalityI subsetI)
    fix x
    assume "x \<in> {unat a..unat b}"
    moreover from this have "x = unat (of_nat x :: 32 word)"
      using unsigned_less [of b, where ?'a = nat]
      by (simp add: unsigned_of_nat take_bit_nat_eq_self)
    ultimately show "x \<in> unat ` {a..b}"
      by (intro image_eqI [of _ _ "of_nat x"]) (auto simp: word_le_nat_alt)
  qed (auto simp: word_le_nat_alt)
  then have "card {a..b} = card {unat a..unat b}" using card_image [OF inj] by simp
  then show ?thesis by simp
qed

lemma selector_count:
  assumes "countSelectorCandidates raw = Inr (n, t)"
  shows "card (selector_addresses raw) = n"
  using assms
proof (cases rule: count_cases)
  case (block w k)
  then show ?thesis
    using block_size [of "32 - k" w] by (simp add: card_word_interval pmask_def)
qed simp

section \<open>The range loop\<close>

lemma range_loop_step: "range_loop None s cur e uniq =
    (if cur \<le> e then (if cur = - 1 then Some (None, insert cur uniq)
       else range_loop None s (cur + 1) e (insert cur uniq)) else Some (None, uniq))"
  by (subst range_loop.simps) simp

lemma range_loop_Background:
  "range_loop None s cur e uniq = Some (None, uniq \<union> {cur..e})"
proof (induction "2 ^ 32 - unat cur" arbitrary: cur uniq rule: less_induct)
  case less
  show ?case
  proof (cases "cur \<le> e")
    case True
    show ?thesis
    proof (cases "cur = - 1")
      case max: True
      have "e \<le> cur" unfolding max by (rule word_order.extremum)
      then have "e = cur" using True by (rule order_antisym)
      then have "{cur..e} = {cur}" by (simp only: atLeastAtMost_singleton)
      then show ?thesis
        unfolding range_loop_step [of s cur e uniq] if_P [OF True] if_P [OF max]
        by (simp only: Un_insert_right Un_empty_right)
    next
      case False
      then have suc: "unat (cur + 1) = unat cur + 1" by (rule unat_succ)
      moreover have "unat cur < 2 ^ 32" using unsigned_less [of cur, where ?'a = nat] by simp
      ultimately have "range_loop None s (cur + 1) e (insert cur uniq) =
          Some (None, insert cur uniq \<union> {cur + 1..e})"
        by (intro less) simp
      moreover have "{cur..e} = insert cur {cur + 1..e}"
      proof (rule set_eqI)
        fix x
        have "cur \<le> x \<longleftrightarrow> x = cur \<or> cur + 1 \<le> x"
          unfolding word_le_nat_alt suc word_unat_eq_iff by linarith
        then show "x \<in> {cur..e} \<longleftrightarrow> x \<in> insert cur {cur + 1..e}" using True by auto
      qed
      ultimately show ?thesis using True False by (subst range_loop.simps) simp
    qed
  next
    case False
    then show ?thesis by (subst range_loop.simps) auto
  qed
qed

lemma expand_selector_Background:
  assumes "countSelectorCandidates raw = Inr (n, t)"
  shows "expand_selector None uniq raw = Inr (None, uniq \<union> selector_addresses raw)"
proof -
  have ne: "trim_space raw \<noteq> []"
    using assms by (auto simp: countSelectorCandidates_def Let_def)
  from assms show ?thesis
  proof (cases rule: count_cases)
    case (one ip v)
    then show ?thesis using ne by (simp add: expand_selector_def Let_def)
  next
    case (block w k)
    then show ?thesis
      using ne IPRange_prefix_net [OF block(3), of w]
      by (simp add: expand_selector_def Let_def range_loop_Background)
  qed
qed

section \<open>The estimate\<close>

lemma addCandidateCount_Inr:
  assumes "addCandidateCount sofar row cidr n limits = Inr est"
  shows "CandidateCount est = sofar + n \<and> sofar + n < 2 ^ 64 \<and>
    EstimatedBytes est = 1000000000 + CandidateCount est * 1500 \<and> EstimatedBytes est < 2 ^ 64 \<and>
    (0 < candidateLimit limits \<longrightarrow> CandidateCount est \<le> candidateLimit limits) \<and>
    (0 < memoryLimitByte limits \<longrightarrow> EstimatedBytes est \<le> memoryLimitByte limits)"
  using assms
  by (auto simp: addCandidateCount_def estimateExpansionBytes_def exceedsExpansionLimits_def
      split: if_splits)

abbreviation numbered :: "nat \<Rightarrow> string list \<Rightarrow> (int \<times> string) list" where
  "numbered k selectors \<equiv> map (\<lambda>(i, s). (int i + 1, s)) (enumerate k selectors)"

definition estimate_from ::
  "ExpansionEstimate \<Rightarrow> (int \<times> string) list \<Rightarrow> ExpansionLimits \<Rightarrow> expand_error + ExpansionEstimate" where
  "estimate_from est inputs limits = try_fold (\<lambda>est (row, sel).
     (case countSelectorCandidates sel of Inl e \<Rightarrow> Inl (RowError row e)
      | Inr (n, cidr) \<Rightarrow> addCandidateCount (CandidateCount est) row cidr n limits)) est inputs"

lemma estimate_expand:
  assumes "estimate_from est0 (numbered k selectors) limits = Inr est" and "finite uniq"
    and "card uniq \<le> CandidateCount est0"
  shows "try_fold (\<lambda>(c, uniq) raw. expand_selector c uniq raw) (None, uniq) selectors =
      Inr (None, uniq \<union> (\<Union>s \<in> set selectors. selector_addresses s)) \<and>
    card (uniq \<union> (\<Union>s \<in> set selectors. selector_addresses s)) \<le> CandidateCount est"
  using assms
proof (induction selectors arbitrary: k est0 uniq)
  case Nil
  then show ?case by (simp add: estimate_from_def)
next
  case (Cons raw selectors)
  from Cons.prems(1) obtain n t est1 where
    n: "countSelectorCandidates raw = Inr (n, t)"
    and a: "addCandidateCount (CandidateCount est0) (int k + 1) t n limits = Inr est1"
    and r: "estimate_from est1 (numbered (Suc k) selectors) limits = Inr est"
    by (auto simp: estimate_from_def try_bind_eq_Inr split: sum.splits)
  have "card (uniq \<union> selector_addresses raw) \<le> card uniq + n"
    using selector_count [OF n] card_Un_le [of uniq "selector_addresses raw"] by simp
  also have "\<dots> \<le> CandidateCount est1" using addCandidateCount_Inr [OF a] Cons.prems(3) by simp
  finally have "card (uniq \<union> selector_addresses raw) \<le> CandidateCount est1" .
  moreover have "finite (uniq \<union> selector_addresses raw)" by simp
  ultimately have "try_fold (\<lambda>(c, uniq) raw. expand_selector c uniq raw)
        (None, uniq \<union> selector_addresses raw) selectors =
      Inr (None, uniq \<union> selector_addresses raw \<union> (\<Union>s \<in> set selectors. selector_addresses s)) \<and>
    card (uniq \<union> selector_addresses raw \<union> (\<Union>s \<in> set selectors. selector_addresses s)) \<le> CandidateCount est"
    by (intro Cons.IH [OF r])
  then show ?case
    using expand_selector_Background [OF n, of uniq] by (simp add: Un_assoc)
qed

lemma estimate_from_limits:
  assumes "estimate_from est0 inputs limits = Inr est"
    and "0 < candidateLimit limits \<longrightarrow> CandidateCount est0 \<le> candidateLimit limits"
  shows "0 < candidateLimit limits \<longrightarrow> CandidateCount est \<le> candidateLimit limits"
proof -
  have "(\<lambda>e. 0 < candidateLimit limits \<longrightarrow> CandidateCount e \<le> candidateLimit limits) est"
    by (rule try_fold_invariant [OF assms(1) [unfolded estimate_from_def]])
      (use assms(2) in \<open>auto dest: addCandidateCount_Inr split: sum.splits\<close>)
  then show ?thesis .
qed

section \<open>Properties\<close>

text \<open>
  C28: without cancellation, expansion of IPv4 selectors fails exactly when the estimate fails
  and with its error; otherwise the result is the ascending list, without duplicates, of the
  addresses of all selectors, the loop ending also for ranges that reach 255.255.255.255, and
  their number is within the estimate and within the candidate limit.
\<close>

theorem ExpandIPSelectors_correct:
  "case EstimateIPSelectors (numbered 0 selectors) limits of
     Inl e \<Rightarrow> ExpandIPSelectorsContextWithLimits None selectors limits = Inl e
   | Inr est \<Rightarrow>
       ExpandIPSelectorsContextWithLimits None selectors limits =
         Inr (map u32_string (sorted_list_of_set (\<Union>s \<in> set selectors. selector_addresses s))) \<and>
       card (\<Union>s \<in> set selectors. selector_addresses s) \<le> CandidateCount est \<and>
       (candidateLimit limits = 0 \<or> CandidateCount est \<le> candidateLimit limits)"
proof (cases "EstimateIPSelectors (numbered 0 selectors) limits")
  case (Inl e)
  then show ?thesis by (simp add: ExpandIPSelectorsContextWithLimits_def expand_ctx_def)
next
  case (Inr est)
  then have e: "estimate_from estimate0 (numbered 0 selectors) limits = Inr est"
    by (simp add: estimate_from_def EstimateIPSelectors_def)
  have "try_fold (\<lambda>(c, uniq) raw. expand_selector c uniq raw) (None, {}) selectors =
      Inr (None, \<Union>s \<in> set selectors. selector_addresses s)"
    and "card (\<Union>s \<in> set selectors. selector_addresses s) \<le> CandidateCount est"
    using estimate_expand [OF e, of "{}"] by simp_all
  then show ?thesis
    using Inr estimate_from_limits [OF e]
    by (auto simp: ExpandIPSelectorsContextWithLimits_def expand_ctx_def estimate0_def)
qed

text \<open>The binary searches count the sorted addresses inside the interval.\<close>

lemma sort_search_sorted:
  fixes a :: "32 word list"
  assumes "sorted a"
  shows "sort_search (length a) (\<lambda>i. length a \<le> i \<or> x \<le> a ! i) = length (filter (\<lambda>y. y < x) a)"
    and "sort_search (length a) (\<lambda>i. length a \<le> i \<or> x < a ! i) = length (filter (\<lambda>y. y \<le> x) a)"
proof -
  have gen: "sort_search (length a) (\<lambda>i. length a \<le> i \<or> P (a ! i)) = length (filter (\<lambda>y. \<not> P y) a)"
    if mono: "\<And>y z. y \<le> z \<Longrightarrow> P y \<Longrightarrow> P z" for P
  proof -
    let ?p = "\<lambda>i. length a \<le> i \<or> P (a ! i)"
    let ?n = "sort_search (length a) ?p"
    have up: "?p l" if "k \<le> l" "?p k" for k l
    proof (cases "l < length a")
      case True
      then have "a ! k \<le> a ! l" using sorted_nth_mono [OF assms] that(1) by blast
      then show ?thesis using that mono True by auto
    qed simp
    have n: "?n \<le> length a" by (rule sort_search_spec(1)) (rule up)
    have low: "\<not> P (a ! k)" if "k < ?n" for k
    proof -
      have "\<not> ?p k" by (rule sort_search_spec(2) [where n = "length a"]) (rule up, assumption+, rule that)
      then show ?thesis by simp
    qed
    have high: "P (a ! k)" if "?n \<le> k" "k < length a" for k
    proof -
      have "?p k" by (rule sort_search_spec(3) [where n = "length a"]) (rule up, assumption+, rule that, rule that)
      then show ?thesis using that(2) by simp
    qed
    have "filter (\<lambda>y. \<not> P y) (take ?n a) = take ?n a"
      using low n by (auto simp: filter_id_conv in_set_conv_nth)
    moreover have "filter (\<lambda>y. \<not> P y) (drop ?n a) = []"
      using high by (auto simp: filter_empty_conv in_set_conv_nth)
    moreover have "filter (\<lambda>y. \<not> P y) a =
        filter (\<lambda>y. \<not> P y) (take ?n a) @ filter (\<lambda>y. \<not> P y) (drop ?n a)"
      by (simp only: filter_append [symmetric] append_take_drop_id)
    ultimately have "filter (\<lambda>y. \<not> P y) a = take ?n a" by (simp only: append_Nil2)
    then show ?thesis using n by simp
  qed
  show "sort_search (length a) (\<lambda>i. length a \<le> i \<or> x \<le> a ! i) = length (filter (\<lambda>y. y < x) a)"
    using gen [of "\<lambda>y. x \<le> y"] order_trans [of x] by (simp only: not_le)
  show "sort_search (length a) (\<lambda>i. length a \<le> i \<or> x < a ! i) = length (filter (\<lambda>y. y \<le> x) a)"
    using gen [of "\<lambda>y. x < y"] less_le_trans [of x] by (simp only: not_less)
qed

lemma pmask_or_not: "k \<le> 32 \<Longrightarrow> (w AND pmask k) OR NOT (pmask k) = w OR mask (32 - k)"
  by (rule bit_word_eqI) (auto simp: pmask_def bit_simps)

lemma interval_count:
  fixes a :: "32 word list"
  assumes "x \<le> y" and "distinct a"
  shows "length (filter (\<lambda>z. z \<le> y) a) - length (filter (\<lambda>z. z < x) a) =
    card {z \<in> set a. x \<le> z \<and> z \<le> y}"
proof -
  have "length (filter (\<lambda>z. z \<le> y) a) =
      length (filter (\<lambda>z. z < x) a) + length (filter (\<lambda>z. x \<le> z \<and> z \<le> y) a)"
    using assms(1) by (induction a) auto
  then have "length (filter (\<lambda>z. z \<le> y) a) - length (filter (\<lambda>z. z < x) a) =
      length (filter (\<lambda>z. x \<le> z \<and> z \<le> y) a)"
    by simp
  also have "\<dots> = card (set (filter (\<lambda>z. x \<le> z \<and> z \<le> y) a))"
    using assms(2) by (intro distinct_card [symmetric]) simp
  finally show ?thesis by simp
qed

text \<open>
  C36: for a PRECHECK_ALLOW_ALL row the number of candidates that the estimate subtracts is
  exactly the number of addresses of the row's network that are denied for its port and protocol,
  and it never exceeds the size of the network, so the unsigned subtraction cannot wrap.
\<close>

theorem denied_candidates_exact:
  assumes "k \<le> 32" and "parse_cidr selector = Some (prefix_net w k)"
  shows "denied_count (newDeniedCandidateIndex records denied) r selector =
      card {a \<in> denied_set records denied (Port r, normalizedProtocol (Protocol r)).
              ipnet_contains (prefix_net w k) (put_u32 a)}
    \<and> denied_count (newDeniedCandidateIndex records denied) r selector \<le> 2 ^ (32 - k)"
proof -
  let ?D = "denied_set records denied (Port r, normalizedProtocol (Protocol r))"
  let ?lo = "w AND pmask k" and ?hi = "w OR mask (32 - k)"
  have fin: "finite ?D" by (simp add: denied_set_def)
  have le: "?lo \<le> ?hi" using block_order [of "32 - k" w] by (auto simp: pmask_def)
  define a where "a = sorted_list_of_set ?D"
  have a: "newDeniedCandidateIndex records denied (Port r, normalizedProtocol (Protocol r)) = a"
      "sorted a" "distinct a" "set a = ?D"
    using fin by (simp_all add: a_def newDeniedCandidateIndex_def)
  have "denied_count (newDeniedCandidateIndex records denied) r selector =
      length (filter (\<lambda>z. z \<le> ?hi) a) - length (filter (\<lambda>z. z < ?lo) a)"
    using assms by (simp add: denied_count_def a(1) Let_def sort_search_sorted [OF a(2)]
        be_u32_cidr_mask pmask_or_not)
  also have "\<dots> = card {z \<in> ?D. ?lo \<le> z \<and> z \<le> ?hi}"
    using interval_count [OF le a(3)] by (simp add: a(4))
  finally have eq: "denied_count (newDeniedCandidateIndex records denied) r selector =
      card {z \<in> ?D. ?lo \<le> z \<and> z \<le> ?hi}" .
  have "card {z \<in> ?D. ?lo \<le> z \<and> z \<le> ?hi} \<le> card {?lo..?hi}"
    by (intro card_mono) auto
  also have "\<dots> = 2 ^ (32 - k)"
    using block_size [of "32 - k" w] by (simp add: card_word_interval pmask_def)
  finally show ?thesis
    using eq assms(1) by (simp add: contains_prefix_net)
qed

lemma denied_candidates_exact_witness:
  "denied_count (newDeniedCandidateIndex [] []) zero_record (cidr_string 0x0a000000 24) \<le> 2 ^ 8"
  using denied_candidates_exact [of 24 "cidr_string 0x0a000000 24" "0x0a000000" "[]" "[]" zero_record]
    parse_cidr_string [of 24 "0x0a000000"]
  by simp

text \<open>
  IndexToTarget enumerates the Cartesian product: over distinct addresses and ports the
  indices 0 .. len(ips)*len(ports)-1 reach every pair exactly once, and any other index gives
  ("", 0).
\<close>

theorem IndexToTarget_bij:
  assumes "distinct ips" and "distinct ports"
  shows "bij_betw (\<lambda>i. IndexToTarget i ips ports) {0..<int (length ips * length ports)}
      (set ips \<times> set ports)
    \<and> (\<forall>i. i \<notin> {0..<int (length ips * length ports)} \<longrightarrow> IndexToTarget i ips ports = ([], 0))"
proof
  let ?f = "\<lambda>i. IndexToTarget i ips ports" and ?m = "length ports"
  have val: "?f i = (ips ! (nat i div ?m), ports ! (nat i mod ?m)) \<and> nat i div ?m < length ips
      \<and> nat i mod ?m < ?m"
    if "i \<in> {0..<int (length ips * length ports)}" for i
  proof -
    have i: "0 \<le> i" "nat i < length ips * ?m" using that by (auto simp: nat_less_iff)
    then have m: "0 < ?m" and l: "0 < length ips" by (auto intro: Nat.gr0I)
    have "nat i div ?m < length ips" using i(2) by (simp add: less_mult_imp_div_less)
    then show ?thesis using i(1) m l by (auto simp: IndexToTarget_def Let_def)
  qed
  have inj: "inj_on ?f {0..<int (length ips * length ports)}"
  proof (rule inj_onI)
    fix i j
    assume ij: "i \<in> {0..<int (length ips * length ports)}" "j \<in> {0..<int (length ips * length ports)}"
      "?f i = ?f j"
    then have "nat i div ?m = nat j div ?m" "nat i mod ?m = nat j mod ?m"
      using val [OF ij(1)] val [OF ij(2)] assms by (auto simp: nth_eq_iff_index_eq)
    then have "nat i = nat j" by (metis div_mult_mod_eq)
    then show "i = j" using ij(1,2) by auto
  qed
  have "?f ` {0..<int (length ips * length ports)} \<subseteq> set ips \<times> set ports"
    using val by fastforce
  moreover have "card (?f ` {0..<int (length ips * length ports)}) = card (set ips \<times> set ports)"
    using inj assms by (simp add: card_image card_cartesian_product distinct_card nat_mult_distrib)
  ultimately have "?f ` {0..<int (length ips * length ports)} = set ips \<times> set ports"
    by (intro card_subset_eq) auto
  with inj show "bij_betw ?f {0..<int (length ips * length ports)} (set ips \<times> set ports)"
    by (simp add: bij_betw_def)
  show "\<forall>i. i \<notin> {0..<int (length ips * length ports)} \<longrightarrow> ?f i = ([], 0)"
  proof (intro allI impI)
    fix i
    assume i: "i \<notin> {0..<int (length ips * length ports)}"
    show "?f i = ([], 0)"
    proof (cases "i < 0 \<or> ips = [] \<or> ports = []")
      case False
      then have "length ips * ?m \<le> nat i" using i by (simp add: le_nat_iff not_less)
      then have "length ips \<le> nat i div ?m"
        using False by (simp add: less_eq_div_iff_mult_less_eq)
      then show ?thesis using False by (simp add: IndexToTarget_def Let_def)
    qed (auto simp: IndexToTarget_def)
  qed
qed

lemma IndexToTarget_bij_witness:
  "bij_betw (\<lambda>i. IndexToTarget i [''10.0.0.1'', ''10.0.0.2''] [80, 443]) {0..<4}
     ({''10.0.0.1'', ''10.0.0.2''} \<times> {80, 443})"
  using IndexToTarget_bij [of "[''10.0.0.1'', ''10.0.0.2'']" "[80, 443]"] by simp

text \<open>
  Within a boundary network of prefix at most /30 the broadcast filter removes exactly the
  last address of the network, wherever it occurs, and keeps the others in order; for /31, /32
  and for no boundary it keeps every address.
\<close>

theorem FilterBoundaryBroadcast_exact:
  assumes "k \<le> 32"
  shows "FilterBoundaryBroadcast (map u32_string ws) (Some (prefix_net w k)) =
    map u32_string (filter (\<lambda>x. k \<le> 30 \<longrightarrow> x \<noteq> w OR mask (32 - k)) ws)"
proof (cases "k \<le> 30")
  case True
  have "ip_string (put_u32 x) = u32_string x" for x
    by (simp add: ip_string_def u32_string_def)
  then show ?thesis
    using True IPRange_prefix_net [of k w]
    by (simp add: FilterBoundaryBroadcast_def mask_size_cidr_mask filter_map comp_def)
next
  case False
  then show ?thesis
    using assms by (simp add: FilterBoundaryBroadcast_def mask_size_cidr_mask)
qed

lemma FilterBoundaryBroadcast_exact_witness:
  "FilterBoundaryBroadcast (map u32_string [0x0a000000, 0x0a0000ff]) (Some (prefix_net 0x0a000000 24)) =
     map u32_string [0x0a000000]"
proof -
  have "(0x0a000000 :: 32 word) OR mask 8 = 0x0a0000ff" by code_simp
  then show ?thesis using FilterBoundaryBroadcast_exact [of 24 "[0x0a000000, 0x0a0000ff]" "0x0a000000"] by simp
qed

text \<open>
  IndexToIPv4Target walks the network without wrapping: for every index below hosts*ports the
  target address is in the network, offset index/ports from its first address, and larger indices
  are refused.
\<close>

theorem IndexToIPv4Target_in_network:
  assumes "k \<le> 32" and "ports \<noteq> []" and "0 \<le> i"
  shows "if i < 2 ^ (32 - k) * int (length ports)
    then \<exists>a. IndexToIPv4Target (Some (prefix_net w k)) ports i =
        Inr (u32_string a, ports ! (nat i mod length ports))
      \<and> ipnet_contains (prefix_net w k) (put_u32 a)
      \<and> unat a = unat (w AND pmask k) + nat i div length ports
    else IndexToIPv4Target (Some (prefix_net w k)) ports i = Inl IndexOutOfRange"
proof -
  let ?o = "nat i div length ports" and ?lo = "w AND pmask k"
  have m: "0 < length ports" using assms(2) by simp
  have range: "i < 2 ^ (32 - k) * int (length ports) \<longleftrightarrow> ?o < 2 ^ (32 - k)"
  proof -
    have "i < 2 ^ (32 - k) * int (length ports) \<longleftrightarrow> nat i < 2 ^ (32 - k) * length ports"
      using assms(3) by (simp add: nat_less_iff)
    then show ?thesis using m by (simp add: div_less_iff_less_mult)
  qed
  have unfold: "IndexToIPv4Target (Some (prefix_net w k)) ports i =
      (if 2 ^ (32 - k) \<le> ?o then Inl IndexOutOfRange
       else Inr (u32_string (?lo + of_nat ?o), ports ! (nat i mod length ports)))"
    using assms by (simp add: IndexToIPv4Target_def CountIPv4Hosts_def mask_size_cidr_mask Let_def)
  show ?thesis
  proof (cases "?o < 2 ^ (32 - k)")
    case True
    have hi: "unat (w OR mask (32 - k)) + 1 = unat ?lo + 2 ^ (32 - k)"
      using block_size [of "32 - k" w] block_order [of "32 - k" w]
      by (auto simp: pmask_def word_le_nat_alt)
    have "unat (w OR mask (32 - k)) < 2 ^ 32"
      using unsigned_less [of "w OR mask (32 - k)", where ?'a = nat] by simp
    then have "unat (?lo + of_nat ?o) = unat ?lo + ?o"
      using True hi by (simp add: unat_word_ariths unsigned_of_nat take_bit_nat_eq_self)
    then have "unat (?lo + of_nat ?o) = unat ?lo + ?o \<and>
        ipnet_contains (prefix_net w k) (put_u32 (?lo + of_nat ?o))"
      using True hi assms(1) by (simp add: contains_prefix_net word_le_nat_alt)
    then show ?thesis using True range unfold by auto
  next
    case False
    then show ?thesis using range unfold by simp
  qed
qed

lemma IndexToIPv4Target_in_network_witness:
  "IndexToIPv4Target (Some (prefix_net 0x0a000000 30)) [80, 443] 8 = Inl IndexOutOfRange"
  using IndexToIPv4Target_in_network [of 30 "[80, 443]" 8 "0x0a000000"] by simp

end
