(* ===== verification/GroupBuild.thy ===== *)
theory GroupBuild
  imports TaskExpand "HOL-Library.AList"
begin

text \<open>
  \<open>pkg/scanapp/group_builder.go\<close> and the target types of runtime_types.go: policy rows become
  scan targets, grouped by destination network, one target per execution key over all groups,
  denied keys excluded.

  A Go map that is built up and then iterated is an association list with distinct keys
  (\<open>AList.update\<close>, \<open>map_of\<close>); no result depends on its order. Loops that poll the context once
  per 4,096 iterations do so through \<open>poll_at\<close>.
\<close>

section \<open>runtime_types.go\<close>

record targetMeta =
  tm_fabName :: string
  tm_cidrName :: string
  tm_serviceLabel :: string
  tm_decision :: string
  tm_policyID :: string
  tm_reason :: string
  tm_executionKey :: string
  tm_srcIP :: string
  tm_srcNetworkSegment :: string

record scanTarget =
  t_ip :: string
  t_ipCidr :: string
  t_ipU32 :: "32 word"
  t_port :: int
  t_meta :: targetMeta

record basicScanTarget =
  bt_ip :: string
  bt_ipU32 :: "32 word"
  bt_meta :: "targetMeta option"

record cidrGroup =
  g_cidr :: string
  g_ports :: "string list"
  g_targets :: "scanTarget list"
  g_basicTargets :: "basicScanTarget list"
  g_totalCount :: int

definition empty_meta :: targetMeta where
  "empty_meta = \<lparr>tm_fabName = [], tm_cidrName = [], tm_serviceLabel = [], tm_decision = [],
     tm_policyID = [], tm_reason = [], tm_executionKey = [], tm_srcIP = [],
     tm_srcNetworkSegment = []\<rparr>"

definition empty_group :: cidrGroup where
  "empty_group = \<lparr>g_cidr = [], g_ports = [], g_targets = [], g_basicTargets = [], g_totalCount = 0\<rparr>"

datatype group_error =
    GroupCanceled | NoUsableInputRows | MissingExecutionKey int | MissingDstSegment int
  | MissingDstIP int | SelectorExpansion string expand_error | TargetKey int key_error
  | MergeWithoutKey | MergeDifferentKeys string string | InconsistentPort string
  | RecordMissingCIDR | RecordMissingSelector string | NoPortSource int | BasicKey key_error
  | BadPortRows string | ChunkWithoutPorts string | NoScannableTargets string | MixedTargetStorage

definition targetCount :: "cidrGroup \<Rightarrow> nat" where
  "targetCount g = length (g_targets g) + length (g_basicTargets g)"

definition validateTargetStorage :: "cidrGroup \<Rightarrow> group_error + unit" where
  "validateTargetStorage g =
    (if g_targets g \<noteq> [] \<and> g_basicTargets g \<noteq> [] then Inl MixedTargetStorage else Inr ())"

definition firstTargetMeta :: "cidrGroup \<Rightarrow> targetMeta" where
  "firstTargetMeta g =
    (if g_targets g \<noteq> [] then t_meta (hd (g_targets g))
     else if g_basicTargets g \<noteq> [] then
       (case bt_meta (hd (g_basicTargets g)) of Some m \<Rightarrow> m | None \<Rightarrow> empty_meta)
     else empty_meta)"

definition poll_at :: "nat \<Rightarrow> ctx \<Rightarrow> group_error + ctx" where
  "poll_at i c = (if i mod 4096 = 0
     then (case ctx_poll 1 c of None \<Rightarrow> Inl GroupCanceled | Some c' \<Rightarrow> Inr c') else Inr c)"

definition ipv4ToUint32 :: "string \<Rightarrow> 32 word" where
  "ipv4ToUint32 ip = (case parse_ip4 ip of None \<Rightarrow> 0 | Some v \<Rightarrow> be_u32 v)"

section \<open>Merging metadata\<close>

definition mergeFieldValue :: "string \<Rightarrow> string \<Rightarrow> string" where
  "mergeFieldValue existing0 incoming0 =
    (let existing = trim_space existing0; incoming = trim_space incoming0 in
     if incoming = [] \<or> existing = incoming then existing
     else if existing = [] then incoming
     else if incoming \<in> set (split_on CHR ''|'' existing) then existing
     else existing @ ''|'' @ incoming)"

definition mergeRichMetadata :: "targetMeta \<Rightarrow> targetMeta \<Rightarrow> targetMeta" where
  "mergeRichMetadata m n = m\<lparr>
     tm_fabName := mergeFieldValue (tm_fabName m) (tm_fabName n),
     tm_cidrName := mergeFieldValue (tm_cidrName m) (tm_cidrName n),
     tm_serviceLabel := mergeFieldValue (tm_serviceLabel m) (tm_serviceLabel n),
     tm_decision := mergeFieldValue (tm_decision m) (tm_decision n),
     tm_policyID := mergeFieldValue (tm_policyID m) (tm_policyID n),
     tm_reason := mergeFieldValue (tm_reason m) (tm_reason n),
     tm_srcIP := mergeFieldValue (tm_srcIP m) (tm_srcIP n),
     tm_srcNetworkSegment := mergeFieldValue (tm_srcNetworkSegment m) (tm_srcNetworkSegment n)\<rparr>"

abbreviation target_key :: "scanTarget \<Rightarrow> string" where
  "target_key t \<equiv> trim_space (tm_executionKey (t_meta t))"

definition mergeRichTargetValues :: "scanTarget \<Rightarrow> scanTarget \<Rightarrow> group_error + scanTarget" where
  "mergeRichTargetValues dst incoming =
    (let key = target_key dst in
     if key = [] then Inl MergeWithoutKey
     else if target_key incoming \<noteq> key then Inl (MergeDifferentKeys key (target_key incoming))
     else if t_port dst \<noteq> t_port incoming then Inl (InconsistentPort key)
     else Inr (dst\<lparr>t_meta := mergeRichMetadata (t_meta dst) (t_meta incoming)\<rparr>))"

section \<open>The targets of one row\<close>

definition richRecordDenied :: "CIDRRecord \<Rightarrow> bool" where
  "richRecordDenied r \<longleftrightarrow> IsRich r \<and> IsValid r \<and> equal_fold (trim_space (Decision r)) ''deny''"

definition deniedRichExecutionKeys :: "CIDRRecord list \<Rightarrow> string list" where
  "deniedRichExecutionKeys records =
     filter (\<lambda>k. k \<noteq> []) (map (\<lambda>r. trim_space (ExecutionKey r)) (filter richRecordDenied records))"

definition richCIDRKey :: "CIDRRecord \<Rightarrow> group_error + string" where
  "richCIDRKey r =
    (if trim_space (DstNetworkSegment r) \<noteq> [] then Inr (trim_space (DstNetworkSegment r))
     else if trim_space (CIDR r) \<noteq> [] then Inr (trim_space (CIDR r))
     else (case Net r of Some n \<Rightarrow> Inr (ipnet_string n) | None \<Rightarrow> Inl (MissingDstSegment (RowNumber r))))"

definition no_limits :: ExpansionLimits where
  "no_limits = \<lparr>candidateLimit = 0, memoryLimitGB = 0, memoryLimitByte = 0\<rparr>"

definition expand_or :: "string \<Rightarrow> expand_error + 'a \<Rightarrow> group_error + 'a" where
  "expand_or cidr r = (case r of Inl e \<Rightarrow> Inl (SelectorExpansion cidr e) | Inr a \<Rightarrow> Inr a)"

definition richTargetIPsContext :: "ctx \<Rightarrow> CIDRRecord \<Rightarrow> group_error + ctx \<times> string list" where
  "richTargetIPsContext c r =
    (if equal_fold (trim_space (Reason r)) ''PRECHECK_ALLOW_ALL'' then
       try_bind (richCIDRKey r) (\<lambda>cidr. expand_or cidr (expand_ctx c [cidr] no_limits))
     else if trim_space (DstIP r) = [] then Inl (MissingDstIP (RowNumber r))
     else Inr (c, [trim_space (DstIP r)]))"

definition richProtocol :: "CIDRRecord \<Rightarrow> string" where
  "richProtocol r = (let p = to_lower (trim_space (Protocol r)) in if p = [] then ''tcp'' else p)"

definition rich_target :: "CIDRRecord \<Rightarrow> string \<Rightarrow> string \<Rightarrow> string \<Rightarrow> scanTarget" where
  "rich_target r cidr ip executionKey =
     \<lparr>t_ip = ip, t_ipCidr = cidr, t_ipU32 = ipv4ToUint32 ip, t_port = Port r,
      t_meta = \<lparr>tm_fabName = FabName r, tm_cidrName = CIDRName r, tm_serviceLabel = ServiceLabel r,
        tm_decision = Decision r, tm_policyID = PolicyID r, tm_reason = Reason r,
        tm_executionKey = executionKey, tm_srcIP = SrcIP r,
        tm_srcNetworkSegment = SrcNetworkSegment r\<rparr>\<rparr>"

definition rich_target_step :: "CIDRRecord \<Rightarrow> string \<Rightarrow> string \<Rightarrow> ctx \<times> scanTarget list \<Rightarrow> nat \<times> string \<Rightarrow>
    group_error + ctx \<times> scanTarget list" where
  "rich_target_step r cidr key s iip = (case (s, iip) of ((c, targets), (i, ip)) \<Rightarrow>
     try_bind (poll_at i c) (\<lambda>c'.
     if trim_space ip \<noteq> trim_space (DstIP r) then
       (case BuildExecutionKey ip (Port r) (richProtocol r) of
          Inl e \<Rightarrow> Inl (TargetKey (RowNumber r) e)
        | Inr k \<Rightarrow> Inr (c', targets @ [rich_target r cidr ip k]))
     else Inr (c', targets @ [rich_target r cidr ip key])))"

definition richTargetsFromRecordContext :: "ctx \<Rightarrow> CIDRRecord \<Rightarrow> group_error + ctx \<times> scanTarget list" where
  "richTargetsFromRecordContext c r =
    (let key = trim_space (ExecutionKey r) in
     if key = [] then Inl (MissingExecutionKey (RowNumber r))
     else try_bind (richCIDRKey r) (\<lambda>cidr.
       try_bind (richTargetIPsContext c r) (\<lambda>(c1, ips).
       let ips' = (case parse_cidr cidr of None \<Rightarrow> ips
                   | Some seg \<Rightarrow> FilterBoundaryBroadcast ips (Some seg)) in
       try_fold (rich_target_step r cidr key) (c1, []) (enumerate 0 ips'))))"

definition filterAuthorizedRichTargets :: "scanTarget list \<Rightarrow> string list \<Rightarrow> scanTarget list" where
  "filterAuthorizedRichTargets targets denied = filter (\<lambda>t. target_key t \<notin> set denied) targets"

definition normalizeReachablePredicate :: "(string \<Rightarrow> bool) option \<Rightarrow> string \<Rightarrow> bool" where
  "normalizeReachablePredicate reachable = (case reachable of None \<Rightarrow> (\<lambda>_. True) | Some p \<Rightarrow> p)"

definition filterScanTargetsContext ::
  "ctx \<Rightarrow> scanTarget list \<Rightarrow> (string \<Rightarrow> bool) \<Rightarrow> group_error + ctx \<times> scanTarget list" where
  "filterScanTargetsContext c targets reachable =
    (case ctx_poll (polls_for (length targets)) c of None \<Rightarrow> Inl GroupCanceled
     | Some c' \<Rightarrow> Inr (c', filter (\<lambda>t. reachable (t_ip t)) targets))"

section \<open>buildRichGroupsWithPredicateContext\<close>

type_synonym groups = "(string \<times> cidrGroup) list"
type_synonym owners = "(string \<times> (string \<times> nat)) list"

definition get_group :: "groups \<Rightarrow> string \<Rightarrow> cidrGroup" where
  \<comment> \<open>reading a missing key of a Go map gives the zero value\<close>
  "get_group gs k = (case map_of gs k of None \<Rightarrow> empty_group | Some g \<Rightarrow> g)"

definition insert_target :: "string \<Rightarrow> string \<Rightarrow> scanTarget \<Rightarrow> groups \<times> owners \<Rightarrow> group_error + groups \<times> owners" where
  "insert_target cidr key t s = (case s of (gs, owner) \<Rightarrow>
    (case map_of owner key of
       None \<Rightarrow>
         (let g = get_group gs cidr in
          Inr (AList.update cidr (g\<lparr>g_targets := g_targets g @ [t]\<rparr>) gs,
               AList.update key (cidr, length (g_targets g)) owner))
     | Some (ocidr, index) \<Rightarrow>
         (let g = get_group gs ocidr in
          try_bind (mergeRichTargetValues (g_targets g ! index) t) (\<lambda>t'.
            Inr (AList.update ocidr (g\<lparr>g_targets := (g_targets g)[index := t']\<rparr>) gs, owner)))))"

definition rich_insert_step :: "int \<Rightarrow> string \<Rightarrow> ctx \<times> groups \<times> owners \<Rightarrow> nat \<times> scanTarget \<Rightarrow>
    group_error + ctx \<times> groups \<times> owners" where
  "rich_insert_step rowNumber cidr s it = (case (s, it) of ((c, gs, owner), (i, t)) \<Rightarrow>
     try_bind (poll_at i c) (\<lambda>c'.
       if target_key t = [] then Inl (MissingExecutionKey rowNumber)
       else try_bind (insert_target cidr (target_key t) t (gs, owner)) (\<lambda>(gs', owner').
         Inr (c', gs', owner'))))"

definition rich_record_step :: "string list \<Rightarrow> (string \<Rightarrow> bool) \<Rightarrow> ctx \<times> groups \<times> owners \<times> bool \<Rightarrow>
    nat \<times> CIDRRecord \<Rightarrow> group_error + ctx \<times> groups \<times> owners \<times> bool" where
  \<comment> \<open>the last component is \<open>hasValidRichInput\<close>\<close>
  "rich_record_step denied reachable s ir = (case (s, ir) of ((c, gs, owner, valid), (i, r)) \<Rightarrow>
     try_bind (poll_at i c) (\<lambda>c1.
     if \<not> IsRich r \<or> \<not> IsValid r then Inr (c1, gs, owner, valid)
     else if richRecordDenied r then Inr (c1, gs, owner, True)
     else try_bind (richCIDRKey r) (\<lambda>cidr.
       try_bind (richTargetsFromRecordContext c1 r) (\<lambda>(c2, targets).
       try_bind (filterScanTargetsContext c2 (filterAuthorizedRichTargets targets denied) reachable)
         (\<lambda>(c3, targets').
       try_bind (try_fold (rich_insert_step (RowNumber r) cidr) (c3, gs, owner) (enumerate 0 targets'))
         (\<lambda>(c4, gs', owner'). Inr (c4, gs', owner', True)))))))"

text \<open>\<open>sort.Slice\<close> by address, then port, then trimmed key: three stable sorts.\<close>

definition sort_rich_targets :: "scanTarget list \<Rightarrow> scanTarget list" where
  "sort_rich_targets ts = sort_key t_ipU32 (sort_key t_port (sort_key target_key ts))"

definition sortRichGroups :: "groups \<Rightarrow> groups" where
  "sortRichGroups gs = map (\<lambda>(k, g). (k, g\<lparr>g_targets := sort_rich_targets (g_targets g)\<rparr>)) gs"

definition buildRichGroupsWithPredicateContext ::
  "ctx \<Rightarrow> CIDRRecord list \<Rightarrow> (string \<Rightarrow> bool) option \<Rightarrow> group_error + groups" where
  "buildRichGroupsWithPredicateContext c records reachable =
    try_bind (try_fold (rich_record_step (deniedRichExecutionKeys records)
        (normalizeReachablePredicate reachable)) (c, [], [], False) (enumerate 0 records))
    (\<lambda>(c', gs, owner, valid).
      if gs = [] then (if valid then Inr [] else Inl NoUsableInputRows)
      else Inr (sortRichGroups gs))"

section \<open>The owner map is exact\<close>

text \<open>The target at position \<open>i\<close> of group \<open>cidr\<close>.\<close>

definition target_at :: "groups \<Rightarrow> string \<times> nat \<Rightarrow> scanTarget option" where
  "target_at gs p = (case map_of gs (fst p) of None \<Rightarrow> None
     | Some g \<Rightarrow> if snd p < length (g_targets g) then Some (g_targets g ! snd p) else None)"

text \<open>
  Between insertions the owner map is exactly the map from trimmed execution keys to positions.
  \<open>P\<close> is a property of the key and address of a target, which merging never changes.
\<close>

definition owners_exact :: "(string \<Rightarrow> string \<Rightarrow> bool) \<Rightarrow> groups \<times> owners \<Rightarrow> bool" where
  "owners_exact P s \<longleftrightarrow> (case s of (gs, owner) \<Rightarrow> distinct (map fst gs) \<and>
     (\<forall>cidr g. map_of gs cidr = Some g \<longrightarrow> g_targets g \<noteq> [] \<and> g_basicTargets g = []) \<and>
     (\<forall>key p. map_of owner key = Some p \<longleftrightarrow> (\<exists>t. target_at gs p = Some t \<and> target_key t = key)) \<and>
     (\<forall>p t. target_at gs p = Some t \<longrightarrow> P (target_key t) (t_ip t)))"

lemma owners_exactD:
  assumes "owners_exact P (gs, owner)"
  shows "distinct (map fst gs)" "map_of gs cidr = Some g \<Longrightarrow> g_targets g \<noteq> [] \<and> g_basicTargets g = []"
    "map_of owner key = Some p \<longleftrightarrow> (\<exists>t. target_at gs p = Some t \<and> target_key t = key)"
    "target_at gs p = Some t \<Longrightarrow> P (target_key t) (t_ip t)"
  using assms unfolding owners_exact_def prod.case by blast+

lemma merge_keeps:
  assumes "mergeRichTargetValues dst incoming = Inr t"
  shows "t_ip t = t_ip dst" "t_port t = t_port dst"
    "tm_executionKey (t_meta t) = tm_executionKey (t_meta dst)" "target_key incoming = target_key dst"
  using assms by (auto simp: mergeRichTargetValues_def mergeRichMetadata_def Let_def split: if_splits)

lemma map_of_update [simp]: "map_of (AList.update k v al) = (map_of al)(k \<mapsto> v)"
  by (rule update_conv')

lemma target_at_append:
  "target_at (AList.update cidr ((get_group gs cidr)\<lparr>g_targets := g_targets (get_group gs cidr) @ [t]\<rparr>) gs) p =
    (if p = (cidr, length (g_targets (get_group gs cidr))) then Some t else target_at gs p)"
  by (cases p) (auto simp: target_at_def get_group_def empty_group_def nth_append split: option.splits)

lemma target_at_update:
  assumes "map_of gs cidr = Some g" and "i < length (g_targets g)"
  shows "target_at (AList.update cidr (g\<lparr>g_targets := (g_targets g)[i := t]\<rparr>) gs) p =
    (if p = (cidr, i) then Some t else target_at gs p)"
  using assms by (cases p) (auto simp: target_at_def nth_list_update split: option.splits)

lemma insert_target_new:
  assumes inv: "owners_exact P (gs, owner)" and P: "P (target_key t) (t_ip t)"
    and new: "map_of owner (target_key t) = None"
  shows "\<exists>gs' owner'. insert_target cidr (target_key t) t (gs, owner) = Inr (gs', owner') \<and>
    owners_exact P (gs', owner') \<and> dom (map_of owner') = insert (target_key t) (dom (map_of owner)) \<and> gs' \<noteq> []"
proof -
  let ?g = "get_group gs cidr" and ?k = "target_key t"
  let ?gs = "AList.update cidr (?g\<lparr>g_targets := g_targets ?g @ [t]\<rparr>) gs"
  let ?p = "(cidr, length (g_targets ?g))"
  have free: "target_at gs ?p = None" by (auto simp: target_at_def get_group_def split: option.splits)
  have own: "map_of owner key = Some p \<longleftrightarrow> (\<exists>t. target_at gs p = Some t \<and> target_key t = key)" for key p
    by (rule owners_exactD(3) [OF inv])
  have own': "map_of (AList.update ?k ?p owner) key = Some p \<longleftrightarrow>
      (\<exists>t. target_at ?gs p = Some t \<and> target_key t = key)" for key p
  proof (cases "p = ?p")
    case True
    have "map_of owner key \<noteq> Some ?p" using own [of key ?p] free by auto
    then show ?thesis using True by (auto simp: target_at_append)
  next
    case False
    have "map_of owner key = Some p \<Longrightarrow> key \<noteq> ?k" using new by auto
    then show ?thesis using False own [of key p] by (auto simp: target_at_append)
  qed
  have "\<forall>c g. map_of ?gs c = Some g \<longrightarrow> g_targets g \<noteq> [] \<and> g_basicTargets g = []"
    using owners_exactD(2) [OF inv] by (auto simp: get_group_def empty_group_def split: option.splits)
  moreover have "\<forall>p u. target_at ?gs p = Some u \<longrightarrow> P (target_key u) (t_ip u)"
    using owners_exactD(4) [OF inv] P by (auto simp: target_at_append)
  moreover have "distinct (map fst ?gs)"
    using owners_exactD(1) [OF inv] by (simp add: distinct_update)
  ultimately have "owners_exact P (?gs, AList.update ?k ?p owner)"
    unfolding owners_exact_def prod.case using own' by blast
  then show ?thesis
    using new by (intro exI [of _ ?gs] exI [of _ "AList.update ?k ?p owner"])
      (auto simp: insert_target_def Let_def update_nonempty)
qed

lemma insert_target_old:
  assumes inv: "owners_exact P (gs, owner)" and old: "map_of owner (target_key t) = Some p"
    and res: "insert_target cidr (target_key t) t (gs, owner) = Inr (gs', owner')"
  shows "owners_exact P (gs', owner') \<and> owner' = owner \<and> gs' \<noteq> []"
proof -
  obtain oc i where p: "p = (oc, i)" by (cases p)
  from old obtain u where u: "target_at gs (oc, i) = Some u" "target_key u = target_key t"
    using owners_exactD(3) [OF inv] p by blast
  then obtain g where g: "map_of gs oc = Some g" "i < length (g_targets g)" "u = g_targets g ! i"
    by (auto simp: target_at_def split: option.splits if_splits)
  from res obtain u' where m: "mergeRichTargetValues u t = Inr u'"
      "gs' = AList.update oc (g\<lparr>g_targets := (g_targets g)[i := u']\<rparr>) gs" "owner' = owner"
    using old p g by (auto simp: insert_target_def Let_def get_group_def try_bind_eq_Inr)
  have at: "target_at gs' q = (if q = (oc, i) then Some u' else target_at gs q)" for q
    unfolding m(2) by (rule target_at_update [OF g(1,2)])
  have "map_of owner key = Some q \<longleftrightarrow> (\<exists>t. target_at gs' q = Some t \<and> target_key t = key)" for key q
    using owners_exactD(3) [OF inv, of key q] u(1) merge_keeps(3) [OF m(1)]
    by (cases "q = (oc, i)") (simp_all add: at)
  moreover have "\<forall>q x. target_at gs' q = Some x \<longrightarrow> P (target_key x) (t_ip x)"
    using owners_exactD(4) [OF inv] u(1) merge_keeps(1,3) [OF m(1)] by (metis at option.inject)
  moreover have "\<forall>c g. map_of gs' c = Some g \<longrightarrow> g_targets g \<noteq> [] \<and> g_basicTargets g = []"
    using owners_exactD(2) [OF inv] g(1,2) by (auto simp: m(2))
  moreover have "distinct (map fst gs')"
    using owners_exactD(1) [OF inv] by (simp add: m(2) distinct_update)
  ultimately show ?thesis
    unfolding owners_exact_def prod.case using m(2,3) by (auto simp: update_nonempty)
qed

lemma insert_target_inv:
  assumes "owners_exact P (gs, owner)" and "P (target_key t) (t_ip t)"
    and "insert_target cidr (target_key t) t (gs, owner) = Inr (gs', owner')"
  shows "owners_exact P (gs', owner') \<and> dom (map_of owner') = insert (target_key t) (dom (map_of owner)) \<and> gs' \<noteq> []"
proof (cases "map_of owner (target_key t)")
  case None
  then show ?thesis using insert_target_new [OF assms(1,2) None, of cidr] assms(3) by auto
next
  case (Some p)
  then show ?thesis using insert_target_old [OF assms(1) Some assms(3)] by auto
qed

section \<open>The whole build\<close>

lemma rich_insert_step_Inr:
  assumes "rich_insert_step rowNumber cidr (c, gs, owner) (i, t) = Inr s"
  obtains c' gs' owner' where "s = (c', gs', owner')" "target_key t \<noteq> []"
    "insert_target cidr (target_key t) t (gs, owner) = Inr (gs', owner')"
  using assms by (auto simp: rich_insert_step_def try_bind_eq_Inr split: if_splits)

lemma insert_targets_inv:
  assumes "try_fold (rich_insert_step rowNumber cidr) (c, gs, owner) (enumerate k ts) = Inr (c', gs', owner')"
    and "owners_exact P (gs, owner)" and "\<forall>t \<in> set ts. target_key t \<noteq> [] \<longrightarrow> P (target_key t) (t_ip t)"
  shows "owners_exact P (gs', owner') \<and>
    dom (map_of owner') = target_key ` set ts \<union> dom (map_of owner) \<and> (gs \<noteq> [] \<longrightarrow> gs' \<noteq> [])"
  using assms
proof (induction ts arbitrary: c gs owner k)
  case Nil
  then show ?case by auto
next
  case (Cons t ts)
  from Cons.prems(1) obtain st where st: "rich_insert_step rowNumber cidr (c, gs, owner) (k, t) = Inr st"
      "try_fold (rich_insert_step rowNumber cidr) st (enumerate (Suc k) ts) = Inr (c', gs', owner')"
    by (auto simp: try_bind_eq_Inr)
  from st(1) obtain c1 gs1 owner1 where s: "st = (c1, gs1, owner1)" "target_key t \<noteq> []"
      "insert_target cidr (target_key t) t (gs, owner) = Inr (gs1, owner1)"
    by (rule rich_insert_step_Inr)
  have 1: "owners_exact P (gs1, owner1) \<and> dom (map_of owner1) = insert (target_key t) (dom (map_of owner)) \<and> gs1 \<noteq> []"
    using insert_target_inv [OF Cons.prems(2) _ s(3)] Cons.prems(3) s(2) by auto
  have "owners_exact P (gs', owner') \<and>
      dom (map_of owner') = target_key ` set ts \<union> dom (map_of owner1) \<and> (gs1 \<noteq> [] \<longrightarrow> gs' \<noteq> [])"
    using Cons.IH [OF st(2) [unfolded s(1)]] 1 Cons.prems(3) by simp
  then show ?case using 1 by auto
qed

text \<open>The targets a record contributes, in a run that is not canceled.\<close>

definition record_targets :: "string list \<Rightarrow> (string \<Rightarrow> bool) \<Rightarrow> CIDRRecord \<Rightarrow> scanTarget list" where
  "record_targets denied reachable r =
    (if IsRich r \<and> IsValid r \<and> \<not> richRecordDenied r then
       (case richTargetsFromRecordContext None r of Inl _ \<Rightarrow> []
        | Inr (_, ts) \<Rightarrow> filter (\<lambda>t. reachable (t_ip t)) (filterAuthorizedRichTargets ts denied))
     else [])"

definition may_scan :: "string list \<Rightarrow> (string \<Rightarrow> bool) \<Rightarrow> string \<Rightarrow> string \<Rightarrow> bool" where
  "may_scan denied reachable key ip \<longleftrightarrow> key \<noteq> [] \<and> key \<notin> set denied \<and> reachable ip"

lemma record_step_inv:
  assumes "rich_record_step denied reachable (c, gs, owner, valid) (i, r) = Inr (c', gs', owner', valid')"
    and "owners_exact (may_scan denied reachable) (gs, owner)"
  shows "owners_exact (may_scan denied reachable) (gs', owner')"
proof -
  consider "(gs', owner') = (gs, owner)"
    | c2 cidr ts where "try_fold (rich_insert_step (RowNumber r) cidr) (c2, gs, owner)
        (enumerate 0 (filter (\<lambda>t. reachable (t_ip t)) (filterAuthorizedRichTargets ts denied))) = Inr (c', gs', owner')"
    using assms(1)
    by (auto simp: rich_record_step_def try_bind_eq_Inr filterScanTargetsContext_def
        split: if_splits option.splits)
  then show ?thesis
  proof cases
    case 1
    then show ?thesis using assms(2) by simp
  next
    case 2
    show ?thesis
      by (rule insert_targets_inv [OF 2 assms(2), THEN conjunct1])
        (auto simp: may_scan_def filterAuthorizedRichTargets_def)
  qed
qed

lemma filterScan_Background [simp]:
  "filterScanTargetsContext None ts reachable = Inr (None, filter (\<lambda>t. reachable (t_ip t)) ts)"
  by (simp add: filterScanTargetsContext_def)

lemma poll_at_Background [simp]: "poll_at i None = Inr None"
  by (simp add: poll_at_def)

lemma expand_selector_ctx: "expand_selector None uniq raw = Inr (c', u) \<Longrightarrow> c' = None"
  by (auto simp: expand_selector_def Let_def range_loop_Background split: option.splits if_splits prod.splits)

lemma expand_ctx_Background: "expand_ctx None sels limits = Inr (c', ips) \<Longrightarrow> c' = None"
proof -
  assume "expand_ctx None sels limits = Inr (c', ips)"
  then obtain c2 uniq where f: "try_fold (\<lambda>(c, uniq) raw. expand_selector c uniq raw) (None, {}) sels = Inr (c2, uniq)"
      "ctx_poll (2 * polls_for (card uniq)) c2 = Some c'"
    by (auto simp: expand_ctx_def try_bind_eq_Inr split: option.split_asm)
  have "(\<lambda>s. fst s = None) (c2, uniq)"
    by (rule try_fold_invariant [OF f(1)]) (auto dest: expand_selector_ctx)
  then show "c' = None" using f(2) by simp
qed

lemma expand_or_Inr [simp]: "expand_or cidr r = Inr a \<longleftrightarrow> r = Inr a"
  by (auto simp: expand_or_def split: sum.splits)

lemma rich_targets_Background:
  assumes "richTargetsFromRecordContext None r = Inr (c', ts)"
  shows "c' = None"
proof -
  from assms obtain cidr c1 ips where r: "richTargetIPsContext None r = Inr (c1, ips)"
    and f: "try_fold (rich_target_step r cidr (trim_space (ExecutionKey r))) (c1, [])
      (enumerate 0 (case parse_cidr cidr of None \<Rightarrow> ips | Some seg \<Rightarrow> FilterBoundaryBroadcast ips (Some seg)))
      = Inr (c', ts)"
    by (auto simp: richTargetsFromRecordContext_def Let_def try_bind_eq_Inr split: if_splits)
  have c1: "c1 = None"
    using r by (auto simp: richTargetIPsContext_def try_bind_eq_Inr
        dest: expand_ctx_Background split: if_splits)
  have "(\<lambda>s. fst s = None) (c', ts)"
    by (rule try_fold_invariant [OF f])
      (auto simp: c1 rich_target_step_def try_bind_eq_Inr split: if_splits sum.splits)
  then show ?thesis by simp
qed

lemma record_step_Background:
  assumes "rich_record_step denied reachable (None, gs, owner, valid) (i, r) = Inr (c', gs', owner', valid')"
    and "owners_exact (may_scan denied reachable) (gs, owner)"
  shows "c' = None \<and> dom (map_of owner') = target_key ` set (record_targets denied reachable r) \<union> dom (map_of owner)
    \<and> (record_targets denied reachable r = [] \<and> (gs', owner') = (gs, owner) \<or> gs' \<noteq> [])"
proof (cases "IsRich r \<and> IsValid r \<and> \<not> richRecordDenied r")
  case False
  then have "(c', gs', owner') = (None, gs, owner)" "record_targets denied reachable r = []"
    using assms(1) by (auto simp: rich_record_step_def record_targets_def split: if_splits)
  then show ?thesis by simp
next
  case True
  let ?ts = "\<lambda>ts. filter (\<lambda>t. reachable (t_ip t)) (filterAuthorizedRichTargets ts denied)"
  from assms(1) True obtain cidr c2 ts where ts: "richTargetsFromRecordContext None r = Inr (c2, ts)"
    and f: "try_bind (filterScanTargetsContext c2 (filterAuthorizedRichTargets ts denied) reachable)
        (\<lambda>(c3, targets').
       try_bind (try_fold (rich_insert_step (RowNumber r) cidr) (c3, gs, owner) (enumerate 0 targets'))
         (\<lambda>(c4, gs', owner'). Inr (c4, gs', owner', True))) = Inr (c', gs', owner', valid')"
    by (auto simp: rich_record_step_def try_bind_eq_Inr)
  have c2: "c2 = None" using rich_targets_Background [OF ts] .
  have fold: "try_fold (rich_insert_step (RowNumber r) cidr) (None, gs, owner) (enumerate 0 (?ts ts)) =
      Inr (c', gs', owner')"
    using f by (auto simp: c2 try_bind_eq_Inr)
  have rt: "record_targets denied reachable r = ?ts ts"
    using True ts by (simp add: record_targets_def)
  have inv: "dom (map_of owner') = target_key ` set (?ts ts) \<union> dom (map_of owner)"
    by (rule insert_targets_inv [OF fold assms(2), THEN conjunct2, THEN conjunct1])
      (auto simp: may_scan_def filterAuthorizedRichTargets_def)
  have "(\<lambda>s. fst s = None) (c', gs', owner')"
    by (rule try_fold_invariant [OF fold])
      (auto simp: rich_insert_step_def try_bind_eq_Inr split: if_splits)
  moreover have "?ts ts = [] \<and> (gs', owner') = (gs, owner) \<or> gs' \<noteq> []"
  proof (cases "?ts ts")
    case Nil
    then show ?thesis using fold by simp
  next
    case (Cons t ts')
    then obtain st where "rich_insert_step (RowNumber r) cidr (None, gs, owner) (0, t) = Inr st"
        "try_fold (rich_insert_step (RowNumber r) cidr) st (enumerate 1 ts') = Inr (c', gs', owner')"
      using fold by (auto simp: try_bind_eq_Inr)
    moreover from this(1) obtain c1 gs1 o1 where st: "st = (c1, gs1, o1)"
        "insert_target cidr (target_key t) t (gs, owner) = Inr (gs1, o1)" "target_key t \<noteq> []"
      by (rule rich_insert_step_Inr)
    moreover have "may_scan denied reachable (target_key u) (t_ip u)" if "u \<in> set (?ts ts)" "target_key u \<noteq> []" for u
      using that by (auto simp: may_scan_def filterAuthorizedRichTargets_def)
    then have ms: "\<forall>u \<in> set (t # ts'). target_key u \<noteq> [] \<longrightarrow> may_scan denied reachable (target_key u) (t_ip u)"
      unfolding Cons [symmetric] by blast
    then have "owners_exact (may_scan denied reachable) (gs1, o1) \<and> gs1 \<noteq> []"
      using insert_target_inv [OF assms(2) _ st(2)] st(3) by simp
    ultimately show ?thesis
      using insert_targets_inv [of "RowNumber r" cidr c1 gs1 o1 1 ts' c' gs' owner' "may_scan denied reachable"] ms
      by simp
  qed
  ultimately show ?thesis using inv rt by simp
qed

definition groups_inv :: "string list \<Rightarrow> (string \<Rightarrow> bool) \<Rightarrow> string set \<Rightarrow> ctx \<times> groups \<times> owners \<times> bool \<Rightarrow> bool" where
  "groups_inv denied reachable keys s \<longleftrightarrow> (case s of (c, gs, owner, valid) \<Rightarrow>
     c = None \<and> owners_exact (may_scan denied reachable) (gs, owner) \<and> dom (map_of owner) = keys \<and>
     (gs = [] \<longrightarrow> keys = {}))"

lemma records_fold:
  assumes "try_fold (rich_record_step denied reachable) s (enumerate k records) = Inr s'"
    and "groups_inv denied reachable keys s"
  shows "groups_inv denied reachable
    (keys \<union> (\<Union>r \<in> set records. target_key ` set (record_targets denied reachable r))) s'"
  using assms
proof (induction records arbitrary: s k keys)
  case Nil
  then show ?case by simp
next
  case (Cons r records)
  obtain c gs owner valid where s: "s = (c, gs, owner, valid)" by (cases s)
  from Cons.prems(1) obtain s1 where s1: "rich_record_step denied reachable s (k, r) = Inr s1"
      "try_fold (rich_record_step denied reachable) s1 (enumerate (Suc k) records) = Inr s'"
    by (auto simp: try_bind_eq_Inr)
  obtain c1 gs1 owner1 valid1 where e: "s1 = (c1, gs1, owner1, valid1)" by (cases s1)
  have inv: "c = None" "owners_exact (may_scan denied reachable) (gs, owner)" "dom (map_of owner) = keys"
      "gs = [] \<longrightarrow> keys = {}"
    using Cons.prems(2) by (simp_all add: groups_inv_def s)
  have step: "rich_record_step denied reachable (None, gs, owner, valid) (k, r) = Inr (c1, gs1, owner1, valid1)"
    using s1(1) by (simp add: s e inv(1))
  have "groups_inv denied reachable (target_key ` set (record_targets denied reachable r) \<union> keys) s1"
    using record_step_inv [OF step inv(2)] record_step_Background [OF step inv(2)] inv
    by (auto simp: groups_inv_def e)
  from Cons.IH [OF s1(2) this] show ?case by (simp add: Un_assoc Un_left_commute Un_commute)
qed

lemma mset_sort_rich [simp]: "mset (sort_rich_targets ts) = mset ts"
  by (simp add: sort_rich_targets_def)

lemma set_sort_rich [simp]: "set (sort_rich_targets ts) = set ts"
  by (metis mset_sort_rich set_mset_mset)

lemma sorted_sort_rich: "sorted (map t_ipU32 (sort_rich_targets ts))"
  by (simp add: sort_rich_targets_def)

text \<open>Distinct keys in each group and across groups, read off the owner map.\<close>

lemma owners_exact_distinct:
  assumes "owners_exact P (gs, owner)" and "(k, g) \<in> set gs"
  shows "distinct (map target_key (g_targets g))"
proof -
  have g: "map_of gs k = Some g"
    using assms owners_exactD(1) [OF assms(1)] by simp
  show ?thesis
    unfolding distinct_conv_nth
  proof (intro allI impI)
    fix i j
    assume ij: "i < length (map target_key (g_targets g))" "j < length (map target_key (g_targets g))" "i \<noteq> j"
    have "map_of owner (target_key (g_targets g ! i)) = Some (k, i)"
      "map_of owner (target_key (g_targets g ! j)) = Some (k, j)"
      using ij g by (auto simp: owners_exactD(3) [OF assms(1)] target_at_def)
    then show "map target_key (g_targets g) ! i \<noteq> map target_key (g_targets g) ! j"
      using ij by auto
  qed
qed

lemma owners_exact_disjoint:
  assumes "owners_exact P (gs, owner)" and "(k, g) \<in> set gs" and "(k', g') \<in> set gs"
    and "t \<in> set (g_targets g)" and "t' \<in> set (g_targets g')" and "target_key t = target_key t'"
  shows "k = k'"
proof -
  have g: "map_of gs k = Some g" "map_of gs k' = Some g'"
    using assms(2,3) owners_exactD(1) [OF assms(1)] by simp_all
  from assms(4,5) obtain i j where "i < length (g_targets g)" "t = g_targets g ! i"
      "j < length (g_targets g')" "t' = g_targets g' ! j"
    by (auto simp: in_set_conv_nth)
  then have "target_at gs (k, i) = Some t" "target_at gs (k', j) = Some t'"
    using g by (simp_all add: target_at_def)
  then have "map_of owner (target_key t) = Some (k, i)" "map_of owner (target_key t) = Some (k', j)"
    using assms(6) owners_exactD(3) [OF assms(1)] by metis+
  then show ?thesis by simp
qed

lemma owners_exact_empty [simp]: "owners_exact P ([], [])"
  by (simp add: owners_exact_def target_at_def)

lemma build_rich_cases:
  assumes "buildRichGroupsWithPredicateContext c records reachable = Inr gs"
  obtains c' gs0 owner valid where
    "try_fold (rich_record_step (deniedRichExecutionKeys records) (normalizeReachablePredicate reachable))
       (c, [], [], False) (enumerate 0 records) = Inr (c', gs0, owner, valid)"
    "gs = sortRichGroups gs0"
  using assms
  by (auto simp: buildRichGroupsWithPredicateContext_def try_bind_eq_Inr sortRichGroups_def split: if_splits)

lemma build_rich_inv:
  assumes "try_fold (rich_record_step denied reachable) (c, [], [], False) (enumerate 0 records) =
      Inr (c', gs, owner, valid)"
  shows "owners_exact (may_scan denied reachable) (gs, owner)"
proof -
  have "(\<lambda>s. case s of (c, gs, owner, valid) \<Rightarrow> owners_exact (may_scan denied reachable) (gs, owner))
      (c', gs, owner, valid)"
    by (rule try_fold_invariant [OF assms]) (auto dest: record_step_inv split: prod.splits)
  then show ?thesis by simp
qed

lemma sorted_group_in:
  assumes "(k, g) \<in> set (sortRichGroups gs)"
  obtains g0 where "(k, g0) \<in> set gs" "g_targets g = sort_rich_targets (g_targets g0)"
  using assms by (auto simp: sortRichGroups_def)

text \<open>
  C21: whatever the rich build returns, no target of any group has an execution key that some
  valid row denies, every target is reachable, no two targets of one group and no two groups
  share an execution key, and every group is a nonempty list sorted by address.
\<close>

theorem rich_groups_authorized:
  assumes "buildRichGroupsWithPredicateContext c records reachable = Inr gs"
    and "(k, g) \<in> set gs"
  shows "g_targets g \<noteq> [] \<and> sorted (map t_ipU32 (g_targets g)) \<and> distinct (map target_key (g_targets g)) \<and>
    (\<forall>t \<in> set (g_targets g). target_key t \<notin> set (deniedRichExecutionKeys records) \<and>
        normalizeReachablePredicate reachable (t_ip t)) \<and>
    (\<forall>k' g'. (k', g') \<in> set gs \<longrightarrow> k' \<noteq> k \<longrightarrow>
        target_key ` set (g_targets g) \<inter> target_key ` set (g_targets g') = {})"
proof -
  let ?d = "deniedRichExecutionKeys records" and ?p = "normalizeReachablePredicate reachable"
  obtain c' gs0 owner valid where b:
    "try_fold (rich_record_step ?d ?p) (c, [], [], False) (enumerate 0 records) = Inr (c', gs0, owner, valid)"
    "gs = sortRichGroups gs0"
    using build_rich_cases [OF assms(1)] by blast
  note inv = build_rich_inv [OF b(1)]
  obtain g0 where g0: "(k, g0) \<in> set gs0" "g_targets g = sort_rich_targets (g_targets g0)"
    using assms(2) b(2) by (blast elim: sorted_group_in)
  have m: "map_of gs0 k = Some g0" using g0(1) owners_exactD(1) [OF inv] by simp
  have ne: "g_targets g \<noteq> []"
    using owners_exactD(2) [OF inv m] g0(2) mset_sort_rich [of "g_targets g0"] by (metis mset_zero_iff)
  have dist: "distinct (map target_key (g_targets g))"
  proof -
    have "mset (map target_key (g_targets g)) = mset (map target_key (g_targets g0))"
      by (simp add: g0(2))
    from mset_eq_imp_distinct_iff [OF this] owners_exact_distinct [OF inv g0(1)] show ?thesis by blast
  qed
  have ok: "target_key t \<notin> set ?d \<and> ?p (t_ip t)" if "t \<in> set (g_targets g)" for t
  proof -
    from that obtain i where "i < length (g_targets g0)" "t = g_targets g0 ! i"
      by (auto simp: g0(2) in_set_conv_nth)
    then have "target_at gs0 (k, i) = Some t" using m by (simp add: target_at_def)
    from owners_exactD(4) [OF inv this] show ?thesis by (simp add: may_scan_def)
  qed
  have "target_key ` set (g_targets g) \<inter> target_key ` set (g_targets g') = {}"
    if g': "(k', g') \<in> set gs" "k' \<noteq> k" for k' g'
  proof (rule ccontr)
    assume "target_key ` set (g_targets g) \<inter> target_key ` set (g_targets g') \<noteq> {}"
    then obtain t t' where t: "t \<in> set (g_targets g)" "t' \<in> set (g_targets g')"
        "target_key t = target_key t'" by blast
    obtain g1 where g1: "(k', g1) \<in> set gs0" "g_targets g' = sort_rich_targets (g_targets g1)"
      using g'(1) b(2) by (blast elim: sorted_group_in)
    have "k = k'"
      by (rule owners_exact_disjoint [OF inv g0(1) g1(1) _ _ t(3)]) (use t g0 g1 in simp_all)
    then show False using g'(2) by simp
  qed
  then show ?thesis
    using ne dist ok sorted_sort_rich [of "g_targets g0"] by (simp add: g0(2))
qed

definition sample_rich :: "string \<Rightarrow> string \<Rightarrow> CIDRRecord" where
  "sample_rich ip decision = zero_record\<lparr>IsRich := True, IsValid := True, DstIP := ip,
     DstNetworkSegment := ''10.0.0.0/24'', Port := 80, Protocol := ''tcp'', Decision := decision,
     ExecutionKey := ip @ '':80/tcp''\<rparr>"

definition sample_rows :: "CIDRRecord list" where
  "sample_rows = [sample_rich ''10.0.0.5'' ''accept'', sample_rich ''10.0.0.7'' ''deny'']"

lemma sample_build:
  "\<exists>g. buildRichGroupsWithPredicateContext None sample_rows None = Inr [(''10.0.0.0/24'', g)] \<and>
     map target_key (g_targets g) = [''10.0.0.5:80/tcp'']"
proof -
  have "(case buildRichGroupsWithPredicateContext None sample_rows None of
      Inl _ \<Rightarrow> None | Inr gs \<Rightarrow> Some (map (\<lambda>(k, g). (k, map target_key (g_targets g))) gs)) =
    Some [(''10.0.0.0/24'', [''10.0.0.5:80/tcp''])]"
    by code_simp
  then show ?thesis by (auto split: sum.splits)
qed

lemma rich_groups_authorized_witness:
  "\<exists>g. buildRichGroupsWithPredicateContext None sample_rows None = Inr [(''10.0.0.0/24'', g)] \<and>
     g_targets g \<noteq> [] \<and> distinct (map target_key (g_targets g))"
proof -
  obtain g where g: "buildRichGroupsWithPredicateContext None sample_rows None = Inr [(''10.0.0.0/24'', g)]"
    using sample_build by blast
  from rich_groups_authorized [OF g, of "''10.0.0.0/24''" g] g show ?thesis by auto
qed

text \<open>
  C22: the rich build loses nothing: in a run without cancellation the execution keys of the
  groups are exactly the keys of the authorized, reachable targets that the accepted rows expand
  to.
\<close>

theorem rich_groups_complete:
  assumes "buildRichGroupsWithPredicateContext None records reachable = Inr gs"
  shows "(\<Union>(k, g) \<in> set gs. target_key ` set (g_targets g)) =
    (\<Union>r \<in> set records. target_key ` set (record_targets (deniedRichExecutionKeys records)
        (normalizeReachablePredicate reachable) r))"
proof -
  let ?d = "deniedRichExecutionKeys records" and ?p = "normalizeReachablePredicate reachable"
  obtain c' gs0 owner valid where b:
    "try_fold (rich_record_step ?d ?p) (None, [], [], False) (enumerate 0 records) = Inr (c', gs0, owner, valid)"
    "gs = sortRichGroups gs0"
    using build_rich_cases [OF assms] by blast
  have "groups_inv ?d ?p {} (None, [], [], False)" by (simp add: groups_inv_def)
  from records_fold [OF b(1) this]
  have inv: "owners_exact (may_scan ?d ?p) (gs0, owner)"
    and dom: "dom (map_of owner) = (\<Union>r \<in> set records. target_key ` set (record_targets ?d ?p r))"
    by (simp_all add: groups_inv_def)
  have "(\<Union>(k, g) \<in> set gs. target_key ` set (g_targets g)) =
      (\<Union>(k, g) \<in> set gs0. target_key ` set (g_targets g))"
    by (auto simp: b(2) sortRichGroups_def split: prod.splits)
  also have "\<dots> = dom (map_of owner)"
  proof (intro equalityI subsetI)
    fix key
    assume "key \<in> (\<Union>(k, g) \<in> set gs0. target_key ` set (g_targets g))"
    then obtain k g i where g: "(k, g) \<in> set gs0" "i < length (g_targets g)" "key = target_key (g_targets g ! i)"
      by (force simp: in_set_conv_nth)
    then have "target_at gs0 (k, i) = Some (g_targets g ! i)"
      using owners_exactD(1) [OF inv] by (simp add: target_at_def)
    then show "key \<in> dom (map_of owner)" using owners_exactD(3) [OF inv, of key "(k, i)"] g(3) by auto
  next
    fix key
    assume "key \<in> dom (map_of owner)"
    then obtain k i where "map_of owner key = Some (k, i)" by auto
    then obtain t where t: "target_at gs0 (k, i) = Some t" "target_key t = key"
      using owners_exactD(3) [OF inv] by blast
    then obtain g where "(k, g) \<in> set gs0" "t \<in> set (g_targets g)"
      by (auto simp: target_at_def split: option.splits if_splits dest: map_of_SomeD)
    then show "key \<in> (\<Union>(k, g) \<in> set gs0. target_key ` set (g_targets g))" using t(2) by force
  qed
  finally show ?thesis using dom by simp
qed

lemma rich_groups_complete_witness:
  "(\<Union>r \<in> set sample_rows. target_key ` set (record_targets (deniedRichExecutionKeys sample_rows)
        (normalizeReachablePredicate None) r)) = {''10.0.0.5:80/tcp''}"
proof -
  from sample_build obtain g where
    gg: "buildRichGroupsWithPredicateContext None sample_rows None = Inr [(''10.0.0.0/24'', g)] \<and>
      map target_key (g_targets g) = [''10.0.0.5:80/tcp'']"
    by (rule exE)
  note g = gg [THEN conjunct1] gg [THEN conjunct2]
  have K: "target_key ` set (g_targets g) = {''10.0.0.5:80/tcp''}"
    using arg_cong [OF g(2), of set] by (simp only: set_map list.set)
  have L: "(\<Union>(k, g) \<in> set [(''10.0.0.0/24'', g)]. target_key ` set (g_targets g)) =
      target_key ` set (g_targets g)" by (simp only: list.set UN_insert UN_empty prod.case Un_empty_right)
  show ?thesis
    by (rule trans [OF rich_groups_complete [OF g(1), symmetric] trans [OF L K]])
qed

end
