(* ===== verification/ScanOutcome.thy ===== *)
theory ScanOutcome
  imports GoBase
begin

text \<open>
  \<open>pkg/scanner\<close>: one TCP dial (scanner.go, \<open>ScanTCP\<close>) and the structural classification of its
  error (dial_error.go). The only status that claims "this port is closed" is \<open>close\<close>; the
  theorems below say exactly when it is written.

  A Go error is the tree of the wrappers the package looks through: the values the standard
  library and a custom dialer put in them. The numeric values of the \<open>E*\<close> constants are those
  of the platform's \<open>syscall\<close> package, so they are a record the functions take as an argument;
  the Winsock codes are written in the source and are constants here.
\<close>

section \<open>Errors of the standard library\<close>

datatype goerr =
    Errno nat
  | OpError goerr            \<comment> \<open>net.OpError\<close>
  | SyscallError goerr       \<comment> \<open>os.SyscallError\<close>
  | Wrapped goerr            \<comment> \<open>fmt.Errorf with %w, or any other type with Unwrap\<close>
  | NetError bool            \<comment> \<open>another net.Error, with what its Timeout method answers\<close>
  | DeadlineExceeded
  | Canceled
  | PlainError

record errno_table =
  EACCES :: nat  EPERM :: nat  EADDRNOTAVAIL :: nat  EADDRINUSE :: nat  ENOBUFS :: nat
  EMFILE :: nat  ENFILE :: nat  ENOMEM :: nat  ECONNREFUSED :: nat  ECONNRESET :: nat
  ETIMEDOUT :: nat  EAGAIN :: nat

text \<open>\<open>errors.As\<close> with a \<open>syscall.Errno\<close> target, \<open>errors.Is\<close> with \<open>context.DeadlineExceeded\<close>\<close>

primrec errors_As_errno :: "goerr \<Rightarrow> nat option" where
  "errors_As_errno (Errno n) = Some n"
| "errors_As_errno (OpError e) = errors_As_errno e"
| "errors_As_errno (SyscallError e) = errors_As_errno e"
| "errors_As_errno (Wrapped e) = errors_As_errno e"
| "errors_As_errno (NetError b) = None"
| "errors_As_errno DeadlineExceeded = None"
| "errors_As_errno Canceled = None"
| "errors_As_errno PlainError = None"

primrec errors_Is_deadline :: "goerr \<Rightarrow> bool" where
  "errors_Is_deadline (Errno n) = False"
| "errors_Is_deadline (OpError e) = errors_Is_deadline e"
| "errors_Is_deadline (SyscallError e) = errors_Is_deadline e"
| "errors_Is_deadline (Wrapped e) = errors_Is_deadline e"
| "errors_Is_deadline (NetError b) = False"
| "errors_Is_deadline DeadlineExceeded = True"
| "errors_Is_deadline Canceled = False"
| "errors_Is_deadline PlainError = False"

text \<open>The \<open>Timeout\<close> methods; the first \<open>net.Error\<close> of the chain answers \<open>netErr.Timeout()\<close>.\<close>

primrec Timeout_method :: "errno_table \<Rightarrow> goerr \<Rightarrow> bool" where
  "Timeout_method tbl (Errno n) = (n = EAGAIN tbl \<or> n = ETIMEDOUT tbl)"
| "Timeout_method tbl (OpError e) = Timeout_method tbl e"
| "Timeout_method tbl (SyscallError e) = Timeout_method tbl e"
| "Timeout_method tbl (Wrapped e) = False"
| "Timeout_method tbl (NetError b) = b"
| "Timeout_method tbl DeadlineExceeded = True"
| "Timeout_method tbl Canceled = False"
| "Timeout_method tbl PlainError = False"

primrec net_error_timeout :: "errno_table \<Rightarrow> goerr \<Rightarrow> bool" where
  "net_error_timeout tbl (Errno n) = Timeout_method tbl (Errno n)"
| "net_error_timeout tbl (OpError e) = Timeout_method tbl (OpError e)"
| "net_error_timeout tbl (SyscallError e) = net_error_timeout tbl e"
| "net_error_timeout tbl (Wrapped e) = net_error_timeout tbl e"
| "net_error_timeout tbl (NetError b) = b"
| "net_error_timeout tbl DeadlineExceeded = True"
| "net_error_timeout tbl Canceled = False"
| "net_error_timeout tbl PlainError = False"

section \<open>dial\_error.go\<close>

datatype Outcome =
  OutcomeOpen | OutcomeRefused | OutcomeTimeout | OutcomeLocalResource | OutcomeIndeterminate

definition StatusOpen :: string where "StatusOpen = ''open''"
definition StatusClose :: string where "StatusClose = ''close''"
definition StatusCloseTimeout :: string where "StatusCloseTimeout = ''close(timeout)''"
definition StatusLocalError :: string where "StatusLocalError = ''error(local)''"
definition StatusUnknown :: string where "StatusUnknown = ''unknown''"

lemmas status_defs = StatusOpen_def StatusClose_def StatusCloseTimeout_def StatusLocalError_def StatusUnknown_def

definition winsock_local :: "nat list" where
  "winsock_local = [10013, 10024, 10048, 10049, 10055, 10067]"

definition winsock_refused :: "nat list" where
  "winsock_refused = [10061, 10054]"

definition winsock_timeout :: nat where
  "winsock_timeout = 10060"

definition posix_local :: "errno_table \<Rightarrow> nat list" where
  "posix_local tbl = [EACCES tbl, EPERM tbl, EADDRNOTAVAIL tbl, EADDRINUSE tbl,
     ENOBUFS tbl, EMFILE tbl, ENFILE tbl, ENOMEM tbl]"

definition classifyErrno :: "errno_table \<Rightarrow> string \<Rightarrow> nat \<Rightarrow> Outcome option" where
  "classifyErrno tbl goos errno =
     (if goos = ''windows'' \<and> errno \<in> set winsock_local then Some OutcomeLocalResource
      else if goos = ''windows'' \<and> errno \<in> set winsock_refused then Some OutcomeRefused
      else if goos = ''windows'' \<and> errno = winsock_timeout then Some OutcomeTimeout
      else if errno \<in> set (posix_local tbl) then Some OutcomeLocalResource
      else if errno = ECONNREFUSED tbl \<or> errno = ECONNRESET tbl then Some OutcomeRefused
      else if errno = ETIMEDOUT tbl then Some OutcomeTimeout
      else None)"

text \<open>The fast path over \<open>net.OpError\<close> and \<open>os.SyscallError\<close>, then \<open>errors.As\<close>\<close>

definition dialErrno :: "goerr \<Rightarrow> nat option" where
  "dialErrno err =
     (case (case err of
              OpError inner \<Rightarrow>
                (case (case inner of SyscallError e \<Rightarrow> e | _ \<Rightarrow> inner) of Errno n \<Rightarrow> Some n | _ \<Rightarrow> None)
            | _ \<Rightarrow> None) of
        Some n \<Rightarrow> Some n
      | None \<Rightarrow> errors_As_errno err)"

definition classifyDialError :: "errno_table \<Rightarrow> string \<Rightarrow> goerr option \<Rightarrow> Outcome" where
  "classifyDialError tbl goos dial_err =
     (case dial_err of
        None \<Rightarrow> OutcomeOpen
      | Some err \<Rightarrow>
          (case Option.bind (dialErrno err) (classifyErrno tbl goos) of
             Some outcome \<Rightarrow> outcome
           | None \<Rightarrow>
               if net_error_timeout tbl err then OutcomeTimeout
               else if errors_Is_deadline err then OutcomeTimeout
               else OutcomeIndeterminate))"

definition statusForOutcome :: "Outcome \<Rightarrow> string" where
  "statusForOutcome outcome =
     (case outcome of
        OutcomeOpen \<Rightarrow> StatusOpen
      | OutcomeRefused \<Rightarrow> StatusClose
      | OutcomeTimeout \<Rightarrow> StatusCloseTimeout
      | OutcomeLocalResource \<Rightarrow> StatusLocalError
      | OutcomeIndeterminate \<Rightarrow> StatusUnknown)"

section \<open>scanner.go\<close>

record ScanResult =
  sr_IP :: string
  sr_Port :: int
  sr_Status :: string
  sr_Outcome :: Outcome
  sr_ResponseTimeMS :: int
  sr_Error :: string

text \<open>
  The dial function is a parameter: a failed dial with its error, or a connection with the
  error of its \<open>Close\<close> and the milliseconds that had passed. \<open>text\<close> is the \<open>Error\<close> method.
\<close>

type_synonym dialer = "string \<Rightarrow> goerr + goerr option \<times> int"

definition JoinHostPort :: "string \<Rightarrow> string \<Rightarrow> string" where
  "JoinHostPort host port =
     (if CHR '':'' \<in> set host then ''['' @ host @ '']:'' @ port else host @ '':'' @ port)"

definition ScanTCP :: "errno_table \<Rightarrow> string \<Rightarrow> (goerr \<Rightarrow> string) \<Rightarrow> dialer \<Rightarrow> string \<Rightarrow> int \<Rightarrow> ScanResult" where
  "ScanTCP tbl goos text dial ip port =
     (case dial (JoinHostPort ip (itoa port)) of
        Inr (closeErr, elapsed) \<Rightarrow>
          \<lparr>sr_IP = ip, sr_Port = port, sr_Status = StatusOpen, sr_Outcome = OutcomeOpen,
           sr_ResponseTimeMS = elapsed,
           sr_Error = (case closeErr of None \<Rightarrow> [] | Some e \<Rightarrow> ''close failed: '' @ text e)\<rparr>
      | Inl err \<Rightarrow>
          (let outcome = classifyDialError tbl goos (Some err) in
           \<lparr>sr_IP = ip, sr_Port = port, sr_Status = statusForOutcome outcome, sr_Outcome = outcome,
            sr_ResponseTimeMS = 0, sr_Error = text err\<rparr>))"

section \<open>What a status claims\<close>

text \<open>
  The facts about the \<open>syscall\<close> constants that the classification relies on: the names of the
  second switch are different numbers (a duplicate case does not compile), and on Windows the
  synthetic values are above \<open>APPLICATION_ERROR\<close>.
\<close>

definition errno_table_ok :: "string \<Rightarrow> errno_table \<Rightarrow> bool" where
  "errno_table_ok goos tbl \<longleftrightarrow>
     distinct (posix_local tbl @ [ECONNREFUSED tbl, ECONNRESET tbl, ETIMEDOUT tbl]) \<and>
     EAGAIN tbl \<notin> {ECONNREFUSED tbl, ECONNRESET tbl} \<and>
     (goos = ''windows'' \<longrightarrow>
        (\<forall>n \<in> set (posix_local tbl @ [ECONNREFUSED tbl, ECONNRESET tbl, ETIMEDOUT tbl, EAGAIN tbl]). 2 ^ 29 \<le> n))"

definition linux_errno :: errno_table where
  "linux_errno = \<lparr>EACCES = 13, EPERM = 1, EADDRNOTAVAIL = 99, EADDRINUSE = 98, ENOBUFS = 105,
     EMFILE = 24, ENFILE = 23, ENOMEM = 12, ECONNREFUSED = 111, ECONNRESET = 104,
     ETIMEDOUT = 110, EAGAIN = 11\<rparr>"

lemma linux_errno_ok: "errno_table_ok ''linux'' linux_errno"
  by (simp add: errno_table_ok_def linux_errno_def posix_local_def)

definition remote_refusal :: "errno_table \<Rightarrow> string \<Rightarrow> nat \<Rightarrow> bool" where
  "remote_refusal tbl goos n \<longleftrightarrow>
     n \<in> {ECONNREFUSED tbl, ECONNRESET tbl} \<or> goos = ''windows'' \<and> n \<in> {10054, 10061}"

lemma winsock_below: "n \<in> set winsock_local \<union> set winsock_refused \<union> {winsock_timeout} \<Longrightarrow> n < 2 ^ 29"
  by (auto simp: winsock_local_def winsock_refused_def winsock_timeout_def)

lemma classifyErrno_refused_iff:
  assumes "errno_table_ok goos tbl"
  shows "classifyErrno tbl goos n = Some OutcomeRefused \<longleftrightarrow> remote_refusal tbl goos n"
proof (cases "goos = ''windows'' \<and> n \<in> set winsock_local \<union> set winsock_refused \<union> {winsock_timeout}")
  case True
  then have "n < 2 ^ 29" using winsock_below by blast
  then have "n \<notin> {ECONNREFUSED tbl, ECONNRESET tbl}"
    using assms True by (auto simp: errno_table_ok_def)
  then show ?thesis
    using True by (auto simp: classifyErrno_def remote_refusal_def winsock_refused_def winsock_local_def winsock_timeout_def)
next
  case False
  then have "\<not> (goos = ''windows'' \<and> n \<in> {10054, 10061})"
    by (auto simp: winsock_refused_def)
  moreover have "n \<in> {ECONNREFUSED tbl, ECONNRESET tbl} \<Longrightarrow> n \<notin> set (posix_local tbl)"
    using assms by (auto simp: errno_table_ok_def)
  ultimately show ?thesis
    using False by (auto simp: classifyErrno_def remote_refusal_def)
qed

lemma dialErrno_eq: "dialErrno err = errors_As_errno err"
  by (auto simp: dialErrno_def split: goerr.splits option.splits)

lemma statusForOutcome_inject: "statusForOutcome a = statusForOutcome b \<longleftrightarrow> a = b"
  by (cases a; cases b) (simp_all add: statusForOutcome_def status_defs)

lemma classifyDialError_refused_iff:
  assumes "errno_table_ok goos tbl"
  shows "classifyDialError tbl goos (Some err) = OutcomeRefused \<longleftrightarrow>
    (\<exists>n. errors_As_errno err = Some n \<and> remote_refusal tbl goos n)"
  unfolding classifyErrno_refused_iff [OF assms, symmetric]
  by (auto simp: classifyDialError_def dialErrno_eq bind_eq_Some_conv split: option.splits)

text \<open>Property C27. A row carries the status \<open>close\<close> exactly when the dial failed and the error
  chain carries an errno by which the remote end refused or reset the connection.\<close>

theorem close_only_when_refused:
  assumes "errno_table_ok goos tbl"
  shows "sr_Status (ScanTCP tbl goos text dial ip port) = StatusClose \<longleftrightarrow>
    (\<exists>err n. dial (JoinHostPort ip (itoa port)) = Inl err \<and> errors_As_errno err = Some n \<and> remote_refusal tbl goos n)"
proof -
  have "StatusOpen \<noteq> StatusClose" by (simp add: status_defs)
  moreover have "statusForOutcome (classifyDialError tbl goos (Some err)) = StatusClose \<longleftrightarrow>
      (\<exists>n. errors_As_errno err = Some n \<and> remote_refusal tbl goos n)" for err
    using statusForOutcome_inject [of _ OutcomeRefused] classifyDialError_refused_iff [OF assms]
    by (simp add: statusForOutcome_def)
  ultimately show ?thesis
    by (auto simp: ScanTCP_def Let_def split: sum.splits)
qed

theorem close_only_when_refused_witness:
  "sr_Status (ScanTCP linux_errno ''linux'' (\<lambda>_. ''refused'')
     (\<lambda>_. Inl (OpError (SyscallError (Errno 111)))) ''10.0.0.1'' 80) = StatusClose"
proof -
  have "remote_refusal linux_errno ''linux'' 111"
    by (simp add: remote_refusal_def linux_errno_def)
  then show ?thesis
    using close_only_when_refused [OF linux_errno_ok, of "\<lambda>_. ''refused''"
      "\<lambda>_. Inl (OpError (SyscallError (Errno 111)))" "''10.0.0.1''" 80] by simp
qed

text \<open>The fast path of \<open>dialErrno\<close> never changes the answer of \<open>errors.As\<close>, and the
  outcome of a failed dial depends on the wrapping only through the first errno of the chain:
  when that errno is known to the table, every wrapping has the same outcome.\<close>

theorem classification_ignores_wrapping:
  "dialErrno err = errors_As_errno err \<and>
   classifyDialError tbl goos (Some err) =
     (case Option.bind (errors_As_errno err) (classifyErrno tbl goos) of
        Some outcome \<Rightarrow> outcome
      | None \<Rightarrow> if net_error_timeout tbl err \<or> errors_Is_deadline err then OutcomeTimeout else OutcomeIndeterminate)"
  by (auto simp: classifyDialError_def dialErrno_eq split: option.splits)

text \<open>A failure of the scanning host on Windows (descriptor, buffer, address or
  permission exhaustion) is never written as a state of the target.\<close>

theorem local_exhaustion_never_closed:
  assumes "errors_As_errno err = Some n" and "n \<in> set winsock_local"
    and "dial (JoinHostPort ip (itoa port)) = Inl err"
  shows "sr_Status (ScanTCP tbl ''windows'' text dial ip port) = StatusLocalError \<and>
    StatusLocalError \<notin> {StatusOpen, StatusClose, StatusCloseTimeout}"
  using assms
  by (simp_all add: ScanTCP_def classifyDialError_def dialErrno_eq classifyErrno_def statusForOutcome_def status_defs)

theorem local_exhaustion_never_closed_witness:
  "sr_Status (ScanTCP linux_errno ''windows'' (\<lambda>_. ''no buffers'')
     (\<lambda>_. Inl (Wrapped (OpError (SyscallError (Errno 10055))))) ''10.0.0.1'' 80) = StatusLocalError"
  by (rule local_exhaustion_never_closed [THEN conjunct1, of "Wrapped (OpError (SyscallError (Errno 10055)))" 10055])
    (simp_all add: winsock_local_def)

end
