(* ===== verification/ResultOutput.thy ===== *)
theory ResultOutput
  imports ScanOutcome GroupBuild
begin

text \<open>
  \<open>pkg/writer\<close> (csv\_writer.go, open\_writer.go) and the result files of \<open>pkg/scanapp\<close>
  (output\_files.go, record\_writer.go, record\_mapper.go): the columns of a result row, the CSV
  writers, the open-only filter, opening a file fresh or for a resume, and the pair of files a
  scan writes.

  A result file is its bytes. \<open>cw_out\<close> holds the bytes the file is known to have after the last
  successful flush, \<open>cw_pending\<close> the bytes handed to the csv writer since. The operating system
  may refuse any write: \<open>cw_script\<close> lists the outcomes of the coming calls (an exhausted script
  is a disk without failures). A failure is sticky, as in \<open>bufio.Writer\<close>.
\<close>

section \<open>Rows\<close>

record Record =
  r_IP :: string
  r_IPCidr :: string
  r_Port :: int
  r_Status :: string
  r_ResponseMS :: int
  r_FabName :: string
  r_CIDR :: string
  r_CIDRName :: string
  r_ServiceLabel :: string
  r_Decision :: string
  r_PolicyID :: string
  r_Reason :: string
  r_ExecutionKey :: string
  r_SrcIP :: string
  r_SrcNetworkSegment :: string

definition Columns :: "(string \<times> (Record \<Rightarrow> string)) list" where
  "Columns =
     [(''ip'', r_IP),
      (''ip_cidr'', \<lambda>r. if r_IPCidr r \<noteq> [] then r_IPCidr r else r_CIDR r),
      (''port'', \<lambda>r. itoa (r_Port r)),
      (''status'', r_Status),
      (''response_time_ms'', \<lambda>r. itoa (r_ResponseMS r)),
      (''fab_name'', r_FabName),
      (''cidr_name'', r_CIDRName),
      (''service_label'', r_ServiceLabel),
      (''decision'', r_Decision),
      (''matched_policy_id'', r_PolicyID),
      (''reason'', r_Reason),
      (''execution_key'', r_ExecutionKey),
      (''src_ip'', r_SrcIP),
      (''src_network_segment'', r_SrcNetworkSegment)]"

definition row_of :: "Record \<Rightarrow> string list" where
  "row_of r = map (\<lambda>col. snd col r) Columns"

text \<open>\<open>encoding/csv\<close>, writing: a field is quoted where it must be, a row ends with a newline.\<close>

definition fieldNeedsQuotes :: "string \<Rightarrow> bool" where
  "fieldNeedsQuotes field \<longleftrightarrow> field \<noteq> [] \<and>
     (field = [CHR 0x5C, CHR ''.''] \<or>
      list_ex (\<lambda>c. c \<in> {CHR 0x0A, CHR 0x0D, CHR 0x22, CHR '',''}) field \<or>
      strip_seq space_seqs field \<noteq> None)"

definition csv_field :: "string \<Rightarrow> string" where
  "csv_field field =
     (if fieldNeedsQuotes field
      then CHR 0x22 # concat (map (\<lambda>c. if c = CHR 0x22 then [CHR 0x22, CHR 0x22] else [c]) field) @ [CHR 0x22]
      else field)"

definition csv_line :: "string list \<Rightarrow> string" where
  "csv_line row = join_with (CHR '','') (map csv_field row) @ [CHR 0x0A]"

definition trim_newlines :: "string \<Rightarrow> string" where
  "trim_newlines s = rev (dropWhile (\<lambda>c. c = CHR 0x0D \<or> c = CHR 0x0A) (rev s))"

definition CanonicalHeader :: string where
  "CanonicalHeader = trim_newlines (csv_line (map fst Columns))"

text \<open>record\_mapper.go\<close>

record scanTask =
  chunkIdx :: nat
  taskIdx :: int
  task_ipCidr :: string
  task_ip :: string
  task_port :: int
  task_meta :: targetMeta

definition recordFromScanTask :: "scanTask \<Rightarrow> ScanResult \<Rightarrow> Record" where
  "recordFromScanTask t res =
     \<lparr>r_IP = sr_IP res, r_IPCidr = task_ipCidr t, r_Port = sr_Port res, r_Status = sr_Status res,
      r_ResponseMS = sr_ResponseTimeMS res, r_FabName = tm_fabName (task_meta t), r_CIDR = [],
      r_CIDRName = tm_cidrName (task_meta t), r_ServiceLabel = tm_serviceLabel (task_meta t),
      r_Decision = tm_decision (task_meta t), r_PolicyID = tm_policyID (task_meta t),
      r_Reason = tm_reason (task_meta t), r_ExecutionKey = tm_executionKey (task_meta t),
      r_SrcIP = tm_srcIP (task_meta t), r_SrcNetworkSegment = tm_srcNetworkSegment (task_meta t)\<rparr>"

section \<open>csv\_writer.go\<close>

record CSVWriter =
  cw_out :: string
  cw_pending :: string
  cw_script :: "bool list"
  cw_failed :: bool
  cw_wroteHeader :: bool
  cw_autoFlush :: bool

definition io_next :: "bool list \<Rightarrow> bool \<times> bool list" where
  "io_next script = (case script of [] \<Rightarrow> (True, []) | ok # rest \<Rightarrow> (ok, rest))"

text \<open>\<open>csv.Writer.Write\<close>: the row goes to the buffer, which may spill to the file and fail.\<close>

definition csv_Write :: "CSVWriter \<Rightarrow> string list \<Rightarrow> bool \<times> CSVWriter" where
  "csv_Write cw row =
     (if cw_failed cw then (False, cw)
      else case io_next (cw_script cw) of (ok, rest) \<Rightarrow>
        if ok then (True, cw\<lparr>cw_pending := cw_pending cw @ csv_line row, cw_script := rest\<rparr>)
        else (False, cw\<lparr>cw_failed := True, cw_script := rest\<rparr>))"

definition writer_Flush :: "CSVWriter \<Rightarrow> bool \<times> CSVWriter" where
  "writer_Flush cw =
     (if cw_failed cw then (False, cw)
      else case io_next (cw_script cw) of (ok, rest) \<Rightarrow>
        if ok then (True, cw\<lparr>cw_out := cw_out cw @ cw_pending cw, cw_pending := [], cw_script := rest\<rparr>)
        else (False, cw\<lparr>cw_failed := True, cw_script := rest\<rparr>))"

definition writer_WriteHeader :: "CSVWriter \<Rightarrow> bool \<times> CSVWriter" where
  "writer_WriteHeader cw =
     (if \<not> cw_wroteHeader cw then
        (case csv_Write cw (map fst Columns) of (ok, cw') \<Rightarrow>
           if \<not> ok then (False, cw')
           else let cw'' = cw'\<lparr>cw_wroteHeader := True\<rparr> in
             if cw_autoFlush cw then writer_Flush cw'' else (True, cw''))
      else (True, cw))"

definition writer_Write :: "CSVWriter \<Rightarrow> Record \<Rightarrow> bool \<times> CSVWriter" where
  "writer_Write cw r =
     (case writer_WriteHeader cw of (ok, cw1) \<Rightarrow>
        if \<not> ok then (False, cw1)
        else case csv_Write cw1 (row_of r) of (ok2, cw2) \<Rightarrow>
          if \<not> ok2 then (False, cw2)
          else if cw_autoFlush cw2 then writer_Flush cw2 else (True, cw2))"

definition NewCSVWriter :: "string \<Rightarrow> bool list \<Rightarrow> bool \<Rightarrow> bool \<Rightarrow> CSVWriter" where
  "NewCSVWriter content script wroteHeader autoFlush =
     \<lparr>cw_out = content, cw_pending = [], cw_script = script, cw_failed = False,
      cw_wroteHeader = wroteHeader, cw_autoFlush = autoFlush\<rparr>"

section \<open>open\_writer.go; the injected failure of output\_files.go\<close>

type_synonym OpenOnlyWriter = "CSVWriter option"

definition open_Write :: "OpenOnlyWriter \<Rightarrow> Record \<Rightarrow> bool \<times> OpenOnlyWriter" where
  "open_Write w r =
     (case w of None \<Rightarrow> (True, w)
      | Some inner \<Rightarrow>
          if r_Status r \<noteq> ''open'' then (True, w)
          else case writer_Write inner r of (ok, inner') \<Rightarrow> (ok, Some inner'))"

definition open_WriteHeader :: "OpenOnlyWriter \<Rightarrow> bool \<times> OpenOnlyWriter" where
  "open_WriteHeader w =
     (case w of None \<Rightarrow> (True, w)
      | Some inner \<Rightarrow> (case writer_WriteHeader inner of (ok, inner') \<Rightarrow> (ok, Some inner')))"

definition open_Flush :: "OpenOnlyWriter \<Rightarrow> bool \<times> OpenOnlyWriter" where
  "open_Flush w =
     (case w of None \<Rightarrow> (True, w)
      | Some inner \<Rightarrow> (case writer_Flush inner of (ok, inner') \<Rightarrow> (ok, Some inner')))"

record outputFailureRecordWriter =
  of_inner :: CSVWriter
  of_failOnResult :: nat
  of_written :: nat

definition failing_Write :: "outputFailureRecordWriter \<Rightarrow> Record \<Rightarrow> bool \<times> outputFailureRecordWriter" where
  "failing_Write w r =
     (let w1 = w\<lparr>of_written := of_written w + 1\<rparr> in
      if of_written w1 = of_failOnResult w1 then (False, w1)
      else case writer_Write (of_inner w1) r of (ok, inner) \<Rightarrow> (ok, w1\<lparr>of_inner := inner\<rparr>))"

definition failing_Flush :: "outputFailureRecordWriter \<Rightarrow> bool \<times> outputFailureRecordWriter" where
  "failing_Flush w = (case writer_Flush (of_inner w) of (ok, inner) \<Rightarrow> (ok, w\<lparr>of_inner := inner\<rparr>))"

section \<open>The interface recordWriter\<close>

text \<open>A loop of \<open>Write\<close> calls that stops at the first error\<close>

primrec write_seq :: "('w \<Rightarrow> Record \<Rightarrow> bool \<times> 'w) \<Rightarrow> 'w \<Rightarrow> Record list \<Rightarrow> bool \<times> 'w" where
  "write_seq write w [] = (True, w)"
| "write_seq write w (r # rs) = (case write w r of (ok, w') \<Rightarrow> if ok then write_seq write w' rs else (False, w'))"

text \<open>
  What a writer of the interface promises once its header is out: an accepted row is appended,
  a row it filters leaves it unchanged, and after a successful flush the file holds exactly the
  bytes accepted so far.
\<close>

locale record_writer =
  fixes write_op :: "'w \<Rightarrow> Record \<Rightarrow> bool \<times> 'w"
    and flush_op :: "'w \<Rightarrow> bool \<times> 'w"
    and ready :: "'w \<Rightarrow> bool"
    and accepted :: "'w \<Rightarrow> string"
    and file_bytes :: "'w \<Rightarrow> string"
    and selects :: "Record \<Rightarrow> bool"
  assumes write_ready: "ready w \<Longrightarrow> write_op w r = (ok, w') \<Longrightarrow> ready w'"
    and write_accepts: "ready w \<Longrightarrow> write_op w r = (True, w') \<Longrightarrow>
      accepted w' = accepted w @ (if selects r then csv_line (row_of r) else [])"
    and flush_ready: "ready w \<Longrightarrow> flush_op w = (ok, w') \<Longrightarrow> ready w' \<and> accepted w' = accepted w"
    and flush_durable: "ready w \<Longrightarrow> flush_op w = (True, w') \<Longrightarrow> file_bytes w' = accepted w'"
begin

lemma write_seq_accepted:
  "ready w \<Longrightarrow> write_seq write_op w rs = (True, w') \<Longrightarrow>
   ready w' \<and> accepted w' = accepted w @ concat (map (csv_line \<circ> row_of) (filter selects rs))"
proof (induction rs arbitrary: w)
  case (Cons r rs)
  obtain ok w1 where w1: "write_op w r = (ok, w1)" by fastforce
  with Cons.prems have ok: "ok" and rest: "write_seq write_op w1 rs = (True, w')"
    by (auto split: if_splits)
  show ?case
    using Cons.IH [OF write_ready [OF Cons.prems(1) w1] rest] write_accepts [OF Cons.prems(1)] w1 ok
    by simp
qed simp

lemma session_durable:
  assumes "ready w" and "write_seq write_op w rs = (True, w1)" and "flush_op w1 = (True, w2)"
  shows "file_bytes w2 = accepted w @ concat (map (csv_line \<circ> row_of) (filter selects rs))"
  using write_seq_accepted [OF assms(1,2)] flush_durable [OF _ assms(3)] flush_ready [OF _ assms(3)] by simp

end

definition writer_ready :: "CSVWriter \<Rightarrow> bool" where
  "writer_ready cw \<longleftrightarrow> cw_wroteHeader cw"

definition writer_accepted :: "CSVWriter \<Rightarrow> string" where
  "writer_accepted cw = cw_out cw @ cw_pending cw"

lemma csv_Write_cases:
  assumes "csv_Write cw row = (ok, cw')"
  shows "cw_wroteHeader cw' = cw_wroteHeader cw" and "cw_out cw' = cw_out cw" and "cw_autoFlush cw' = cw_autoFlush cw"
    and "ok \<Longrightarrow> cw_pending cw' = cw_pending cw @ csv_line row"
  using assms by (auto simp: csv_Write_def split: if_splits prod.splits)

lemma writer_Flush_cases:
  assumes "writer_Flush cw = (ok, cw')"
  shows "cw_wroteHeader cw' = cw_wroteHeader cw" and "writer_accepted cw' = writer_accepted cw"
    and "ok \<Longrightarrow> cw_pending cw' = []"
  using assms by (auto simp: writer_Flush_def writer_accepted_def split: if_splits prod.splits)

lemma writer_Write_ready:
  assumes "writer_ready cw"
  shows "writer_Write cw r =
    (case csv_Write cw (row_of r) of (ok, cw2) \<Rightarrow>
       if \<not> ok then (False, cw2) else if cw_autoFlush cw2 then writer_Flush cw2 else (True, cw2))"
  using assms by (simp add: writer_Write_def writer_WriteHeader_def writer_ready_def)

lemma writer_Write_keeps:
  assumes "writer_ready cw" and "writer_Write cw r = (ok, cw')"
  shows "writer_ready cw'" and "ok \<Longrightarrow> writer_accepted cw' = writer_accepted cw @ csv_line (row_of r)"
proof -
  obtain ok1 cw1 where one: "csv_Write cw (row_of r) = (ok1, cw1)" by fastforce
  note step = csv_Write_cases [OF one]
  have eq: "(ok, cw') = (if \<not> ok1 then (False, cw1) else if cw_autoFlush cw1 then writer_Flush cw1 else (True, cw1))"
    using assms one by (simp add: writer_Write_ready)
  show "writer_ready cw'"
    using eq step assms(1) writer_Flush_cases(1) [of cw1 ok cw'] by (auto simp: writer_ready_def split: if_splits)
  show "writer_accepted cw' = writer_accepted cw @ csv_line (row_of r)" if ok
    using eq step that writer_Flush_cases(2) [of cw1 ok cw'] by (auto simp: writer_accepted_def split: if_splits)
qed

interpretation csv: record_writer writer_Write writer_Flush writer_ready writer_accepted cw_out "\<lambda>r. True"
  by unfold_locales
    (use writer_Write_keeps writer_Flush_cases in \<open>auto simp: writer_ready_def writer_accepted_def\<close>)

definition open_ready :: "OpenOnlyWriter \<Rightarrow> bool" where
  "open_ready w \<longleftrightarrow> (case w of None \<Rightarrow> False | Some inner \<Rightarrow> writer_ready inner)"

definition is_open :: "Record \<Rightarrow> bool" where
  "is_open r \<longleftrightarrow> r_Status r = ''open''"

interpretation opened: record_writer open_Write open_Flush open_ready
  "\<lambda>w. writer_accepted (the w)" "\<lambda>w. cw_out (the w)" is_open
proof unfold_locales
  fix w w' :: OpenOnlyWriter and ok r
  assume ready: "open_ready w"
  then obtain inner where w: "w = Some inner" and inner: "writer_ready inner"
    by (auto simp: open_ready_def split: option.splits)
  obtain ok1 inner1 where one: "writer_Write inner r = (ok1, inner1)" by fastforce
  obtain ok2 inner2 where two: "writer_Flush inner = (ok2, inner2)" by fastforce
  note wr = writer_Write_keeps [OF inner one] and flush = writer_Flush_cases [OF two]
  show "open_ready w'" if "open_Write w r = (ok, w')"
    using that w inner one wr(1) by (auto simp: open_Write_def open_ready_def split: if_splits)
  show "writer_accepted (the w') = writer_accepted (the w) @ (if is_open r then csv_line (row_of r) else [])"
    if "open_Write w r = (True, w')"
    using that w one wr(2) by (auto simp: open_Write_def is_open_def split: if_splits)
  show "open_ready w' \<and> writer_accepted (the w') = writer_accepted (the w)" if "open_Flush w = (ok, w')"
    using that w inner two flush(1,2) by (auto simp: open_Flush_def open_ready_def writer_ready_def)
  show "cw_out (the w') = writer_accepted (the w')" if "open_Flush w = (True, w')"
    using that w two flush(3) by (auto simp: open_Flush_def writer_accepted_def)
qed

interpretation failing: record_writer failing_Write failing_Flush "\<lambda>w. writer_ready (of_inner w)"
  "\<lambda>w. writer_accepted (of_inner w)" "\<lambda>w. cw_out (of_inner w)" "\<lambda>r. True"
proof unfold_locales
  fix w w' :: outputFailureRecordWriter and ok r
  assume inner: "writer_ready (of_inner w)"
  obtain ok1 inner1 where one: "writer_Write (of_inner w) r = (ok1, inner1)" by fastforce
  obtain ok2 inner2 where two: "writer_Flush (of_inner w) = (ok2, inner2)" by fastforce
  note wr = writer_Write_keeps [OF inner one] and flush = writer_Flush_cases [OF two]
  show "writer_ready (of_inner w')" if "failing_Write w r = (ok, w')"
    using that inner one wr(1) by (auto simp: failing_Write_def Let_def split: if_splits)
  show "writer_accepted (of_inner w') = writer_accepted (of_inner w) @ (if True then csv_line (row_of r) else [])"
    if "failing_Write w r = (True, w')"
    using that one wr(2) by (auto simp: failing_Write_def Let_def split: if_splits)
  show "writer_ready (of_inner w') \<and> writer_accepted (of_inner w') = writer_accepted (of_inner w)"
    if "failing_Flush w = (ok, w')"
    using that inner two flush(1,2) by (auto simp: failing_Flush_def writer_ready_def)
  show "cw_out (of_inner w') = writer_accepted (of_inner w')" if "failing_Flush w = (True, w')"
    using that two flush(3) by (auto simp: failing_Flush_def writer_accepted_def)
qed

section \<open>output\_files.go: opening the files\<close>

datatype open_error = OpenFailed | ForeignHeader string | HeaderWriteFailed

text \<open>
  \<open>content\<close> is what the path holds (\<open>None\<close>: no file). The calls to the operating system other
  than reads of the content either all succeed or one fails: \<open>os_ok\<close>.
\<close>

definition first_line :: "string \<Rightarrow> string" where
  "first_line content = (let line = takeWhile (\<lambda>c. c \<noteq> CHR 0x0A) content in
     if line = content then line else line @ [CHR 0x0A])"

definition validateAppendHeader :: "string \<Rightarrow> string \<Rightarrow> open_error + bool" where
  "validateAppendHeader content expectHeader =
     (if content = [] then Inr True
      else let headerLine = trim_newlines (first_line content) in
        if headerLine \<noteq> expectHeader then Inl (ForeignHeader headerLine) else Inr False)"

definition openResultCSV :: "bool \<Rightarrow> string option \<Rightarrow> bool \<Rightarrow> open_error + string \<times> bool" where
  "openResultCSV os_ok content appendMode =
     (if \<not> os_ok then Inl OpenFailed
      else if \<not> appendMode then Inr ([], True)
      else let existing = (case content of None \<Rightarrow> [] | Some bytes \<Rightarrow> bytes) in
        try_bind (validateAppendHeader existing CanonicalHeader) (\<lambda>needsHeader. Inr (existing, needsHeader)))"

definition scanWriterForMode :: "bool list \<Rightarrow> string \<Rightarrow> bool \<Rightarrow> bool \<Rightarrow> open_error + CSVWriter" where
  "scanWriterForMode script content needsHeader buffered =
     (let fresh = NewCSVWriter content script (\<not> needsHeader) (\<not> buffered) in
      if \<not> buffered \<and> \<not> needsHeader then Inr fresh
      else case writer_WriteHeader fresh of (ok, cw) \<Rightarrow>
        if \<not> ok then Inl HeaderWriteFailed
        else if \<not> buffered then Inr cw
        else case writer_Flush cw of (ok2, cw2) \<Rightarrow> if ok2 then Inr cw2 else Inl HeaderWriteFailed)"

record 'w batchOutputs =
  scanWriter :: 'w
  openOnlyWriter :: OpenOnlyWriter

record file_env =
  fe_os_ok :: bool
  fe_content :: "string option"
  fe_script :: "bool list"

definition openBatchOutputsWithMode ::
  "file_env \<Rightarrow> file_env \<Rightarrow> bool \<Rightarrow> bool \<Rightarrow> open_error + CSVWriter batchOutputs" where
  "openBatchOutputsWithMode scan_env open_env appendMode buffered =
     try_bind (openResultCSV (fe_os_ok scan_env) (fe_content scan_env) appendMode) (\<lambda>(scan_bytes, scan_needs).
     try_bind (scanWriterForMode (fe_script scan_env) scan_bytes scan_needs buffered) (\<lambda>scan_writer.
     try_bind (openResultCSV (fe_os_ok open_env) (fe_content open_env) appendMode) (\<lambda>(open_bytes, open_needs).
     try_bind (scanWriterForMode (fe_script open_env) open_bytes open_needs buffered) (\<lambda>open_inner.
     Inr \<lparr>scanWriter = scan_writer, openOnlyWriter = Some open_inner\<rparr>))))"

text \<open>The writes and flushes of the pair; the scan writer may carry the injected failure.\<close>

definition batch_write ::
  "('w \<Rightarrow> Record \<Rightarrow> bool \<times> 'w) \<Rightarrow> 'w batchOutputs \<Rightarrow> Record \<Rightarrow> bool \<times> 'w batchOutputs" where
  "batch_write write b r =
     (case write (scanWriter b) r of (ok, w) \<Rightarrow>
        if \<not> ok then (False, b\<lparr>scanWriter := w\<rparr>)
        else case open_Write (openOnlyWriter b) r of (ok2, v) \<Rightarrow>
          (ok2, b\<lparr>scanWriter := w, openOnlyWriter := v\<rparr>))"

definition batch_flush :: "('w \<Rightarrow> bool \<times> 'w) \<Rightarrow> 'w batchOutputs \<Rightarrow> bool \<times> 'w batchOutputs" where
  "batch_flush flush b =
     (case flush (scanWriter b) of (ok, w) \<Rightarrow>
        case open_Flush (openOnlyWriter b) of (ok2, v) \<Rightarrow>
          (ok \<and> ok2, b\<lparr>scanWriter := w, openOnlyWriter := v\<rparr>))"

lemma batch_write_seq:
  "write_seq (batch_write wop) b rs = (True, b') \<Longrightarrow>
   write_seq wop (scanWriter b) rs = (True, scanWriter b') \<and>
   write_seq open_Write (openOnlyWriter b) rs = (True, openOnlyWriter b')"
proof (induction rs arbitrary: b)
  case (Cons r rs)
  obtain ok w where w: "wop (scanWriter b) r = (ok, w)" by fastforce
  obtain ok2 v where v: "open_Write (openOnlyWriter b) r = (ok2, v)" by fastforce
  have "ok" "ok2" and "write_seq (batch_write wop) (b\<lparr>scanWriter := w, openOnlyWriter := v\<rparr>) rs = (True, b')"
    using Cons.prems w v by (cases ok; cases ok2; simp add: batch_write_def [of wop b])+
  then show ?case
    using Cons.IH [of "b\<lparr>scanWriter := w, openOnlyWriter := v\<rparr>"] w v by simp
qed simp

lemma CanonicalHeader_eq: "csv_line (map fst Columns) = CanonicalHeader @ [CHR 0x0A]"
  by code_simp

lemma CanonicalHeader_plain: "CHR 0x0A \<notin> set CanonicalHeader" "trim_newlines CanonicalHeader = CanonicalHeader"
  "trim_newlines (CanonicalHeader @ [CHR 0x0A]) = CanonicalHeader" "CanonicalHeader \<noteq> []"
  by code_simp+

lemma scanWriterForMode_ready:
  assumes "scanWriterForMode script content needsHeader buffered = Inr cw"
  shows "writer_ready cw \<and>
    writer_accepted cw = content @ (if needsHeader then CanonicalHeader @ [CHR 0x0A] else [])"
proof -
  define fresh where "fresh = NewCSVWriter content script (\<not> needsHeader) (\<not> buffered)"
  have fresh: "cw_wroteHeader fresh = (\<not> needsHeader)" "writer_accepted fresh = content"
    by (simp_all add: fresh_def NewCSVWriter_def writer_accepted_def)
  have head: "writer_ready cw1 \<and> writer_accepted cw1 = content @ (if needsHeader then CanonicalHeader @ [CHR 0x0A] else [])"
    if "writer_WriteHeader fresh = (True, cw1)" for cw1
  proof (cases needsHeader)
    case False
    then show ?thesis
      using that fresh by (simp add: writer_WriteHeader_def writer_ready_def)
  next
    case True
    obtain ok cw' where row: "csv_Write fresh (map fst Columns) = (ok, cw')" by fastforce
    have bytes: "writer_accepted cw' = content @ CanonicalHeader @ [CHR 0x0A]" if ok
      using csv_Write_cases(2,4) [OF row] that fresh(2) CanonicalHeader_eq by (simp add: writer_accepted_def)
    obtain ok2 cw2 where two: "writer_Flush (cw'\<lparr>cw_wroteHeader := True\<rparr>) = (ok2, cw2)" by fastforce
    have "ok" and "cw1 = cw2 \<or> cw1 = cw'\<lparr>cw_wroteHeader := True\<rparr>"
      using that row fresh(1) True two by (auto simp: writer_WriteHeader_def Let_def split: if_splits)
    then show ?thesis
      using bytes writer_Flush_cases(1,2) [OF two] True by (auto simp: writer_ready_def writer_accepted_def)
  qed
  show ?thesis
  proof (cases "\<not> buffered \<and> \<not> needsHeader")
    case True
    then show ?thesis
      using assms by (auto simp: scanWriterForMode_def NewCSVWriter_def writer_accepted_def Let_def writer_ready_def)
  next
    case False
    obtain ok cw1 where one: "writer_WriteHeader fresh = (ok, cw1)" by fastforce
    with assms False have ok: ok
      by (auto simp: scanWriterForMode_def fresh_def [symmetric] Let_def split: if_splits)
    note head = head [of cw1, OF one [unfolded ok [THEN eqTrueI]]]
    obtain ok2 cw2 where two: "writer_Flush cw1 = (ok2, cw2)" by fastforce
    have "cw = cw1 \<or> cw = cw2"
      using assms False one ok two
      by (auto simp: scanWriterForMode_def fresh_def [symmetric] Let_def split: if_splits)
    then show ?thesis
      using head writer_Flush_cases(1,2) [OF two] by (auto simp: writer_ready_def)
  qed
qed

section \<open>What the files hold\<close>

definition header_line :: string where
  "header_line = CanonicalHeader @ [CHR 0x0A]"

definition rows_bytes :: "Record list \<Rightarrow> string" where
  "rows_bytes rs = concat (map (csv_line \<circ> row_of) rs)"

definition existing_bytes :: "bool \<Rightarrow> file_env \<Rightarrow> string" where
  "existing_bytes appendMode env =
     (if appendMode then case fe_content env of None \<Rightarrow> [] | Some bytes \<Rightarrow> bytes else [])"

text \<open>What a file holds before the first row of the session.\<close>

definition file_start :: "bool \<Rightarrow> file_env \<Rightarrow> string" where
  "file_start appendMode env =
     (if existing_bytes appendMode env = [] then header_line else existing_bytes appendMode env)"

lemma openResultCSV_Inr:
  assumes "openResultCSV (fe_os_ok env) (fe_content env) appendMode = Inr (bytes, needs)"
  shows "bytes = existing_bytes appendMode env \<and> needs = (existing_bytes appendMode env = [])"
  using assms
  by (auto simp: openResultCSV_def existing_bytes_def validateAppendHeader_def Let_def split: if_splits option.splits)

lemma open_writer_ready:
  assumes "openResultCSV (fe_os_ok env) (fe_content env) appendMode = Inr (bytes, needs)"
    and "scanWriterForMode (fe_script env) bytes needs buffered = Inr cw"
  shows "writer_ready cw \<and> writer_accepted cw = file_start appendMode env"
  using scanWriterForMode_ready [OF assms(2)] openResultCSV_Inr [OF assms(1)]
  by (auto simp: file_start_def header_line_def)

lemma openBatch_ready:
  assumes "openBatchOutputsWithMode se oe appendMode buffered = Inr b"
  shows "writer_ready (scanWriter b) \<and> writer_accepted (scanWriter b) = file_start appendMode se \<and>
    open_ready (openOnlyWriter b) \<and> writer_accepted (the (openOnlyWriter b)) = file_start appendMode oe"
  using assms open_writer_ready
  by (auto simp: openBatchOutputsWithMode_def try_bind_eq_Inr open_ready_def)

lemma batch_session:
  assumes "openBatchOutputsWithMode se oe appendMode buffered = Inr b"
    and "write_seq (batch_write writer_Write) b rs = (True, b1)"
    and "batch_flush writer_Flush b1 = (True, b2)"
  shows "cw_out (scanWriter b2) = file_start appendMode se @ rows_bytes rs \<and>
    cw_out (the (openOnlyWriter b2)) = file_start appendMode oe @ rows_bytes (filter is_open rs)"
proof -
  have "writer_Flush (scanWriter b1) = (True, scanWriter b2)" "open_Flush (openOnlyWriter b1) = (True, openOnlyWriter b2)"
    using assms(3) by (auto simp: batch_flush_def split: prod.splits)
  then show ?thesis
    using openBatch_ready [OF assms(1)] batch_write_seq [OF assms(2)]
      csv.session_durable [of "scanWriter b" rs "scanWriter b1" "scanWriter b2"]
      opened.session_durable [of "openOnlyWriter b" rs "openOnlyWriter b1" "openOnlyWriter b2"]
    by (simp add: rows_bytes_def)
qed

text \<open>Property C24. A session that wrote every row and flushed leaves a full file with the header
  and one line per row, in order, and an open-only file with the header and exactly the lines of
  the rows whose status is open; on a resume the rows follow what the files already held and no
  second header is written.\<close>

theorem result_files_exact:
  assumes "openBatchOutputsWithMode se oe appendMode buffered = Inr b"
    and "write_seq (batch_write writer_Write) b rs = (True, b1)"
    and "batch_flush writer_Flush b1 = (True, b2)"
  shows "cw_out (scanWriter b2) = file_start appendMode se @ rows_bytes rs \<and>
    cw_out (the (openOnlyWriter b2)) = file_start appendMode oe @ rows_bytes (filter is_open rs)"
  using batch_session [OF assms] .

definition fine_env :: "string option \<Rightarrow> file_env" where
  "fine_env content = \<lparr>fe_os_ok = True, fe_content = content, fe_script = []\<rparr>"

definition sample_record :: "string \<Rightarrow> int \<Rightarrow> Record" where
  "sample_record status port = \<lparr>r_IP = ''10.0.0.1'', r_IPCidr = [], r_Port = port, r_Status = status,
     r_ResponseMS = 3, r_FabName = [], r_CIDR = ''10.0.0.0/24'', r_CIDRName = ''a,b'', r_ServiceLabel = [],
     r_Decision = [], r_PolicyID = [], r_Reason = [], r_ExecutionKey = [], r_SrcIP = [], r_SrcNetworkSegment = []\<rparr>"

lemma no_failures_io: "io_next [] = (True, [])"
  by (simp add: io_next_def)

definition healthy :: "CSVWriter \<Rightarrow> bool" where
  "healthy cw \<longleftrightarrow> \<not> cw_failed cw \<and> cw_script cw = [] \<and> cw_wroteHeader cw"

lemma healthy_ops:
  assumes "healthy cw"
  shows "\<exists>cw'. writer_Write cw r = (True, cw') \<and> healthy cw'"
    and "\<exists>cw'. writer_Flush cw = (True, cw') \<and> healthy cw'"
  using assms
  by (auto simp: healthy_def writer_Write_def writer_WriteHeader_def csv_Write_def writer_Flush_def no_failures_io)

lemma healthy_batch:
  assumes "healthy (scanWriter b)" and "openOnlyWriter b = Some inner" and "healthy inner"
  shows "\<exists>b1. write_seq (batch_write writer_Write) b rs = (True, b1) \<and>
    healthy (scanWriter b1) \<and> (\<exists>inner1. openOnlyWriter b1 = Some inner1 \<and> healthy inner1)"
  using assms
proof (induction rs arbitrary: b inner)
  case (Cons r rs)
  obtain w where w: "writer_Write (scanWriter b) r = (True, w)" "healthy w"
    using healthy_ops(1) [OF Cons.prems(1)] by blast
  obtain v where v: "open_Write (openOnlyWriter b) r = (True, Some v)" "healthy v"
    using healthy_ops(1) [OF Cons.prems(3), of r] Cons.prems(2,3)
    by (cases "r_Status r = ''open''") (auto simp: open_Write_def)
  show ?case
    using Cons.IH [of "b\<lparr>scanWriter := w, openOnlyWriter := Some v\<rparr>" v] w v
    by (simp add: batch_write_def [of writer_Write b])
qed simp

lemma healthy_open:
  assumes "scanWriterForMode [] content needsHeader buffered = Inr cw"
  shows "healthy cw"
  using assms
  by (auto simp: scanWriterForMode_def NewCSVWriter_def healthy_def writer_WriteHeader_def csv_Write_def
      writer_Flush_def no_failures_io Let_def split: if_splits)

lemma healthy_open_exists: "\<exists>cw. scanWriterForMode [] content needsHeader buffered = Inr cw"
  by (cases needsHeader; cases buffered)
    (simp_all add: scanWriterForMode_def NewCSVWriter_def writer_WriteHeader_def csv_Write_def
      writer_Flush_def no_failures_io Let_def)

lemma healthy_flush:
  assumes "healthy (scanWriter b)" and "openOnlyWriter b = Some inner" and "healthy inner"
  shows "\<exists>b1. batch_flush writer_Flush b = (True, b1)"
  using healthy_ops(2) [OF assms(1)] healthy_ops(2) [OF assms(3)] assms(2)
  by (auto simp: batch_flush_def open_Flush_def)

lemma healthy_session:
  assumes "openResultCSV True (fe_content se) appendMode = Inr (bytes, needs)" and "se = fine_env (fe_content se)"
    and "openResultCSV True (fe_content oe) appendMode = Inr (bytes2, needs2)" and "oe = fine_env (fe_content oe)"
  shows "\<exists>b b1 b2. openBatchOutputsWithMode se oe appendMode buffered = Inr b \<and>
    write_seq (batch_write writer_Write) b rs = (True, b1) \<and> batch_flush writer_Flush b1 = (True, b2)"
proof -
  obtain w where w: "scanWriterForMode [] bytes needs buffered = Inr w" using healthy_open_exists by blast
  obtain v where v: "scanWriterForMode [] bytes2 needs2 buffered = Inr v" using healthy_open_exists by blast
  let ?b = "\<lparr>scanWriter = w, openOnlyWriter = Some v\<rparr>"
  have "fe_os_ok se" "fe_script se = []" "fe_os_ok oe" "fe_script oe = []"
    by (subst assms(2), simp add: fine_env_def)+ (subst assms(4), simp add: fine_env_def)+
  then have "openBatchOutputsWithMode se oe appendMode buffered = Inr ?b"
    using assms(1,3) w v by (simp add: openBatchOutputsWithMode_def)
  moreover obtain b1 inner1 where "write_seq (batch_write writer_Write) ?b rs = (True, b1)"
    and "healthy (scanWriter b1)" "openOnlyWriter b1 = Some inner1" "healthy inner1"
    using healthy_batch [of ?b v rs] healthy_open [OF w] healthy_open [OF v] by auto
  ultimately show ?thesis
    using healthy_flush by blast
qed

theorem result_files_exact_witness:
  "\<exists>b b1 b2. openBatchOutputsWithMode (fine_env None) (fine_env None) False True = Inr b \<and>
    write_seq (batch_write writer_Write) b [sample_record ''open'' 80, sample_record ''close'' 81] = (True, b1) \<and>
    batch_flush writer_Flush b1 = (True, b2) \<and>
    cw_out (the (openOnlyWriter b2)) = header_line @ rows_bytes [sample_record ''open'' 80]"
proof -
  let ?rs = "[sample_record ''open'' 80, sample_record ''close'' 81]"
  have fresh: "openResultCSV True (fe_content (fine_env None)) False = Inr ([], True)"
    by (simp add: openResultCSV_def)
  obtain b b1 b2 where run: "openBatchOutputsWithMode (fine_env None) (fine_env None) False True = Inr b"
    "write_seq (batch_write writer_Write) b ?rs = (True, b1)" "batch_flush writer_Flush b1 = (True, b2)"
    using healthy_session [OF fresh _ fresh, of True ?rs] by (auto simp: fine_env_def)
  have "filter is_open ?rs = [sample_record ''open'' 80]" and "file_start False (fine_env None) = header_line"
    by (simp_all add: is_open_def sample_record_def file_start_def existing_bytes_def)
  then have "cw_out (the (openOnlyWriter b2)) = header_line @ rows_bytes [sample_record ''open'' 80]"
    using result_files_exact [OF run] by simp
  then show ?thesis
    using run by blast
qed

lemma first_line_header: "first_line (header_line @ rest) = header_line"
proof -
  have "takeWhile (\<lambda>c. c \<noteq> CHR 0x0A) (CanonicalHeader @ CHR 0x0A # rest) = CanonicalHeader"
    using CanonicalHeader_plain(1) by (subst takeWhile_append2) auto
  then show ?thesis
    by (simp add: first_line_def header_line_def Let_def)
qed

lemma own_file_accepted: "openResultCSV True (Some (header_line @ rest)) True = Inr (header_line @ rest, False)"
  by (simp add: openResultCSV_def validateAppendHeader_def first_line_header Let_def)
    (simp add: header_line_def CanonicalHeader_plain)

text \<open>Property C25. On a disk without failures a scan that is interrupted after some rows and then
  resumed always opens its own files again, and the files end with one header and the rows of
  both runs in order, each open row once in the open-only file.\<close>

theorem resume_continues_files:
  "\<exists>b b1 b2 d d1 d2.
     openBatchOutputsWithMode (fine_env None) (fine_env None) False True = Inr b \<and>
     write_seq (batch_write writer_Write) b rs1 = (True, b1) \<and>
     batch_flush writer_Flush b1 = (True, b2) \<and>
     openBatchOutputsWithMode (fine_env (Some (cw_out (scanWriter b2))))
       (fine_env (Some (cw_out (the (openOnlyWriter b2))))) True True = Inr d \<and>
     write_seq (batch_write writer_Write) d rs2 = (True, d1) \<and>
     batch_flush writer_Flush d1 = (True, d2) \<and>
     cw_out (scanWriter d2) = header_line @ rows_bytes (rs1 @ rs2) \<and>
     cw_out (the (openOnlyWriter d2)) = header_line @ rows_bytes (filter is_open (rs1 @ rs2))"
proof -
  have fresh: "openResultCSV True (fe_content (fine_env None)) False = Inr ([], True)"
    by (simp add: openResultCSV_def)
  obtain b b1 b2 where one: "openBatchOutputsWithMode (fine_env None) (fine_env None) False True = Inr b"
    "write_seq (batch_write writer_Write) b rs1 = (True, b1)" "batch_flush writer_Flush b1 = (True, b2)"
    using healthy_session [OF fresh _ fresh, of True rs1] by (auto simp: fine_env_def)
  have start: "file_start False (fine_env None) = header_line"
    by (simp add: file_start_def existing_bytes_def)
  have full: "cw_out (scanWriter b2) = header_line @ rows_bytes rs1"
    and opn: "cw_out (the (openOnlyWriter b2)) = header_line @ rows_bytes (filter is_open rs1)"
    using batch_session [OF one] start by simp_all
  let ?se = "fine_env (Some (cw_out (scanWriter b2)))" and ?oe = "fine_env (Some (cw_out (the (openOnlyWriter b2))))"
  have accepted: "openResultCSV True (fe_content ?se) True = Inr (header_line @ rows_bytes rs1, False)"
    "openResultCSV True (fe_content ?oe) True = Inr (header_line @ rows_bytes (filter is_open rs1), False)"
    using own_file_accepted full opn by (simp_all add: fine_env_def)
  obtain d d1 d2 where two: "openBatchOutputsWithMode ?se ?oe True True = Inr d"
    "write_seq (batch_write writer_Write) d rs2 = (True, d1)" "batch_flush writer_Flush d1 = (True, d2)"
    using healthy_session [OF accepted(1) _ accepted(2), of True rs2] by (auto simp: fine_env_def)
  have "file_start True ?se = header_line @ rows_bytes rs1" "file_start True ?oe = header_line @ rows_bytes (filter is_open rs1)"
    using full opn by (simp_all add: file_start_def existing_bytes_def fine_env_def header_line_def)
  then have "cw_out (scanWriter d2) = header_line @ rows_bytes (rs1 @ rs2)"
    and "cw_out (the (openOnlyWriter d2)) = header_line @ rows_bytes (filter is_open (rs1 @ rs2))"
    using batch_session [OF two] by (simp_all add: rows_bytes_def)
  then show ?thesis
    using one two by blast
qed

end
