(* ===== verification/OutputCommit.thy ===== *)
theory OutputCommit
  imports ResultOutput
begin

text \<open>
  The bookkeeping of a scan (\<open>pkg/scanapp\<close>): the cursor of one chunk
  (chunk\_state\_tracker.go), and the committer that counts a result as scanned only once the
  batch that holds its row has been flushed (output\_committer.go, result\_aggregator.go).

  The committer shares the trackers of \<open>config.runtimes\<close> with the dispatcher, so its state
  carries them; its calls to the result files go through the two operations it is given.
  \<open>callbacks\<close> and \<open>observed\<close> record the calls it makes to its observers; log lines and flush
  durations are not modelled.
\<close>

section \<open>chunk\_state\_tracker.go\<close>

record chunkStateTracker =
  tr_chunk :: Chunk
  firstUnwritten :: int

definition newChunkStateTracker :: "Chunk \<Rightarrow> chunkStateTracker" where
  "newChunkStateTracker ch = \<lparr>tr_chunk = ch, firstUnwritten = - 1\<rparr>"

definition updateStatus :: "Chunk \<Rightarrow> Chunk" where
  "updateStatus ch =
     (if ScannedCount ch \<ge> TotalCount ch then ch\<lparr>Status := ''completed''\<rparr>
      else if ScannedCount ch > 0 \<or> NextIndex ch > 0 then ch\<lparr>Status := ''scanning''\<rparr>
      else ch)"

definition AdvanceNextIndex :: "chunkStateTracker \<Rightarrow> int \<Rightarrow> chunkStateTracker" where
  "AdvanceNextIndex t i = t\<lparr>tr_chunk := updateStatus ((tr_chunk t)\<lparr>NextIndex := i\<rparr>)\<rparr>"

definition IncrementScannedBy :: "chunkStateTracker \<Rightarrow> int \<Rightarrow> chunkStateTracker" where
  "IncrementScannedBy t n =
     t\<lparr>tr_chunk := updateStatus ((tr_chunk t)\<lparr>ScannedCount := ScannedCount (tr_chunk t) + n\<rparr>)\<rparr>"

definition MarkUnwritten :: "chunkStateTracker \<Rightarrow> int \<Rightarrow> chunkStateTracker" where
  "MarkUnwritten t i =
     (if firstUnwritten t < 0 \<or> i < firstUnwritten t then t\<lparr>firstUnwritten := i\<rparr> else t)"

definition RewindUnwritten :: "chunkStateTracker \<Rightarrow> bool \<times> chunkStateTracker" where
  "RewindUnwritten t =
     (if firstUnwritten t < 0 then (False, t)
      else
        let ch = (tr_chunk t)\<lparr>NextIndex := firstUnwritten t, ScannedCount := firstUnwritten t\<rparr>;
            ch' = (if NextIndex ch = 0 then ch\<lparr>Status := ''pending''\<rparr> else updateStatus ch)
        in (True, t\<lparr>tr_chunk := ch', firstUnwritten := - 1\<rparr>))"

named_theorems tracker_simps \<open>what the operations of a tracker change\<close>

lemma updateStatus_fields [simp, tracker_simps]:
  "ScannedCount (updateStatus ch) = ScannedCount ch" "NextIndex (updateStatus ch) = NextIndex ch"
  "TotalCount (updateStatus ch) = TotalCount ch" "chunkCIDR (updateStatus ch) = chunkCIDR ch"
  "Ports (updateStatus ch) = Ports ch" "chunkCIDRName (updateStatus ch) = chunkCIDRName ch"
  by (simp_all add: updateStatus_def)

lemma AdvanceNextIndex_fields [simp, tracker_simps]:
  "NextIndex (tr_chunk (AdvanceNextIndex t i)) = i"
  "ScannedCount (tr_chunk (AdvanceNextIndex t i)) = ScannedCount (tr_chunk t)"
  "TotalCount (tr_chunk (AdvanceNextIndex t i)) = TotalCount (tr_chunk t)"
  "firstUnwritten (AdvanceNextIndex t i) = firstUnwritten t"
  by (simp_all add: AdvanceNextIndex_def)

lemma IncrementScannedBy_fields [simp, tracker_simps]:
  "NextIndex (tr_chunk (IncrementScannedBy t n)) = NextIndex (tr_chunk t)"
  "ScannedCount (tr_chunk (IncrementScannedBy t n)) = ScannedCount (tr_chunk t) + n"
  "TotalCount (tr_chunk (IncrementScannedBy t n)) = TotalCount (tr_chunk t)"
  "firstUnwritten (IncrementScannedBy t n) = firstUnwritten t"
  by (simp_all add: IncrementScannedBy_def)

lemma MarkUnwritten_fields [simp, tracker_simps]: "tr_chunk (MarkUnwritten t i) = tr_chunk t"
  by (simp add: MarkUnwritten_def)

text \<open>\<open>tracks t M\<close>: the tracker remembers the least index of the set \<open>M\<close> of unwritten tasks.\<close>

definition tracks :: "chunkStateTracker \<Rightarrow> int set \<Rightarrow> bool" where
  "tracks t M \<longleftrightarrow> M \<subseteq> {0..} \<and>
     (if M = {} then firstUnwritten t = - 1
      else firstUnwritten t \<in> M \<and> (\<forall>m \<in> M. firstUnwritten t \<le> m))"

lemma tracks_MarkUnwritten: "tracks t M \<Longrightarrow> 0 \<le> i \<Longrightarrow> tracks (MarkUnwritten t i) (insert i M)"
proof (cases "M = {}")
  case False
  assume t: "tracks t M" and i: "0 \<le> i"
  then have "firstUnwritten t \<in> M" "0 \<le> firstUnwritten t" "\<forall>m \<in> M. firstUnwritten t \<le> m" "M \<subseteq> {0..}"
    using False by (auto simp: tracks_def)
  then show ?thesis
    using i False by (auto simp: tracks_def MarkUnwritten_def intro: order_trans)
qed (auto simp: tracks_def MarkUnwritten_def)

lemma tracks_new: "tracks (newChunkStateTracker ch) {}"
  by (simp add: tracks_def newChunkStateTracker_def)

lemma tracks_same: "firstUnwritten t = firstUnwritten t' \<Longrightarrow> tracks t M = tracks t' M"
  by (simp add: tracks_def)

lemma tracks_Min:
  assumes "tracks t (insert m M)" and "m \<in> P" and "\<forall>p \<in> P. m \<le> p"
  shows "tracks t (M \<union> P)"
proof -
  have "firstUnwritten t \<in> M \<union> P" "\<forall>p \<in> M \<union> P. firstUnwritten t \<le> p" "M \<union> P \<subseteq> {0..}"
    using assms by (auto simp: tracks_def intro: order_trans)
  then show ?thesis
    using assms(2) by (auto simp: tracks_def)
qed

lemma RewindUnwritten_tracks:
  assumes "tracks t M"
  shows "NextIndex (tr_chunk (snd (RewindUnwritten t))) = (if M = {} then NextIndex (tr_chunk t) else firstUnwritten t)"
    and "ScannedCount (tr_chunk (snd (RewindUnwritten t))) = (if M = {} then ScannedCount (tr_chunk t) else firstUnwritten t)"
    and "TotalCount (tr_chunk (snd (RewindUnwritten t))) = TotalCount (tr_chunk t)"
    and "fst (RewindUnwritten t) \<longleftrightarrow> M \<noteq> {}"
    and "firstUnwritten (snd (RewindUnwritten t)) = - 1"
  using assms by (auto simp: RewindUnwritten_def tracks_def Let_def split: if_splits)

section \<open>result\_aggregator.go: the counters\<close>

record resultSummary =
  written :: nat
  openCount :: nat
  closeCount :: nat
  timeoutCount :: nat
  localErrorCount :: nat
  unknownCount :: nat

definition empty_summary :: resultSummary where
  "empty_summary = \<lparr>written = 0, openCount = 0, closeCount = 0, timeoutCount = 0, localErrorCount = 0, unknownCount = 0\<rparr>"

definition addStatus :: "resultSummary \<Rightarrow> string \<Rightarrow> resultSummary" where
  "addStatus s status =
     (let s1 = s\<lparr>written := written s + 1\<rparr> in
      if status = StatusOpen then s1\<lparr>openCount := openCount s1 + 1\<rparr>
      else if status = StatusCloseTimeout then s1\<lparr>timeoutCount := timeoutCount s1 + 1\<rparr>
      else if status = StatusClose then s1\<lparr>closeCount := closeCount s1 + 1\<rparr>
      else if status = StatusLocalError then s1\<lparr>localErrorCount := localErrorCount s1 + 1\<rparr>
      else s1\<lparr>unknownCount := unknownCount s1 + 1\<rparr>)"

definition mergeSummary :: "resultSummary \<Rightarrow> resultSummary \<Rightarrow> resultSummary" where
  "mergeSummary d s =
     \<lparr>written = written d + written s, openCount = openCount d + openCount s,
      closeCount = closeCount d + closeCount s, timeoutCount = timeoutCount d + timeoutCount s,
      localErrorCount = localErrorCount d + localErrorCount s, unknownCount = unknownCount d + unknownCount s\<rparr>"

text \<open>The reference: the counters of a list of rows.\<close>

definition summary_of :: "string list \<Rightarrow> resultSummary" where
  "summary_of sts =
     \<lparr>written = length sts,
      openCount = length (filter (\<lambda>s. s = StatusOpen) sts),
      closeCount = length (filter (\<lambda>s. s = StatusClose) sts),
      timeoutCount = length (filter (\<lambda>s. s = StatusCloseTimeout) sts),
      localErrorCount = length (filter (\<lambda>s. s = StatusLocalError) sts),
      unknownCount = length (filter (\<lambda>s. s \<notin> {StatusOpen, StatusClose, StatusCloseTimeout, StatusLocalError}) sts)\<rparr>"

lemma summary_of_Nil [simp]: "summary_of [] = empty_summary"
  by (simp add: summary_of_def empty_summary_def)

lemma addStatus_summary_of: "addStatus (summary_of sts) s = summary_of (sts @ [s])"
  by (simp add: addStatus_def summary_of_def Let_def status_defs)

lemma mergeSummary_summary_of: "mergeSummary (summary_of xs) (summary_of ys) = summary_of (xs @ ys)"
  by (simp add: mergeSummary_def summary_of_def)

lemma summary_of_mset: "mset xs = mset ys \<Longrightarrow> summary_of xs = summary_of ys"
  unfolding summary_of_def by (metis mset_filter size_mset)

section \<open>output\_committer.go\<close>

record scanResult =
  res_chunkIdx :: nat
  res_taskIdx :: int
  res_record :: Record

record pendingChunkOutput =
  earliestTask :: int
  pend_count :: nat
  statuses :: resultSummary

record 'o outputCommitter =
  outputs :: 'o
  trackers :: "chunkStateTracker list"
  batchID :: nat
  pendingCount :: nat
  pending :: "nat \<rightharpoonup> pendingChunkOutput"
  summary :: resultSummary
  committedCount :: nat
  failedCount :: nat
  maxBatchSize :: nat
  failed :: bool
  lastChunkIndex :: nat
  callbacks :: "nat list"
  observed :: nat

definition newOutputCommitter :: "'o \<Rightarrow> chunkStateTracker list \<Rightarrow> 'o outputCommitter" where
  "newOutputCommitter outs ts =
     \<lparr>outputs = outs, trackers = ts, batchID = 1, pendingCount = 0, pending = Map.empty,
      summary = empty_summary, committedCount = 0, failedCount = 0, maxBatchSize = 0, failed = False,
      lastChunkIndex = 0, callbacks = [], observed = 0\<rparr>"

text \<open>\<open>for chunkIndex, pending := range c.pending\<close>; the visits of different chunks commute.\<close>

definition each_tracker :: "(nat \<Rightarrow> chunkStateTracker \<Rightarrow> chunkStateTracker) \<Rightarrow> chunkStateTracker list \<Rightarrow> chunkStateTracker list" where
  "each_tracker f ts = map (\<lambda>i. f i (ts ! i)) [0..<length ts]"

definition addPending :: "'o outputCommitter \<Rightarrow> scanResult \<Rightarrow> 'o outputCommitter" where
  "addPending c res =
     (let chunk = (case pending c (res_chunkIdx res) of
            None \<Rightarrow> \<lparr>earliestTask = res_taskIdx res, pend_count = 0, statuses = empty_summary\<rparr>
          | Some p \<Rightarrow> p);
          chunk1 = (if res_taskIdx res < earliestTask chunk then chunk\<lparr>earliestTask := res_taskIdx res\<rparr> else chunk);
          chunk2 = chunk1\<lparr>pend_count := pend_count chunk1 + 1,
                          statuses := addStatus (statuses chunk1) (r_Status (res_record res))\<rparr>;
          n = pendingCount c + 1
      in c\<lparr>pending := (pending c)(res_chunkIdx res \<mapsto> chunk2), pendingCount := n,
           maxBatchSize := (if n > maxBatchSize c then n else maxBatchSize c)\<rparr>)"

text \<open>An error is the count of uncommitted results it reports.\<close>

definition committer_fail :: "'o outputCommitter \<Rightarrow> nat option \<times> 'o outputCommitter" where
  "committer_fail c =
     (Some (pendingCount c),
      c\<lparr>trackers := each_tracker (\<lambda>i t. case pending c i of None \<Rightarrow> t | Some p \<Rightarrow> MarkUnwritten t (earliestTask p)) (trackers c),
        failed := True, failedCount := failedCount c + 1\<rparr>)"

definition committer_commit :: "('o \<Rightarrow> bool \<times> 'o) \<Rightarrow> 'o outputCommitter \<Rightarrow> nat option \<times> 'o outputCommitter" where
  "committer_commit flush c =
     (case flush (outputs c) of (ok, outs) \<Rightarrow>
        if \<not> ok then committer_fail (c\<lparr>outputs := outs\<rparr>)
        else
          let previousWritten = written (summary c);
              sum = fold (\<lambda>i s. case pending c i of None \<Rightarrow> s | Some p \<Rightarrow> mergeSummary s (statuses p))
                      [0..<length (trackers c)] (summary c)
          in (None,
              c\<lparr>outputs := outs,
                trackers := each_tracker (\<lambda>i t. case pending c i of None \<Rightarrow> t
                   | Some p \<Rightarrow> IncrementScannedBy t (int (pend_count p))) (trackers c),
                summary := sum,
                observed := observed c + (\<Sum>i<length (trackers c). case pending c i of None \<Rightarrow> 0 | Some p \<Rightarrow> pend_count p),
                callbacks := callbacks c @ [previousWritten + 1..<written sum + 1],
                committedCount := committedCount c + 1, batchID := batchID c + 1,
                pendingCount := 0, pending := Map.empty\<rparr>))"

definition committer_Accept ::
  "('o \<Rightarrow> Record \<Rightarrow> bool \<times> 'o) \<Rightarrow> ('o \<Rightarrow> bool \<times> 'o) \<Rightarrow> int \<Rightarrow> 'o outputCommitter \<Rightarrow> scanResult \<Rightarrow>
   nat option \<times> 'o outputCommitter" where
  "committer_Accept write_op flush flushInterval c res =
     (if failed c then
        (None, c\<lparr>trackers := (trackers c)[res_chunkIdx res :=
            MarkUnwritten (trackers c ! res_chunkIdx res) (res_taskIdx res)]\<rparr>)
      else
        let c1 = (addPending c res)\<lparr>lastChunkIndex := res_chunkIdx res\<rparr> in
        case write_op (outputs c1) (res_record res) of (ok, outs) \<Rightarrow>
          let c2 = c1\<lparr>outputs := outs\<rparr> in
          if \<not> ok then committer_fail c2
          else if flushInterval > 0 \<and> int (pendingCount c2) \<ge> flushInterval then committer_commit flush c2
          else (None, c2))"

definition committer_Finish :: "('o \<Rightarrow> bool \<times> 'o) \<Rightarrow> 'o outputCommitter \<Rightarrow> nat option \<times> 'o outputCommitter" where
  "committer_Finish flush c =
     (if failed c then (None, c)
      else if pendingCount c > 0 then committer_commit flush c
      else (None, c))"

section \<open>The invariant of the committer\<close>

abbreviation result_status :: "scanResult \<Rightarrow> string" where
  "result_status r \<equiv> r_Status (res_record r)"

definition of_chunk :: "nat \<Rightarrow> scanResult list \<Rightarrow> scanResult list" where
  "of_chunk i rs = filter (\<lambda>r. res_chunkIdx r = i) rs"

definition unwritten :: "nat \<Rightarrow> scanResult list \<Rightarrow> int set" where
  "unwritten i rs = res_taskIdx ` set (of_chunk i rs)"

lemma of_chunk_simps [simp]:
  "of_chunk i [] = []" "of_chunk i (xs @ ys) = of_chunk i xs @ of_chunk i ys"
  "of_chunk i (r # rs) = (if res_chunkIdx r = i then r # of_chunk i rs else of_chunk i rs)"
  by (simp_all add: of_chunk_def)

lemma unwritten_simps [simp]:
  "unwritten i [] = {}" "unwritten i (xs @ ys) = unwritten i xs \<union> unwritten i ys"
  "unwritten i (r # rs) = (if res_chunkIdx r = i then insert (res_taskIdx r) (unwritten i rs) else unwritten i rs)"
  by (simp_all add: unwritten_def image_Un)

lemma mset_of_chunks:
  "\<forall>r \<in> set rs. res_chunkIdx r < n \<Longrightarrow> mset (concat (map (\<lambda>i. of_chunk i rs) [0..<n])) = mset rs"
proof (induction rs)
  case Nil
  have "concat (map (\<lambda>i. of_chunk i []) [0..<n]) = []" by (induction n) auto
  then show ?case by simp
next
  case (Cons r rs)
  have "mset (concat (map (\<lambda>i. of_chunk i (r # rs)) [0..<m])) =
      (if res_chunkIdx r < m then {#r#} else {#}) + mset (concat (map (\<lambda>i. of_chunk i rs) [0..<m]))" for m
    by (induction m) auto
  then show ?case
    using Cons by simp
qed

lemma sum_of_chunks:
  assumes "\<forall>r \<in> set rs. res_chunkIdx r < n"
  shows "(\<Sum>i<n. length (of_chunk i rs)) = length rs"
proof -
  have "length (concat (map (\<lambda>i. of_chunk i rs) [0..<n])) = length rs"
    using mset_of_chunks [OF assms] by (metis size_mset)
  then show ?thesis
    by (simp add: length_concat comp_def sum_list_sum_nth atLeast0LessThan)
qed

definition pending_ok :: "(nat \<rightharpoonup> pendingChunkOutput) \<Rightarrow> scanResult list \<Rightarrow> bool" where
  "pending_ok P pend \<longleftrightarrow>
     (\<forall>i. case P i of
        None \<Rightarrow> of_chunk i pend = []
      | Some p \<Rightarrow> earliestTask p \<in> unwritten i pend \<and> (\<forall>m \<in> unwritten i pend. earliestTask p \<le> m) \<and>
          pend_count p = length (of_chunk i pend) \<and>
          statuses p = summary_of (map result_status (of_chunk i pend)))"

definition committer_inv ::
  "nat \<Rightarrow> (nat \<Rightarrow> int) \<Rightarrow> (nat \<Rightarrow> int set) \<Rightarrow> 'o outputCommitter \<Rightarrow>
   scanResult list \<Rightarrow> scanResult list \<Rightarrow> scanResult list \<Rightarrow> bool" where
  "committer_inv n base marks c committed pend refused \<longleftrightarrow>
     length (trackers c) = n \<and>
     (\<forall>r \<in> set (committed @ pend @ refused). res_chunkIdx r < n \<and> 0 \<le> res_taskIdx r) \<and>
     pendingCount c = length pend \<and> pending_ok (pending c) pend \<and>
     (\<not> failed c \<longrightarrow> refused = []) \<and>
     summary c = summary_of (map result_status committed) \<and>
     callbacks c = [1..<length committed + 1] \<and> observed c = length committed \<and>
     (\<forall>i < n. ScannedCount (tr_chunk (trackers c ! i)) = base i + int (length (of_chunk i committed)) \<and>
        tracks (trackers c ! i) (marks i \<union> (if failed c then unwritten i (pend @ refused) else {})))"

lemma pending_ok_add:
  assumes "pending_ok (pending c) pend"
  shows "pending_ok (pending (addPending c res)) (pend @ [res])"
  unfolding pending_ok_def
proof (rule allI)
  fix i
  have old: "case pending c i of
        None \<Rightarrow> of_chunk i pend = []
      | Some p \<Rightarrow> earliestTask p \<in> unwritten i pend \<and> (\<forall>m \<in> unwritten i pend. earliestTask p \<le> m) \<and>
          pend_count p = length (of_chunk i pend) \<and>
          statuses p = summary_of (map result_status (of_chunk i pend))"
    using assms by (simp add: pending_ok_def)
  show "case pending (addPending c res) i of
        None \<Rightarrow> of_chunk i (pend @ [res]) = []
      | Some p \<Rightarrow> earliestTask p \<in> unwritten i (pend @ [res]) \<and>
          (\<forall>m \<in> unwritten i (pend @ [res]). earliestTask p \<le> m) \<and>
          pend_count p = length (of_chunk i (pend @ [res])) \<and>
          statuses p = summary_of (map result_status (of_chunk i (pend @ [res])))"
  proof (cases "res_chunkIdx res = i")
    case False
    then show ?thesis
      using old by (auto simp: addPending_def Let_def split: option.splits)
  next
    case True
    show ?thesis
    proof (cases "pending c i")
      case None
      then show ?thesis
        using old True addStatus_summary_of [of "[]"]
        by (simp add: addPending_def Let_def unwritten_def)
    next
      case (Some p)
      then show ?thesis
        using old True addStatus_summary_of
        by (auto simp: addPending_def Let_def)
    qed
  qed
qed

lemma each_tracker_nth [simp]: "i < length ts \<Longrightarrow> each_tracker f ts ! i = f i (ts ! i)"
  by (simp add: each_tracker_def)

lemma length_each_tracker [simp]: "length (each_tracker f ts) = length ts"
  by (simp add: each_tracker_def)

lemma fold_pending:
  assumes "pending_ok P pend"
  shows "fold (\<lambda>i s. case P i of None \<Rightarrow> s | Some p \<Rightarrow> mergeSummary s (statuses p)) is (summary_of xs) =
    summary_of (xs @ map result_status (concat (map (\<lambda>i. of_chunk i pend) is)))"
proof (induction "is" arbitrary: xs)
  case (Cons i ns)
  have "(case P i of None \<Rightarrow> summary_of xs | Some p \<Rightarrow> mergeSummary (summary_of xs) (statuses p)) =
      summary_of (xs @ map result_status (of_chunk i pend))"
    using assms [unfolded pending_ok_def, THEN spec [of _ i]]
    by (auto simp: mergeSummary_summary_of split: option.splits)
  then show ?case
    using Cons.IH by simp
qed simp

lemma committer_fail_inv:
  assumes inv: "committer_inv n base marks c committed pend []" and ok: "\<not> failed c"
    and fail: "committer_fail c = (e, c')"
  shows "committer_inv n base marks c' committed pend [] \<and> failed c' \<and> e = Some (length pend) \<and> outputs c' = outputs c"
proof -
  have P: "pending_ok (pending c) pend" and len: "length (trackers c) = n"
    using inv by (simp_all add: committer_inv_def)
  have "tracks (trackers c' ! i) (marks i \<union> unwritten i pend)" and
    "ScannedCount (tr_chunk (trackers c' ! i)) = base i + int (length (of_chunk i committed))" if i: "i < n" for i
  proof -
    have old: "tracks (trackers c ! i) (marks i)"
      "ScannedCount (tr_chunk (trackers c ! i)) = base i + int (length (of_chunk i committed))"
      using inv i ok by (auto simp: committer_inv_def)
    have new: "trackers c' ! i = (case pending c i of None \<Rightarrow> trackers c ! i | Some p \<Rightarrow> MarkUnwritten (trackers c ! i) (earliestTask p))"
      using fail len i by (auto simp: committer_fail_def)
    show "ScannedCount (tr_chunk (trackers c' ! i)) = base i + int (length (of_chunk i committed))"
      using new old by (simp split: option.splits)
    show "tracks (trackers c' ! i) (marks i \<union> unwritten i pend)"
    proof (cases "pending c i")
      case None
      then have "unwritten i pend = {}"
        using P [unfolded pending_ok_def, THEN spec [of _ i]] by (simp add: unwritten_def)
      then show ?thesis using new old None by simp
    next
      case (Some p)
      then have p: "earliestTask p \<in> unwritten i pend" "\<forall>m \<in> unwritten i pend. earliestTask p \<le> m"
        using P [unfolded pending_ok_def, THEN spec [of _ i]] by simp_all
      have "0 \<le> earliestTask p"
        using p(1) inv by (auto simp: unwritten_def of_chunk_def committer_inv_def)
      then show ?thesis
        using tracks_Min [OF _ p] tracks_MarkUnwritten [OF old(1)] new Some by simp
    qed
  qed
  then show ?thesis
    using inv fail len by (auto simp: committer_fail_def committer_inv_def)
qed

lemma committer_commit_inv:
  assumes inv: "committer_inv n base marks c committed pend []" and ok: "\<not> failed c"
    and flush: "flush (outputs c) = (True, outs)" and commit: "committer_commit flush c = (e, c')"
  shows "committer_inv n base marks c' (committed @ pend) [] [] \<and> \<not> failed c' \<and> e = None \<and> outputs c' = outs"
proof -
  have P: "pending_ok (pending c) pend" and len: "length (trackers c) = n"
    and S: "summary c = summary_of (map result_status committed)"
    and range: "\<forall>r \<in> set pend. res_chunkIdx r < n"
    using inv by (auto simp: committer_inv_def)
  have c': "c' = snd (committer_commit flush c)" "e = None"
    using commit flush by (simp_all add: committer_commit_def Let_def)
  have "summary c' = summary_of (map result_status committed @ map result_status (concat (map (\<lambda>i. of_chunk i pend) [0..<n])))"
    using fold_pending [OF P] by (simp add: c' committer_commit_def flush Let_def len S)
  also have "\<dots> = summary_of (map result_status (committed @ pend))"
    using mset_of_chunks [OF range] by (intro summary_of_mset) (simp add: mset_map)
  finally have sum: "summary c' = summary_of (map result_status (committed @ pend))" .
  have count: "(case pending c i of None \<Rightarrow> 0 | Some p \<Rightarrow> pend_count p) = length (of_chunk i pend)" for i
    using P [unfolded pending_ok_def, THEN spec [of _ i]] by (auto split: option.splits)
  have "written (summary c) = length committed" "written (summary c') = length committed + length pend"
    using S sum by (simp_all add: summary_of_def)
  then have calls: "callbacks c' = [1..<length (committed @ pend) + 1]"
    using inv upt_add_eq_append [of 1 "length committed + 1" "length pend"]
    by (simp add: c' committer_commit_def flush Let_def committer_inv_def)
  have obs: "observed c' = length (committed @ pend)"
    using inv sum_of_chunks [OF range] by (simp add: c' committer_commit_def flush Let_def committer_inv_def count)
  have "ScannedCount (tr_chunk (trackers c' ! i)) = base i + int (length (of_chunk i (committed @ pend)))"
    and "tracks (trackers c' ! i) (marks i)" if i: "i < n" for i
  proof -
    have old: "tracks (trackers c ! i) (marks i)"
      "ScannedCount (tr_chunk (trackers c ! i)) = base i + int (length (of_chunk i committed))"
      using inv i ok by (auto simp: committer_inv_def)
    have new: "trackers c' ! i = (case pending c i of None \<Rightarrow> trackers c ! i
        | Some p \<Rightarrow> IncrementScannedBy (trackers c ! i) (int (pend_count p)))"
      using i len by (simp add: c' committer_commit_def flush Let_def)
    show "tracks (trackers c' ! i) (marks i)"
      using new old(1) by (auto simp: tracks_def split: option.splits)
    show "ScannedCount (tr_chunk (trackers c' ! i)) = base i + int (length (of_chunk i (committed @ pend)))"
      using new old(2) count [of i] by (auto split: option.splits)
  qed
  then show ?thesis
    using inv sum calls obs ok
    by (auto simp: c' committer_commit_def flush Let_def committer_inv_def pending_ok_def len)
qed

section \<open>What the committer needs of the result files\<close>

text \<open>
  \<open>kept o d\<close>: the rows \<open>d\<close> are in the files for good; \<open>taken o a\<close>: the writers have accepted
  exactly the rows \<open>a\<close>. A successful flush turns the second into the first.
\<close>

locale commit_sink =
  fixes write_op :: "'o \<Rightarrow> Record \<Rightarrow> bool \<times> 'o"
    and flush_op :: "'o \<Rightarrow> bool \<times> 'o"
    and kept :: "'o \<Rightarrow> Record list \<Rightarrow> bool"
    and taken :: "'o \<Rightarrow> Record list \<Rightarrow> bool"
  assumes write_kept: "kept out rs \<Longrightarrow> write_op out r = (ok, out') \<Longrightarrow> kept out' rs"
    and flush_kept: "kept out rs \<Longrightarrow> flush_op out = (ok, out') \<Longrightarrow> kept out' rs"
    and write_taken: "taken out rs \<Longrightarrow> write_op out r = (True, out') \<Longrightarrow> taken out' (rs @ [r])"
    and flush_taken: "taken out rs \<Longrightarrow> flush_op out = (True, out') \<Longrightarrow> taken out' rs \<and> kept out' rs"
begin

definition good where
  "good n base marks c committed pend refused \<longleftrightarrow>
     committer_inv n base marks c committed pend refused \<and>
     kept (outputs c) (map res_record committed) \<and>
     (\<not> failed c \<longrightarrow> taken (outputs c) (map res_record (committed @ pend)))"

lemma fail_good:
  assumes "committer_inv n base marks c committed pend []" and "\<not> failed c"
    and "kept (outputs c) (map res_record committed)" and "committer_fail c = (e, c')"
  shows "good n base marks c' committed pend [] \<and> failed c' \<and> e \<noteq> None"
  using committer_fail_inv [OF assms(1,2,4)] assms(3) by (simp add: good_def)

lemma commit_good:
  assumes "good n base marks c committed pend []" and "\<not> failed c"
    and commit: "committer_commit flush_op c = (e, c')"
  shows "(e = None \<and> \<not> failed c' \<and> good n base marks c' (committed @ pend) [] []) \<or>
    (e \<noteq> None \<and> failed c' \<and> good n base marks c' committed pend [])"
proof -
  have inv: "committer_inv n base marks c committed pend []" and k: "kept (outputs c) (map res_record committed)"
    and t: "taken (outputs c) (map res_record (committed @ pend))"
    using assms(1,2) by (simp_all add: good_def)
  obtain ok outs where flush: "flush_op (outputs c) = (ok, outs)" by fastforce
  show ?thesis
  proof (cases ok)
    case True
    then show ?thesis
      using committer_commit_inv [where flush = flush_op, OF inv assms(2) _ commit, of outs] flush flush_taken [OF t, of outs]
      by (simp add: good_def)
  next
    case False
    have "committer_fail (c\<lparr>outputs := outs\<rparr>) = (e, c')"
      using commit flush False by (simp add: committer_commit_def)
    moreover have "committer_inv n base marks (c\<lparr>outputs := outs\<rparr>) committed pend []"
      using inv by (simp add: committer_inv_def)
    ultimately show ?thesis
      using fail_good [of n base marks "c\<lparr>outputs := outs\<rparr>"] flush_kept [OF k flush] assms(2) by simp
  qed
qed

lemma accept_good:
  assumes good: "good n base marks c committed pend refused"
    and res: "res_chunkIdx res < n" "0 \<le> res_taskIdx res"
    and accept: "committer_Accept write_op flush_op interval c res = (e, c')"
  shows "\<exists>committed' pend' refused'.
    good n base marks c' committed' pend' refused' \<and>
    committed' @ pend' @ refused' = (committed @ pend @ refused) @ [res] \<and>
    (e \<noteq> None \<longrightarrow> failed c') \<and> (failed c \<longrightarrow> failed c') \<and> (failed c' \<longrightarrow> failed c \<or> e \<noteq> None)"
proof (cases "failed c")
  case True
  have inv: "committer_inv n base marks c committed pend refused" and k: "kept (outputs c) (map res_record committed)"
    using good by (simp_all add: good_def)
  have e: "e = None" and c': "c' = c\<lparr>trackers := (trackers c)[res_chunkIdx res :=
      MarkUnwritten (trackers c ! res_chunkIdx res) (res_taskIdx res)]\<rparr>"
    using accept True by (simp_all add: committer_Accept_def)
  have len: "length (trackers c) = n" using inv by (simp add: committer_inv_def)
  have "ScannedCount (tr_chunk (trackers c' ! i)) = base i + int (length (of_chunk i committed)) \<and>
     tracks (trackers c' ! i) (marks i \<union> unwritten i (pend @ refused @ [res]))" if i: "i < n" for i
  proof -
    have old: "tracks (trackers c ! i) (marks i \<union> unwritten i (pend @ refused))"
      "ScannedCount (tr_chunk (trackers c ! i)) = base i + int (length (of_chunk i committed))"
      using inv i True by (auto simp: committer_inv_def)
    show ?thesis
      using old tracks_MarkUnwritten [OF old(1) res(2)] i len c'
      by (cases "res_chunkIdx res = i") (simp_all add: Un_assoc)
  qed
  then have "committer_inv n base marks c' committed pend (refused @ [res])"
    using inv True res len by (auto simp: c' committer_inv_def)
  then have "good n base marks c' committed pend (refused @ [res])"
    using k True c' by (simp add: good_def)
  then show ?thesis
    using e True c' by (intro exI [of _ committed] exI [of _ pend] exI [of _ "refused @ [res]"]) simp
next
  case False
  define c1 where "c1 = (addPending c res)\<lparr>lastChunkIndex := res_chunkIdx res\<rparr>"
  have inv: "committer_inv n base marks c committed pend []" and k: "kept (outputs c) (map res_record committed)"
    and t: "taken (outputs c) (map res_record (committed @ pend))" and nil: "refused = []"
    using good False by (auto simp: good_def committer_inv_def)
  have P1: "pending_ok (pending c1) (pend @ [res])"
    using pending_ok_add [of c pend res] inv by (simp add: c1_def committer_inv_def)
  have inv1: "committer_inv n base marks (c1\<lparr>outputs := outs\<rparr>) committed (pend @ [res]) []" for outs
    using inv P1 res False by (simp add: committer_inv_def c1_def) (simp add: addPending_def Let_def)
  have f1: "\<not> failed c1" and o1: "outputs c1 = outputs c"
    using False by (simp_all add: c1_def addPending_def Let_def)
  obtain ok outs where wr: "write_op (outputs c) (res_record res) = (ok, outs)" by fastforce
  have k1: "kept outs (map res_record committed)" using write_kept [OF k wr] .
  have split: "committer_Accept write_op flush_op interval c res =
     (if \<not> ok then committer_fail (c1\<lparr>outputs := outs\<rparr>)
      else if interval > 0 \<and> int (pendingCount (c1\<lparr>outputs := outs\<rparr>)) \<ge> interval
      then committer_commit flush_op (c1\<lparr>outputs := outs\<rparr>) else (None, c1\<lparr>outputs := outs\<rparr>))"
    using False wr o1 by (simp add: committer_Accept_def Let_def flip: c1_def)
  have "(e = None \<and> \<not> failed c' \<and> (good n base marks c' (committed @ pend @ [res]) [] [] \<or>
          good n base marks c' committed (pend @ [res]) [])) \<or>
        (e \<noteq> None \<and> failed c' \<and> good n base marks c' committed (pend @ [res]) [])"
  proof (cases ok)
    case False
    then show ?thesis
      using fail_good [OF inv1 [of outs]] f1 k1 accept split by simp
  next
    case True
    have g1: "good n base marks (c1\<lparr>outputs := outs\<rparr>) committed (pend @ [res]) []"
      using inv1 k1 write_taken [OF t, of "res_record res" outs] wr True by (simp add: good_def)
    show ?thesis
      using commit_good [OF g1] f1 accept split True g1 by (auto split: if_splits)
  qed
  then show ?thesis
    using nil False by (elim disjE conjE) force+
qed

lemma finish_good:
  assumes good: "good n base marks c committed pend refused"
    and finish: "committer_Finish flush_op c = (e, c')"
  shows "(\<not> failed c' \<and> e = None \<and> good n base marks c' (committed @ pend @ refused) [] []) \<or>
    (failed c' \<and> good n base marks c' committed pend refused)"
proof (cases "failed c")
  case True
  then show ?thesis using good finish by (simp add: committer_Finish_def)
next
  case False
  then have nil: "refused = []" using good by (auto simp: good_def committer_inv_def)
  show ?thesis
  proof (cases "pend = []")
    case True
    then have "pendingCount c = 0" using good by (simp add: good_def committer_inv_def)
    then show ?thesis
      using good finish False True nil by (simp add: committer_Finish_def)
  next
    case pend: False
    then have "pendingCount c > 0" using good by (simp add: good_def committer_inv_def)
    then show ?thesis
      using commit_good [OF good [unfolded nil] False] finish False nil by (auto simp: committer_Finish_def)
  qed
qed

end

section \<open>The batch outputs keep that contract\<close>

definition batch_kept :: "string \<Rightarrow> string \<Rightarrow> CSVWriter batchOutputs \<Rightarrow> Record list \<Rightarrow> bool" where
  "batch_kept S S' b rs \<longleftrightarrow>
     prefix (S @ rows_bytes rs) (cw_out (scanWriter b)) \<and>
     prefix (S' @ rows_bytes (filter is_open rs)) (cw_out (the (openOnlyWriter b)))"

definition batch_taken :: "string \<Rightarrow> string \<Rightarrow> CSVWriter batchOutputs \<Rightarrow> Record list \<Rightarrow> bool" where
  "batch_taken S S' b rs \<longleftrightarrow>
     writer_ready (scanWriter b) \<and> writer_accepted (scanWriter b) = S @ rows_bytes rs \<and>
     open_ready (openOnlyWriter b) \<and>
     writer_accepted (the (openOnlyWriter b)) = S' @ rows_bytes (filter is_open rs)"

lemma writer_Flush_grows: "writer_Flush cw = (ok, cw') \<Longrightarrow> prefix (cw_out cw) (cw_out cw')"
  by (auto simp: writer_Flush_def split: if_splits prod.splits)

lemma writer_WriteHeader_grows:
  assumes "writer_WriteHeader cw = (ok, cw')"
  shows "prefix (cw_out cw) (cw_out cw')"
proof -
  obtain ok1 cw1 where one: "csv_Write cw (map fst Columns) = (ok1, cw1)" by fastforce
  obtain ok2 cw2 where two: "writer_Flush (cw1\<lparr>cw_wroteHeader := True\<rparr>) = (ok2, cw2)" by fastforce
  show ?thesis
    using assms one two csv_Write_cases(2) [OF one] writer_Flush_grows [OF two]
    by (auto simp: writer_WriteHeader_def Let_def split: if_splits)
qed

lemma writer_Write_grows:
  assumes "writer_Write cw r = (ok, cw')"
  shows "prefix (cw_out cw) (cw_out cw')"
proof -
  obtain ok0 cw0 where zero: "writer_WriteHeader cw = (ok0, cw0)" by fastforce
  obtain ok1 cw1 where one: "csv_Write cw0 (row_of r) = (ok1, cw1)" by fastforce
  obtain ok2 cw2 where two: "writer_Flush cw1 = (ok2, cw2)" by fastforce
  have "cw' = cw0 \<or> cw' = cw1 \<or> cw' = cw2"
    using assms zero one two by (auto simp: writer_Write_def split: if_splits)
  then show ?thesis
    using writer_WriteHeader_grows [OF zero] csv_Write_cases(2) [OF one] writer_Flush_grows [OF two]
    by (auto intro: prefix_order.trans)
qed

lemma open_Write_grows: "open_Write w r = (ok, w') \<Longrightarrow> prefix (cw_out (the w)) (cw_out (the w'))"
  using writer_Write_grows by (auto simp: open_Write_def split: option.splits if_splits prod.splits)

lemma open_Flush_grows: "open_Flush w = (ok, w') \<Longrightarrow> prefix (cw_out (the w)) (cw_out (the w'))"
  using writer_Flush_grows by (auto simp: open_Flush_def split: option.splits prod.splits)

lemma batch_write_kept:
  assumes "batch_kept S S' b rs" and "batch_write writer_Write b r = (ok, b')"
  shows "batch_kept S S' b' rs"
proof -
  obtain ok1 w where one: "writer_Write (scanWriter b) r = (ok1, w)" by fastforce
  obtain ok2 v where two: "open_Write (openOnlyWriter b) r = (ok2, v)" by fastforce
  have "b' = b\<lparr>scanWriter := w\<rparr> \<or> b' = b\<lparr>scanWriter := w, openOnlyWriter := v\<rparr>"
    using assms(2) one two by (auto simp: batch_write_def split: if_splits)
  then show ?thesis
    using assms(1) writer_Write_grows [OF one] open_Write_grows [OF two]
    by (auto simp: batch_kept_def intro: prefix_order.trans)
qed

lemma batch_flush_kept:
  assumes "batch_kept S S' b rs" and "batch_flush writer_Flush b = (ok, b')"
  shows "batch_kept S S' b' rs"
proof -
  obtain ok1 w where one: "writer_Flush (scanWriter b) = (ok1, w)" by fastforce
  obtain ok2 v where two: "open_Flush (openOnlyWriter b) = (ok2, v)" by fastforce
  have "b' = b\<lparr>scanWriter := w, openOnlyWriter := v\<rparr>"
    using assms(2) one two by (auto simp: batch_flush_def)
  then show ?thesis
    using assms(1) writer_Flush_grows [OF one] open_Flush_grows [OF two]
    by (auto simp: batch_kept_def intro: prefix_order.trans)
qed

lemma rows_bytes_append [simp]: "rows_bytes (xs @ ys) = rows_bytes xs @ rows_bytes ys"
  by (simp add: rows_bytes_def)

lemma batch_write_taken:
  assumes "batch_taken S S' b rs" and "batch_write writer_Write b r = (True, b')"
  shows "batch_taken S S' b' (rs @ [r])"
proof -
  have seq: "write_seq (batch_write writer_Write) b [r] = (True, b')" using assms(2) by simp
  show ?thesis
    using batch_write_seq [OF seq] assms(1)
      csv.write_seq_accepted [of "scanWriter b" "[r]" "scanWriter b'"]
      opened.write_seq_accepted [of "openOnlyWriter b" "[r]" "openOnlyWriter b'"]
    by (simp add: batch_taken_def rows_bytes_def)
qed

lemma batch_flush_taken:
  assumes "batch_taken S S' b rs" and "batch_flush writer_Flush b = (True, b')"
  shows "batch_taken S S' b' rs \<and> batch_kept S S' b' rs"
proof -
  have w: "writer_Flush (scanWriter b) = (True, scanWriter b')" and v: "open_Flush (openOnlyWriter b) = (True, openOnlyWriter b')"
    using assms(2) by (auto simp: batch_flush_def split: prod.splits)
  have ready: "writer_ready (scanWriter b)" "open_ready (openOnlyWriter b)"
    using assms(1) by (simp_all add: batch_taken_def)
  show ?thesis
    using assms(1) csv.flush_durable [OF ready(1) w] csv.flush_ready [OF ready(1) w]
      opened.flush_durable [OF ready(2) v] opened.flush_ready [OF ready(2) v]
    by (auto simp: batch_taken_def batch_kept_def)
qed

interpretation batch: commit_sink "batch_write writer_Write" "batch_flush writer_Flush" "batch_kept S S'" "batch_taken S S'"
  for S S'
  by unfold_locales (rule batch_write_kept batch_flush_kept batch_write_taken batch_flush_taken; assumption)+

lemma batch_opened:
  assumes "openBatchOutputsWithMode se oe appendMode True = Inr b"
  shows "batch_taken (file_start appendMode se) (file_start appendMode oe) b []"
    and "batch_kept (file_start appendMode se) (file_start appendMode oe) b []"
proof -
  show "batch_taken (file_start appendMode se) (file_start appendMode oe) b []"
    using openBatch_ready [OF assms] by (simp add: batch_taken_def rows_bytes_def)
  have flushed: "cw_pending cw = []" if "scanWriterForMode script content needs True = Inr cw" for script content needs cw
    using that writer_Flush_cases(3)
    by (auto simp: scanWriterForMode_def Let_def split: if_splits prod.splits)
  then have "cw_pending (scanWriter b) = []" "cw_pending (the (openOnlyWriter b)) = []"
    using assms by (auto simp: openBatchOutputsWithMode_def try_bind_eq_Inr)
  then show "batch_kept (file_start appendMode se) (file_start appendMode oe) b []"
    using openBatch_ready [OF assms] by (simp add: batch_kept_def rows_bytes_def writer_accepted_def)
qed

section \<open>A run of the committer\<close>

text \<open>The loop over the results: it goes on after an error, and \<open>Finish\<close> closes the last batch.\<close>

primrec accept_results ::
  "('o \<Rightarrow> Record \<Rightarrow> bool \<times> 'o) \<Rightarrow> ('o \<Rightarrow> bool \<times> 'o) \<Rightarrow> int \<Rightarrow> 'o outputCommitter \<Rightarrow> scanResult list \<Rightarrow>
   'o outputCommitter" where
  "accept_results write_op flush interval c [] = c"
| "accept_results write_op flush interval c (r # rs) =
     accept_results write_op flush interval (snd (committer_Accept write_op flush interval c r)) rs"

definition committer_run ::
  "('o \<Rightarrow> Record \<Rightarrow> bool \<times> 'o) \<Rightarrow> ('o \<Rightarrow> bool \<times> 'o) \<Rightarrow> int \<Rightarrow> 'o \<Rightarrow> chunkStateTracker list \<Rightarrow> scanResult list \<Rightarrow>
   'o outputCommitter" where
  "committer_run write_op flush interval outs ts rs =
     snd (committer_Finish flush (accept_results write_op flush interval (newOutputCommitter outs ts) rs))"

context commit_sink
begin

lemma accept_results_good:
  "good n base marks c committed pend refused \<Longrightarrow> \<forall>r \<in> set rs. res_chunkIdx r < n \<and> 0 \<le> res_taskIdx r \<Longrightarrow>
   \<exists>committed' pend' refused'.
     good n base marks (accept_results write_op flush_op interval c rs) committed' pend' refused' \<and>
     committed' @ pend' @ refused' = (committed @ pend @ refused) @ rs"
proof (induction rs arbitrary: c committed pend refused)
  case (Cons r rs)
  obtain e c1 where one: "committer_Accept write_op flush_op interval c r = (e, c1)" by fastforce
  obtain committed1 pend1 refused1 where mid: "good n base marks c1 committed1 pend1 refused1"
    "committed1 @ pend1 @ refused1 = (committed @ pend @ refused) @ [r]"
    using accept_good [OF Cons.prems(1) _ _ one] Cons.prems(2) by auto
  show ?case
    using Cons.IH [OF mid(1)] Cons.prems(2) mid(2) one by auto
qed fastforce

lemma start_good:
  assumes "kept outs []" and "taken outs []" and "\<forall>t \<in> set ts. tracks t {}"
  shows "good (length ts) (\<lambda>i. ScannedCount (tr_chunk (ts ! i))) (\<lambda>i. {}) (newOutputCommitter outs ts) [] [] []"
  using assms by (simp add: good_def committer_inv_def newOutputCommitter_def pending_ok_def)

lemma run_good:
  assumes "kept outs []" and "taken outs []" and "\<forall>t \<in> set ts. tracks t {}"
    and "\<forall>r \<in> set rs. res_chunkIdx r < length ts \<and> 0 \<le> res_taskIdx r"
    and c: "c = committer_run write_op flush_op interval outs ts rs"
  shows "\<exists>committed rest.
    rs = committed @ rest \<and> (\<not> failed c \<longrightarrow> rest = [] \<and> taken (outputs c) (map res_record rs)) \<and>
    kept (outputs c) (map res_record committed) \<and> summary c = summary_of (map result_status committed) \<and>
    callbacks c = [1..<length committed + 1] \<and>
    (\<forall>i < length ts. ScannedCount (tr_chunk (trackers c ! i)) =
        ScannedCount (tr_chunk (ts ! i)) + int (length (of_chunk i committed)) \<and>
      tracks (trackers c ! i) (unwritten i rest))"
proof -
  let ?n = "length ts" and ?base = "\<lambda>i. ScannedCount (tr_chunk (ts ! i))"
  obtain e where fin: "committer_Finish flush_op (accept_results write_op flush_op interval (newOutputCommitter outs ts) rs) = (e, c)"
    using c by (metis committer_run_def prod.collapse)
  obtain committed pend refused where mid:
    "good ?n ?base (\<lambda>i. {}) (accept_results write_op flush_op interval (newOutputCommitter outs ts) rs) committed pend refused"
    "committed @ pend @ refused = rs"
    using accept_results_good [OF start_good [OF assms(1-3)] assms(4), of interval] by auto
  consider "\<not> failed c" "good ?n ?base (\<lambda>i. {}) c rs [] []" | "failed c" "good ?n ?base (\<lambda>i. {}) c committed pend refused"
    using finish_good [OF mid(1) fin] mid(2) by blast
  then show ?thesis
  proof cases
    case 1
    then show ?thesis
      by (intro exI [of _ rs] exI [of _ "[]"]) (auto simp: good_def committer_inv_def)
  next
    case 2
    then show ?thesis
      using mid(2)
      by (intro exI [of _ committed] exI [of _ "pend @ refused"]) (auto simp: good_def committer_inv_def)
  qed
qed

end

text \<open>Property C13. Whatever the disk does and however the batches fall, the results split into a
  first part whose rows are in both files for good and a rest: the counters, the progress
  callbacks and the scanned counts of the chunks are exactly those of the first part, and the
  cursor of every chunk with a result in the rest is marked at the least index of that rest, so
  that it is rewound below every row that is not certainly written.\<close>

theorem committer_counts_only_durable_rows:
  assumes "openBatchOutputsWithMode se oe appendMode True = Inr b"
    and "\<forall>r \<in> set rs. res_chunkIdx r < length chunks \<and> 0 \<le> res_taskIdx r"
    and "c = committer_run (batch_write writer_Write) (batch_flush writer_Flush) interval b
               (map newChunkStateTracker chunks) rs"
  shows "\<exists>committed rest.
    rs = committed @ rest \<and> (\<not> failed c \<longrightarrow> rest = []) \<and>
    prefix (file_start appendMode se @ rows_bytes (map res_record committed)) (cw_out (scanWriter (outputs c))) \<and>
    prefix (file_start appendMode oe @ rows_bytes (filter is_open (map res_record committed)))
      (cw_out (the (openOnlyWriter (outputs c)))) \<and>
    summary c = summary_of (map result_status committed) \<and>
    callbacks c = [1..<length committed + 1] \<and>
    (\<forall>i < length chunks.
      ScannedCount (tr_chunk (trackers c ! i)) = ScannedCount (chunks ! i) + int (length (of_chunk i committed)) \<and>
      (if unwritten i rest = {} then firstUnwritten (trackers c ! i) = - 1
       else firstUnwritten (trackers c ! i) = Min (unwritten i rest)))"
proof -
  let ?ts = "map newChunkStateTracker chunks"
  have T: "\<forall>t \<in> set ?ts. tracks t {}" using tracks_new by simp
  have R: "\<forall>r \<in> set rs. res_chunkIdx r < length ?ts \<and> 0 \<le> res_taskIdx r" using assms(2) by simp
  obtain committed rest where run:
    "rs = committed @ rest" "\<not> failed c \<longrightarrow> rest = [] \<and> batch_taken (file_start appendMode se) (file_start appendMode oe) (outputs c) (map res_record rs)"
    "batch_kept (file_start appendMode se) (file_start appendMode oe) (outputs c) (map res_record committed)"
    "summary c = summary_of (map result_status committed)" "callbacks c = [1..<length committed + 1]"
    "\<forall>i < length ?ts. ScannedCount (tr_chunk (trackers c ! i)) =
        ScannedCount (tr_chunk (?ts ! i)) + int (length (of_chunk i committed)) \<and>
      tracks (trackers c ! i) (unwritten i rest)"
    using batch.run_good [OF batch_opened(2) [OF assms(1)] batch_opened(1) [OF assms(1)] T R assms(3)] by blast
  have min: "firstUnwritten t = Min (unwritten i rest)" if "tracks t (unwritten i rest)" "unwritten i rest \<noteq> {}" for t i
    using that by (intro Min_eqI [symmetric]) (auto simp: tracks_def unwritten_def)
  show ?thesis
    using run(1,3-) run(2) min
    by (intro exI [of _ committed] exI [of _ rest])
      (auto simp: batch_kept_def newChunkStateTracker_def tracks_def)
qed

definition sample_chunk :: "int \<Rightarrow> Chunk" where
  "sample_chunk n = \<lparr>chunkCIDR = ''10.0.0.0/30'', chunkCIDRName = [], Ports = [''80/tcp''],
     NextIndex = 0, ScannedCount = 0, TotalCount = n, Status = ''pending''\<rparr>"

theorem committer_counts_only_durable_rows_witness:
  "\<exists>b c. openBatchOutputsWithMode (fine_env None) (fine_env None) False True = Inr b \<and>
    c = committer_run (batch_write writer_Write) (batch_flush writer_Flush) 1 b
      (map newChunkStateTracker [sample_chunk 4])
      [\<lparr>res_chunkIdx = 0, res_taskIdx = 1, res_record = sample_record ''open'' 80\<rparr>] \<and>
    (\<exists>committed rest. [\<lparr>res_chunkIdx = 0, res_taskIdx = 1, res_record = sample_record ''open'' 80\<rparr>] = committed @ rest \<and>
      summary c = summary_of (map result_status committed))"
proof -
  have fresh: "openResultCSV True (fe_content (fine_env None)) False = Inr ([], True)"
    by (simp add: openResultCSV_def)
  obtain b where b: "openBatchOutputsWithMode (fine_env None) (fine_env None) False True = Inr b"
    using healthy_session [OF fresh _ fresh, of True "[]"] by (auto simp: fine_env_def)
  show ?thesis
    using committer_counts_only_durable_rows [OF b, of
        "[\<lparr>res_chunkIdx = 0, res_taskIdx = 1, res_record = sample_record ''open'' 80\<rparr>]" "[sample_chunk 4]" _ 1, OF _ refl] b
    by auto
qed

definition healthy_batch_out :: "CSVWriter batchOutputs \<Rightarrow> bool" where
  "healthy_batch_out b \<longleftrightarrow> healthy (scanWriter b) \<and> openOnlyWriter b \<noteq> None \<and> healthy (the (openOnlyWriter b))"

lemma healthy_batch_steps:
  assumes "healthy_batch_out b"
  shows "\<exists>b'. batch_write writer_Write b r = (True, b') \<and> healthy_batch_out b'"
    and "\<exists>b'. batch_flush writer_Flush b = (True, b') \<and> healthy_batch_out b'"
proof -
  obtain inner where h: "healthy (scanWriter b)" "openOnlyWriter b = Some inner" "healthy inner"
    using assms by (auto simp: healthy_batch_out_def)
  show "\<exists>b'. batch_write writer_Write b r = (True, b') \<and> healthy_batch_out b'"
    using healthy_batch [OF h, of "[r]"] by (auto simp: healthy_batch_out_def split: prod.splits if_splits)
  show "\<exists>b'. batch_flush writer_Flush b = (True, b') \<and> healthy_batch_out b'"
    using healthy_ops(2) [OF h(1)] healthy_ops(2) [OF h(3)] h(2)
    by (auto simp: batch_flush_def open_Flush_def healthy_batch_out_def)
qed

lemma healthy_commit:
  assumes "healthy_batch_out (outputs c)" and "\<not> failed c"
  shows "healthy_batch_out (outputs (snd (committer_commit (batch_flush writer_Flush) c)))
    \<and> \<not> failed (snd (committer_commit (batch_flush writer_Flush) c))"
  using healthy_batch_steps(2) [OF assms(1)] assms(2) by (auto simp: committer_commit_def Let_def)

lemma healthy_accept:
  assumes "healthy_batch_out (outputs c)" and "\<not> failed c"
  shows "healthy_batch_out (outputs (snd (committer_Accept (batch_write writer_Write) (batch_flush writer_Flush) interval c r)))
    \<and> \<not> failed (snd (committer_Accept (batch_write writer_Write) (batch_flush writer_Flush) interval c r))"
proof -
  have add: "outputs (addPending c r) = outputs c" "failed (addPending c r) = failed c"
    by (simp_all add: addPending_def Let_def)
  obtain b' where b': "batch_write writer_Write (outputs c) (res_record r) = (True, b')" "healthy_batch_out b'"
    using healthy_batch_steps(1) [OF assms(1)] by blast
  show ?thesis
    using healthy_commit [of "(addPending c r)\<lparr>lastChunkIndex := res_chunkIdx r, outputs := b'\<rparr>"] b' assms add
    by (simp add: committer_Accept_def Let_def)
qed

lemma healthy_run:
  assumes "healthy_batch_out (outputs c)" and "\<not> failed c"
  shows "\<not> failed (snd (committer_Finish (batch_flush writer_Flush)
    (accept_results (batch_write writer_Write) (batch_flush writer_Flush) interval c rs)))"
  using assms
proof (induction rs arbitrary: c)
  case Nil
  then show ?case
    using healthy_commit [of c] by (simp add: committer_Finish_def)
next
  case (Cons r rs)
  then show ?case
    using healthy_accept [of c] by simp
qed

text \<open>Property C26. On a disk without failures every result of a scan is committed, whatever the
  batch size: the files end with the header and exactly the rows, the summary counts every row
  once, and its count of open ports is the number of rows of the open-only file.\<close>

theorem healthy_disk_commits_everything:
  assumes "\<forall>r \<in> set rs. res_chunkIdx r < length chunks \<and> 0 \<le> res_taskIdx r"
  shows "\<exists>b c. openBatchOutputsWithMode (fine_env None) (fine_env None) False True = Inr b \<and>
    c = committer_run (batch_write writer_Write) (batch_flush writer_Flush) interval b
          (map newChunkStateTracker chunks) rs \<and>
    \<not> failed c \<and> written (summary c) = length rs \<and>
    openCount (summary c) = length (filter is_open (map res_record rs)) \<and>
    cw_out (scanWriter (outputs c)) = header_line @ rows_bytes (map res_record rs) \<and>
    cw_out (the (openOnlyWriter (outputs c))) = header_line @ rows_bytes (filter is_open (map res_record rs))"
proof -
  let ?ts = "map newChunkStateTracker chunks" and ?S = "file_start False (fine_env None)"
  have T: "\<forall>t \<in> set ?ts. tracks t {}" using tracks_new by simp
  have R: "\<forall>r \<in> set rs. res_chunkIdx r < length ?ts \<and> 0 \<le> res_taskIdx r" using assms by simp
  obtain w where w: "scanWriterForMode [] [] True True = Inr w" using healthy_open_exists by blast
  define b where "b = \<lparr>scanWriter = w, openOnlyWriter = Some w\<rparr>"
  have b: "openBatchOutputsWithMode (fine_env None) (fine_env None) False True = Inr b" and "healthy_batch_out b"
    using w healthy_open [OF w]
    by (simp_all add: openBatchOutputsWithMode_def fine_env_def openResultCSV_def b_def healthy_batch_out_def)
  define c where "c = committer_run (batch_write writer_Write) (batch_flush writer_Flush) interval b ?ts rs"
  have nf: "\<not> failed c"
    using healthy_run [of "newOutputCommitter b ?ts" interval rs] \<open>healthy_batch_out b\<close>
    by (simp add: c_def committer_run_def newOutputCommitter_def)
  obtain committed rest where run: "rs = committed @ rest" "rest = []"
    "batch_taken ?S ?S (outputs c) (map res_record rs)" "batch_kept ?S ?S (outputs c) (map res_record committed)"
    "summary c = summary_of (map result_status committed)"
    using batch.run_good [OF batch_opened(2) [OF b] batch_opened(1) [OF b] T R c_def] nf by blast
  have "?S = header_line" by (simp add: file_start_def existing_bytes_def)
  then have "cw_out (scanWriter (outputs c)) = header_line @ rows_bytes (map res_record rs)"
    "cw_out (the (openOnlyWriter (outputs c))) = header_line @ rows_bytes (filter is_open (map res_record rs))"
    using run(1-4) by (auto simp: batch_taken_def batch_kept_def writer_accepted_def prefix_def)
  moreover have "openCount (summary c) = length (filter is_open (map res_record rs))" "written (summary c) = length rs"
    using run(1,2,5) by (simp_all add: summary_of_def filter_map comp_def is_open_def StatusOpen_def)
  ultimately show ?thesis
    using b nf c_def by blast
qed

theorem healthy_disk_commits_everything_witness:
  "\<exists>b c. openBatchOutputsWithMode (fine_env None) (fine_env None) False True = Inr b \<and>
    c = committer_run (batch_write writer_Write) (batch_flush writer_Flush) 2 b
      (map newChunkStateTracker [sample_chunk 4])
      [\<lparr>res_chunkIdx = 0, res_taskIdx = 1, res_record = sample_record ''open'' 80\<rparr>] \<and>
    written (summary c) = 1 \<and> openCount (summary c) = 1"
  using healthy_disk_commits_everything [of
      "[\<lparr>res_chunkIdx = 0, res_taskIdx = 1, res_record = sample_record ''open'' 80\<rparr>]" "[sample_chunk 4]" 2]
  by (auto simp: is_open_def sample_record_def)

end
