(* ===== verification/RuntimeTargets.thy ===== *)
theory RuntimeTargets
  imports GroupBuild InputLoad
begin

text \<open>
  \<open>pkg/scanapp/scan_helpers.go\<close> and the chunk runtime of runtime\_types.go: how the position of
  a task in a chunk becomes a target and a port. The dispatcher stores only positions, so the
  main theorem says that the positions from 0 to the length of \<open>runtime_plan\<close> are exactly the
  targets of the chunk, each with each of its ports once, and nothing lies beyond.
\<close>

section \<open>The chunk runtime\<close>

text \<open>The tracker and the bucket of the runtime are state of other components.\<close>

record chunkRuntime =
  rt_ipCidr :: string
  rt_ports :: "int list"
  rt_targets :: "scanTarget list"
  rt_basicTargets :: "basicScanTarget list"

definition runtime_targetCount :: "chunkRuntime \<Rightarrow> nat" where
  "runtime_targetCount rt = length (rt_targets rt) + length (rt_basicTargets rt)"

datatype target_error =
    RtEmptyTargets | RtEmptyPorts | RtNegativeIndex | RtOutOfRange | RtNil | RtMixedStorage

definition indexToRuntimeTarget ::
  "scanTarget list \<Rightarrow> int list \<Rightarrow> int \<Rightarrow> target_error + scanTarget \<times> int" where
  "indexToRuntimeTarget targets ports idx =
     (if targets = [] then Inl RtEmptyTargets
      else if ports = [] then Inl RtEmptyPorts
      else if idx < 0 then Inl RtNegativeIndex
      else if length ports = 1 \<and> list_all (\<lambda>t. 0 < t_port t) targets then
        (if int (length targets) \<le> idx then Inl RtOutOfRange
         else let t = targets ! nat idx in Inr (t, t_port t))
      else
        (let targetIdx = nat idx div length ports; portIdx = nat idx mod length ports in
         if length targets \<le> targetIdx then Inl RtOutOfRange
         else Inr (targets ! targetIdx, ports ! portIdx)))"

text \<open>The target of a compact basic entry\<close>

definition expand_basic :: "string \<Rightarrow> basicScanTarget \<Rightarrow> scanTarget" where
  "expand_basic ipCidr b =
     \<lparr>t_ip = bt_ip b, t_ipCidr = ipCidr, t_ipU32 = bt_ipU32 b, t_port = 0,
      t_meta = (case bt_meta b of None \<Rightarrow> empty_meta | Some m \<Rightarrow> m)\<rparr>"

definition indexToChunkRuntimeTarget ::
  "chunkRuntime option \<Rightarrow> int \<Rightarrow> target_error + scanTarget \<times> int" where
  "indexToChunkRuntimeTarget runtime idx =
     (case runtime of None \<Rightarrow> Inl RtNil
      | Some rt \<Rightarrow>
          if rt_targets rt \<noteq> [] \<and> rt_basicTargets rt \<noteq> [] then Inl RtMixedStorage
          else if rt_basicTargets rt = [] then
            (if rt_targets rt \<noteq> [] \<and> length (rt_ports rt) = 1 \<and> 0 < t_port (hd (rt_targets rt)) then
               (if idx < 0 then Inl RtNegativeIndex
                else if int (length (rt_targets rt)) \<le> idx then Inl RtOutOfRange
                else let t = rt_targets rt ! nat idx in Inr (t, t_port t))
             else indexToRuntimeTarget (rt_targets rt) (rt_ports rt) idx)
          else if rt_ports rt = [] then Inl RtEmptyPorts
          else if idx < 0 then Inl RtNegativeIndex
          else
            (let targetIndex = nat idx div length (rt_ports rt); portIndex = nat idx mod length (rt_ports rt) in
             if length (rt_basicTargets rt) \<le> targetIndex then Inl RtOutOfRange
             else Inr (expand_basic (rt_ipCidr rt) (rt_basicTargets rt ! targetIndex), rt_ports rt ! portIndex)))"

definition port_row_step :: "ctx \<times> int list \<Rightarrow> string \<Rightarrow> group_error + ctx \<times> int list" where
  "port_row_step st row =
     (case ctx_poll 1 (fst st) of None \<Rightarrow> Inl GroupCanceled
      | Some c' \<Rightarrow>
          (case split_on CHR ''/'' (trim_space row) of
             [num, proto] \<Rightarrow>
               if to_lower proto \<noteq> ''tcp'' then Inl (BadPortRows row)
               else (case atoi num of None \<Rightarrow> Inl (BadPortRows row)
                 | Some n \<Rightarrow> if n < 1 \<or> 65535 < n then Inl (BadPortRows row) else Inr (c', snd st @ [n]))
           | _ \<Rightarrow> Inl (BadPortRows row)))"

definition parsePortRowsContext :: "ctx \<Rightarrow> string list \<Rightarrow> group_error + ctx \<times> int list" where
  "parsePortRowsContext c rows = try_fold port_row_step (c, []) rows"

definition defaultString :: "string \<Rightarrow> string \<Rightarrow> string" where
  "defaultString primary fallback = (if trim_space primary \<noteq> [] then primary else fallback)"

section \<open>Positions and targets\<close>

text \<open>The intended reading of a chunk: its (target, port) pairs in scan order\<close>

definition runtime_plan :: "chunkRuntime \<Rightarrow> (scanTarget \<times> int) list" where
  "runtime_plan rt =
     (if rt_basicTargets rt \<noteq> [] then
        concat (map (\<lambda>b. map (\<lambda>p. (expand_basic (rt_ipCidr rt) b, p)) (rt_ports rt)) (rt_basicTargets rt))
      else if length (rt_ports rt) = 1 \<and> rt_targets rt \<noteq> [] \<and> 0 < t_port (hd (rt_targets rt)) then
        map (\<lambda>t. (t, t_port t)) (rt_targets rt)
      else concat (map (\<lambda>t. map (\<lambda>p. (t, p)) (rt_ports rt)) (rt_targets rt)))"

text \<open>Target groups are homogeneous: policy targets carry a port each, the others none.\<close>

definition runtime_ok :: "chunkRuntime \<Rightarrow> bool" where
  "runtime_ok rt \<longleftrightarrow>
     (rt_targets rt = [] \<or> rt_basicTargets rt = []) \<and> rt_ports rt \<noteq> [] \<and>
     (list_all (\<lambda>t. 0 < t_port t) (rt_targets rt) \<or> list_all (\<lambda>t. t_port t \<le> 0) (rt_targets rt))"

lemma length_product_plan: "length (concat (map (\<lambda>t. map (g t) ps) ts)) = length ts * length ps"
  by (induction ts) simp_all

lemma nth_product_plan:
  assumes "i < length ts * length ps"
  shows "concat (map (\<lambda>t. map (g t) ps) ts) ! i = g (ts ! (i div length ps)) (ps ! (i mod length ps))"
  using assms
proof (induction ts arbitrary: i)
  case (Cons t ts)
  have ps: "0 < length ps" using Cons.prems by (cases ps) auto
  show ?case
  proof (cases "i < length ps")
    case True
    then show ?thesis by (simp add: nth_append)
  next
    case False
    then have "i div length ps = Suc ((i - length ps) div length ps)" and "i mod length ps = (i - length ps) mod length ps"
      using ps by (simp_all add: le_div_geq le_mod_geq)
    then show ?thesis
      using False Cons.IH [of "i - length ps"] Cons.prems by (simp add: nth_append)
  qed
qed simp

lemma length_runtime_plan:
  assumes "runtime_ok rt"
  shows "length (runtime_plan rt) = runtime_targetCount rt * length (rt_ports rt)"
  using assms by (auto simp: runtime_plan_def runtime_targetCount_def length_product_plan runtime_ok_def)

lemma runtime_shapes:
  assumes "runtime_ok rt"
  obtains
    (basic) "rt_basicTargets rt \<noteq> []" "rt_targets rt = []" "rt_ports rt \<noteq> []"
      "runtime_plan rt = concat (map (\<lambda>b. map (\<lambda>p. (expand_basic (rt_ipCidr rt) b, p)) (rt_ports rt)) (rt_basicTargets rt))"
  | (own) "rt_basicTargets rt = []" "rt_targets rt \<noteq> []" "length (rt_ports rt) = 1" "0 < t_port (hd (rt_targets rt))"
      "runtime_plan rt = map (\<lambda>t. (t, t_port t)) (rt_targets rt)"
  | (none) "rt_basicTargets rt = []" "rt_targets rt = []" "rt_ports rt \<noteq> []" "runtime_plan rt = []"
  | (grid) "rt_basicTargets rt = []" "rt_targets rt \<noteq> []" "rt_ports rt \<noteq> []"
      "\<not> (length (rt_ports rt) = 1 \<and> 0 < t_port (hd (rt_targets rt)))"
      "\<not> (length (rt_ports rt) = 1 \<and> list_all (\<lambda>t. 0 < t_port t) (rt_targets rt))"
      "runtime_plan rt = concat (map (\<lambda>t. map (\<lambda>p. (t, p)) (rt_ports rt)) (rt_targets rt))"
proof -
  have ports: "rt_ports rt \<noteq> []" and store: "rt_targets rt = [] \<or> rt_basicTargets rt = []"
    using assms by (simp_all add: runtime_ok_def)
  show thesis
  proof (cases "rt_basicTargets rt = []")
    case False
    then show ?thesis using basic ports store by (simp add: runtime_plan_def)
  next
    case no_basic: True
    show ?thesis
    proof (cases "rt_targets rt = []")
      case True
      then show ?thesis using none no_basic ports by (simp add: runtime_plan_def)
    next
      case False
      then obtain t ts where ts: "rt_targets rt = t # ts" by (cases "rt_targets rt") auto
      show ?thesis
      proof (cases "length (rt_ports rt) = 1 \<and> 0 < t_port t")
        case True
        then show ?thesis using own no_basic ts by (simp add: runtime_plan_def)
      next
        case False
        then have "runtime_plan rt = concat (map (\<lambda>t. map (\<lambda>p. (t, p)) (rt_ports rt)) (rt_targets rt))"
          using no_basic ts unfolding runtime_plan_def by (subst if_not_P, simp, subst if_not_P) auto
        then show ?thesis using grid no_basic ts ports False by auto
      qed
    qed
  qed
qed

lemma indexToChunkRuntimeTarget_plan:
  assumes "runtime_ok rt" and "0 \<le> idx" and "idx < int (length (runtime_plan rt))"
  shows "indexToChunkRuntimeTarget (Some rt) idx = Inr (runtime_plan rt ! nat idx)"
  using assms(1)
proof (cases rule: runtime_shapes)
  case basic
  have "nat idx < length (runtime_plan rt)" using assms(2,3) by linarith
  then have i: "nat idx < length (rt_basicTargets rt) * length (rt_ports rt)"
    unfolding basic(4) length_product_plan .
  then have "runtime_plan rt ! nat idx = (expand_basic (rt_ipCidr rt) (rt_basicTargets rt ! (nat idx div length (rt_ports rt))),
      rt_ports rt ! (nat idx mod length (rt_ports rt)))"
    unfolding basic(4) by (simp add: nth_product_plan)
  moreover have "nat idx div length (rt_ports rt) < length (rt_basicTargets rt)"
    using i by (simp add: less_mult_imp_div_less)
  ultimately show ?thesis
    using basic(1-3) assms(2) by (simp add: indexToChunkRuntimeTarget_def Let_def)
next
  case own
  then show ?thesis
    using assms(2,3) by (simp add: indexToChunkRuntimeTarget_def Let_def)
next
  case grid
  have "nat idx < length (runtime_plan rt)" using assms(2,3) by linarith
  then have i: "nat idx < length (rt_targets rt) * length (rt_ports rt)"
    unfolding grid(6) length_product_plan .
  then have "runtime_plan rt ! nat idx = (rt_targets rt ! (nat idx div length (rt_ports rt)),
      rt_ports rt ! (nat idx mod length (rt_ports rt)))"
    unfolding grid(6) by (simp add: nth_product_plan)
  moreover have "nat idx div length (rt_ports rt) < length (rt_targets rt)"
    using i by (simp add: less_mult_imp_div_less)
  ultimately show ?thesis
    using grid(1-5) assms(2) by (auto simp: indexToChunkRuntimeTarget_def indexToRuntimeTarget_def Let_def)
qed (use assms(2,3) in simp)

lemma indexToChunkRuntimeTarget_outside:
  assumes "runtime_ok rt" and "idx < 0 \<or> int (length (runtime_plan rt)) \<le> idx"
  shows "\<exists>e. indexToChunkRuntimeTarget (Some rt) idx = Inl e"
  using assms(1)
proof (cases rule: runtime_shapes)
  case basic
  have "idx < 0 \<or> length (runtime_plan rt) \<le> nat idx" using assms(2) by linarith
  then have "idx < 0 \<or> length (rt_basicTargets rt) * length (rt_ports rt) \<le> nat idx"
    unfolding basic(4) length_product_plan .
  then have "idx < 0 \<or> length (rt_basicTargets rt) \<le> nat idx div length (rt_ports rt)"
    using basic(3) by (auto simp: less_eq_div_iff_mult_less_eq)
  then show ?thesis
    using basic(1-3) by (auto simp: indexToChunkRuntimeTarget_def Let_def)
next
  case own
  then show ?thesis
    using assms(2) by (auto simp: indexToChunkRuntimeTarget_def)
next
  case none
  then show ?thesis by (simp add: indexToChunkRuntimeTarget_def indexToRuntimeTarget_def)
next
  case grid
  have "idx < 0 \<or> length (runtime_plan rt) \<le> nat idx" using assms(2) by linarith
  then have "idx < 0 \<or> length (rt_targets rt) * length (rt_ports rt) \<le> nat idx"
    unfolding grid(6) length_product_plan .
  then have "idx < 0 \<or> length (rt_targets rt) \<le> nat idx div length (rt_ports rt)"
    using grid(3) by (auto simp: less_eq_div_iff_mult_less_eq)
  then show ?thesis
    using grid(1-5) by (auto simp: indexToChunkRuntimeTarget_def indexToRuntimeTarget_def Let_def)
qed

text \<open>Property C32. For a chunk whose targets are homogeneous the positions are exact: the
  dispatcher finds at every position below targets times ports the pair that the plan of the
  chunk has there, the plan has that many pairs, and every other position is an error.\<close>

theorem chunk_positions_exact:
  assumes "runtime_ok rt"
  shows "length (runtime_plan rt) = runtime_targetCount rt * length (rt_ports rt) \<and>
    map (\<lambda>i. indexToChunkRuntimeTarget (Some rt) (int i)) [0..<runtime_targetCount rt * length (rt_ports rt)] =
      map Inr (runtime_plan rt) \<and>
    (\<forall>idx. idx < 0 \<or> int (runtime_targetCount rt * length (rt_ports rt)) \<le> idx \<longrightarrow>
      (\<exists>e. indexToChunkRuntimeTarget (Some rt) idx = Inl e))"
proof (intro conjI)
  show len: "length (runtime_plan rt) = runtime_targetCount rt * length (rt_ports rt)"
    using length_runtime_plan [OF assms] .
  show "map (\<lambda>i. indexToChunkRuntimeTarget (Some rt) (int i)) [0..<runtime_targetCount rt * length (rt_ports rt)] =
      map Inr (runtime_plan rt)"
    using indexToChunkRuntimeTarget_plan [OF assms]
    by (intro nth_equalityI) (simp_all flip: len)
  show "\<forall>idx. idx < 0 \<or> int (runtime_targetCount rt * length (rt_ports rt)) \<le> idx \<longrightarrow>
      (\<exists>e. indexToChunkRuntimeTarget (Some rt) idx = Inl e)"
    using indexToChunkRuntimeTarget_outside [OF assms] len by metis
qed

definition sample_runtime :: chunkRuntime where
  "sample_runtime = \<lparr>rt_ipCidr = ''10.0.0.0/31'', rt_ports = [80, 443], rt_targets = [],
     rt_basicTargets = [\<lparr>bt_ip = ''10.0.0.0'', bt_ipU32 = 0, bt_meta = None\<rparr>,
                        \<lparr>bt_ip = ''10.0.0.1'', bt_ipU32 = 1, bt_meta = None\<rparr>]\<rparr>"

theorem chunk_positions_exact_witness:
  "\<exists>e. indexToChunkRuntimeTarget (Some sample_runtime) 4 = Inl e"
proof -
  have "runtime_ok sample_runtime" by (simp add: runtime_ok_def sample_runtime_def)
  then show ?thesis
    using chunk_positions_exact [of sample_runtime] by (simp add: runtime_targetCount_def sample_runtime_def)
qed

section \<open>Port rows of a chunk\<close>

lemma parsePortRows_print:
  assumes "\<forall>n \<in> set ns. 1 \<le> n \<and> n \<le> 65535"
  shows "try_fold port_row_step (None, acc) (map port_line ns) = Inr (None, acc @ ns)"
  using assms
proof (induction ns arbitrary: acc)
  case (Cons n ns)
  have n: "1 \<le> n" "n \<le> 65535" using Cons.prems by simp_all
  have d: "itoa n = nat_digits (nat n)" using n by (simp add: itoa_def)
  have parts: "split_on CHR ''/'' (port_line n) = [nat_digits (nat n), ''tcp'']"
    by (simp add: port_line_def d split_on_append nat_digits_no_sep)
  have low: "to_lower ''tcp'' = ''tcp''" by code_simp
  have num: "atoi (nat_digits (nat n)) = Some n"
    using n by (simp add: atoi_nat_digits)
  show ?case
    using Cons.IH [of "acc @ [n]"] Cons.prems parts low num n parse_port_line_print(2) [OF n]
    by (simp add: port_row_step_def)
qed simp

lemma parsePortRowsContext_print:
  "\<forall>n \<in> set ns. 1 \<le> n \<and> n \<le> 65535 \<Longrightarrow> parsePortRowsContext None (map port_line ns) = Inr (None, ns)"
  unfolding parsePortRowsContext_def using parsePortRows_print [of ns "[]"] by simp

end
