(* ===== verification/ScanPipeline.thy ===== *)
theory ScanPipeline
  imports OutputCommit RuntimeTargets
begin

text \<open>
  The running scan (\<open>pkg/scanapp\<close>): task\_dispatcher.go, executor.go, scan\_result\_loop.go,
  queue\_size.go and the rewind of resume\_manager.go, as scan\_runtime.go wires them. The
  dispatcher, every worker and the result loop are goroutines that share three channels and the
  trackers; a step of \<open>pipe_step\<close> is one visible action of one of them, in any order. A panic
  is a step of its own, wherever the code recovers from one.

  Waits for the rate bucket, the pause gate and the dispatch delay only make the dispatcher
  slower and have no rule (\<open>SpeedControl\<close> models the first two); stopping on cancellation has one. Log lines
  and telemetry counters are not modelled.
\<close>

section \<open>queue\_size.go\<close>

definition queueSlotsPerWorker :: int where
  "queueSlotsPerWorker = 2"

definition MaxWorkers :: int where
  "MaxWorkers = 1024"

definition effectiveWorkerCount :: "int \<Rightarrow> int" where
  "effectiveWorkerCount workers =
     (if workers < 1 then 1 else if workers > MaxWorkers then MaxWorkers else workers)"

definition queueCapacityFor :: "int \<Rightarrow> int" where
  "queueCapacityFor workers = effectiveWorkerCount workers * queueSlotsPerWorker"

lemma queueCapacityFor_bounds: "2 \<le> queueCapacityFor workers \<and> queueCapacityFor workers \<le> 2048"
  by (simp add: queueCapacityFor_def effectiveWorkerCount_def queueSlotsPerWorker_def MaxWorkers_def)

section \<open>The state\<close>

datatype dispatcher =
    AtChunk nat              \<comment> \<open>at the head of the loop over the runtimes\<close>
  | AtTask nat int           \<comment> \<open>at the head of the loop over the tasks of a chunk\<close>
  | Sent nat int             \<comment> \<open>the task is in the channel, the cursor not yet advanced\<close>
  | DispatchDone | DispatchStopped | DispatchPanicked

datatype worker =
    Idle
  | Holding scanTask         \<comment> \<open>received, before \<open>startProbe\<close>\<close>
  | Probing scanTask
  | Probed scanTask ScanResult  \<comment> \<open>\<open>active = false\<close>, before the send on the result channel\<close>
  | Draining
  | Exited

record 'o pipeline =
  pl_dispatcher :: dispatcher
  pl_taskCh :: "scanTask list"
  pl_workers :: "worker list"
  pl_resultCh :: "scanResult list"
  pl_abandonedCh :: "scanTask list"
  pl_committer :: "'o outputCommitter"
  pl_canceled :: bool        \<comment> \<open>\<open>runCtx\<close> is done\<close>
  pl_stopping :: bool        \<comment> \<open>a fatal error stopped the executor\<close>
  pl_fatal :: bool           \<comment> \<open>an error waits in \<open>executorErrCh\<close>\<close>
  pl_lost :: "scanTask list" \<comment> \<open>tasks whose worker died between the probe and the send\<close>

record scan_env =
  env_runtimes :: "chunkRuntime list"
  env_capacity :: nat
  env_flushInterval :: int
  env_errno :: errno_table
  env_goos :: string
  env_text :: "goerr \<Rightarrow> string"

definition executor_stopped :: "'o pipeline \<Rightarrow> bool" where
  "executor_stopped s \<longleftrightarrow> pl_stopping s \<or> pl_canceled s"

definition dispatch_ended :: "dispatcher \<Rightarrow> bool" where
  "dispatch_ended d \<longleftrightarrow> d \<in> {DispatchDone, DispatchStopped, DispatchPanicked}"

text \<open>The task channel is closed as soon as \<open>dispatchTasks\<close> has returned.\<close>

definition task_at :: "scan_env \<Rightarrow> string \<Rightarrow> nat \<Rightarrow> int \<Rightarrow> target_error + scanTask" where
  "task_at env cidr k i =
     try_bind (indexToChunkRuntimeTarget (Some (env_runtimes env ! k)) i) (\<lambda>(target, port).
       Inr \<lparr>chunkIdx = k, taskIdx = i, task_ipCidr = defaultString (t_ipCidr target) cidr,
            task_ip = t_ip target, task_port = port, task_meta = t_meta target\<rparr>)"

definition possible_result :: "scan_env \<Rightarrow> scanTask \<Rightarrow> ScanResult \<Rightarrow> bool" where
  "possible_result env t res \<longleftrightarrow>
     (\<exists>dial. res = ScanTCP (env_errno env) (env_goos env) (env_text env) dial (task_ip t) (task_port t))"

definition result_for :: "scanTask \<Rightarrow> ScanResult \<Rightarrow> scanResult" where
  "result_for t res =
     \<lparr>res_chunkIdx = chunkIdx t, res_taskIdx = taskIdx t, res_record = recordFromScanTask t res\<rparr>"

definition with_trackers :: "(chunkStateTracker list \<Rightarrow> chunkStateTracker list) \<Rightarrow> 'o pipeline \<Rightarrow> 'o pipeline" where
  "with_trackers f s = s\<lparr>pl_committer := (pl_committer s)\<lparr>trackers := f (trackers (pl_committer s))\<rparr>\<rparr>"

definition with_worker :: "nat \<Rightarrow> worker \<Rightarrow> 'o pipeline \<Rightarrow> 'o pipeline" where
  "with_worker w x s = s\<lparr>pl_workers := (pl_workers s)[w := x]\<rparr>"

definition chunk_of :: "'o pipeline \<Rightarrow> nat \<Rightarrow> Chunk" where
  "chunk_of s k = tr_chunk (trackers (pl_committer s) ! k)"

definition advance_at :: "nat \<Rightarrow> int \<Rightarrow> 'o pipeline \<Rightarrow> 'o pipeline" where
  "advance_at k i = with_trackers (\<lambda>ts. ts[k := AdvanceNextIndex (ts ! k) i])"

definition mark_at :: "nat \<Rightarrow> int \<Rightarrow> 'o pipeline \<Rightarrow> 'o pipeline" where
  "mark_at k i = with_trackers (\<lambda>ts. ts[k := MarkUnwritten (ts ! k) i])"

section \<open>The steps\<close>

text \<open>The dispatcher (\<open>dispatchTasks\<close>). \<open>Work\<close> is what the program does by itself, \<open>Fault\<close> a cancellation from outside or a panic.\<close>

datatype step_kind = Work | Fault

inductive dispatch_step :: "scan_env \<Rightarrow> step_kind \<Rightarrow> 'o pipeline \<Rightarrow> 'o pipeline \<Rightarrow> bool" for env
where
  chunk_idle: "pl_dispatcher s = AtChunk k \<Longrightarrow> k < length (env_runtimes env) \<Longrightarrow>
    NextIndex (chunk_of s k) \<ge> TotalCount (chunk_of s k) \<Longrightarrow>
    dispatch_step env Work s
      ((advance_at k (NextIndex (chunk_of s k)) s)\<lparr>pl_dispatcher := AtChunk (k + 1)\<rparr>)"
| chunk_start: "pl_dispatcher s = AtChunk k \<Longrightarrow> k < length (env_runtimes env) \<Longrightarrow>
    NextIndex (chunk_of s k) < TotalCount (chunk_of s k) \<Longrightarrow>
    dispatch_step env Work s
      ((advance_at k (NextIndex (chunk_of s k)) s)\<lparr>pl_dispatcher := AtTask k (NextIndex (chunk_of s k))\<rparr>)"
| dispatch_done: "pl_dispatcher s = AtChunk k \<Longrightarrow> length (env_runtimes env) \<le> k \<Longrightarrow>
    dispatch_step env Work s (s\<lparr>pl_dispatcher := DispatchDone\<rparr>)"
| chunk_end: "pl_dispatcher s = AtTask k i \<Longrightarrow> TotalCount (chunk_of s k) \<le> i \<Longrightarrow>
    dispatch_step env Work s (s\<lparr>pl_dispatcher := AtChunk (k + 1)\<rparr>)"
| dispatch_canceled: "pl_dispatcher s = AtTask k i \<Longrightarrow> pl_canceled s \<Longrightarrow>
    dispatch_step env Work s (s\<lparr>pl_dispatcher := DispatchStopped\<rparr>)"
| dispatch_error: "pl_dispatcher s = AtTask k i \<Longrightarrow> i < TotalCount (chunk_of s k) \<Longrightarrow>
    task_at env (chunkCIDR (chunk_of s k)) k i = Inl e \<Longrightarrow>
    dispatch_step env Work s (s\<lparr>pl_dispatcher := DispatchStopped\<rparr>)"
| dispatch_send: "pl_dispatcher s = AtTask k i \<Longrightarrow> i < TotalCount (chunk_of s k) \<Longrightarrow>
    task_at env (chunkCIDR (chunk_of s k)) k i = Inr t \<Longrightarrow> length (pl_taskCh s) < env_capacity env \<Longrightarrow>
    dispatch_step env Work s (s\<lparr>pl_taskCh := pl_taskCh s @ [t], pl_dispatcher := Sent k i\<rparr>)"
| dispatch_advance: "pl_dispatcher s = Sent k i \<Longrightarrow>
    dispatch_step env Work s ((advance_at k (i + 1) s)\<lparr>pl_dispatcher := AtTask k (i + 1)\<rparr>)"
| dispatch_panic: "\<not> dispatch_ended (pl_dispatcher s) \<Longrightarrow>
    dispatch_step env Fault s (s\<lparr>pl_dispatcher := DispatchPanicked\<rparr>)"

text \<open>The workers of \<open>startCancellableScanExecutor\<close>\<close>

inductive worker_step :: "scan_env \<Rightarrow> step_kind \<Rightarrow> 'o pipeline \<Rightarrow> 'o pipeline \<Rightarrow> bool" for env
where
  receive: "w < length (pl_workers s) \<Longrightarrow> pl_workers s ! w = Idle \<Longrightarrow> pl_taskCh s = t # ts \<Longrightarrow>
    worker_step env Work s ((with_worker w (Holding t) s)\<lparr>pl_taskCh := ts\<rparr>)"
| probe: "w < length (pl_workers s) \<Longrightarrow> pl_workers s ! w = Holding t \<Longrightarrow> \<not> executor_stopped s \<Longrightarrow>
    worker_step env Work s (with_worker w (Probing t) s)"
| refuse: "w < length (pl_workers s) \<Longrightarrow> pl_workers s ! w = Holding t \<Longrightarrow> executor_stopped s \<Longrightarrow>
    length (pl_abandonedCh s) < env_capacity env \<Longrightarrow>
    worker_step env Work s ((with_worker w Idle s)\<lparr>pl_abandonedCh := pl_abandonedCh s @ [t]\<rparr>)"
| probe_end: "w < length (pl_workers s) \<Longrightarrow> pl_workers s ! w = Probing t \<Longrightarrow> possible_result env t res \<Longrightarrow>
    worker_step env Work s (with_worker w (Probed t res) s)"
| probe_panic: "w < length (pl_workers s) \<Longrightarrow> pl_workers s ! w = Probing t \<Longrightarrow>
    length (pl_abandonedCh s) < env_capacity env \<Longrightarrow>
    worker_step env Fault s
      ((with_worker w Draining s)\<lparr>pl_abandonedCh := pl_abandonedCh s @ [t], pl_stopping := True, pl_fatal := True\<rparr>)"
| deliver: "w < length (pl_workers s) \<Longrightarrow> pl_workers s ! w = Probed t res \<Longrightarrow>
    length (pl_resultCh s) < env_capacity env \<Longrightarrow>
    worker_step env Work s ((with_worker w Idle s)\<lparr>pl_resultCh := pl_resultCh s @ [result_for t res]\<rparr>)"
| late_panic: "w < length (pl_workers s) \<Longrightarrow> pl_workers s ! w = Probed t res \<Longrightarrow>
    worker_step env Fault s
      ((with_worker w Draining s)\<lparr>pl_lost := pl_lost s @ [t], pl_stopping := True, pl_fatal := True\<rparr>)"
| worker_stop: "w < length (pl_workers s) \<Longrightarrow> pl_workers s ! w = Idle \<Longrightarrow> executor_stopped s \<Longrightarrow>
    worker_step env Work s (with_worker w Draining s)"
| drain: "w < length (pl_workers s) \<Longrightarrow> pl_workers s ! w = Draining \<Longrightarrow> pl_taskCh s = t # ts \<Longrightarrow>
    length (pl_abandonedCh s) < env_capacity env \<Longrightarrow>
    worker_step env Work s (s\<lparr>pl_taskCh := ts, pl_abandonedCh := pl_abandonedCh s @ [t]\<rparr>)"
| worker_exit: "w < length (pl_workers s) \<Longrightarrow> pl_workers s ! w \<in> {Idle, Draining} \<Longrightarrow> pl_taskCh s = [] \<Longrightarrow>
    dispatch_ended (pl_dispatcher s) \<Longrightarrow>
    worker_step env Work s (with_worker w Exited s)"

text \<open>The rounds of \<open>runResultLoop\<close>\<close>

inductive loop_step ::
  "('o \<Rightarrow> Record \<Rightarrow> bool \<times> 'o) \<Rightarrow> ('o \<Rightarrow> bool \<times> 'o) \<Rightarrow> scan_env \<Rightarrow> 'o pipeline \<Rightarrow> 'o pipeline \<Rightarrow> bool"
  for write_op flush_op env
where
  accept: "pl_resultCh s = r # rs \<Longrightarrow>
    committer_Accept write_op flush_op (env_flushInterval env) (pl_committer s) r = (e, c) \<Longrightarrow>
    loop_step write_op flush_op env s
      (s\<lparr>pl_resultCh := rs, pl_committer := c, pl_canceled := (pl_canceled s \<or> e \<noteq> None)\<rparr>)"
| collect: "pl_abandonedCh s = t # ts \<Longrightarrow>
    loop_step write_op flush_op env s ((mark_at (chunkIdx t) (taskIdx t) s)\<lparr>pl_abandonedCh := ts\<rparr>)"
| executor_error: "pl_fatal s \<Longrightarrow>
    loop_step write_op flush_op env s (s\<lparr>pl_fatal := False, pl_canceled := True\<rparr>)"

text \<open>The program: any goroutine may move, and \<open>runCtx\<close> may be canceled from outside.\<close>

inductive pipe_step ::
  "('o \<Rightarrow> Record \<Rightarrow> bool \<times> 'o) \<Rightarrow> ('o \<Rightarrow> bool \<times> 'o) \<Rightarrow> scan_env \<Rightarrow> step_kind \<Rightarrow> 'o pipeline \<Rightarrow> 'o pipeline \<Rightarrow> bool"
  for write_op flush_op env
where
  by_dispatcher: "dispatch_step env kind s t \<Longrightarrow> pipe_step write_op flush_op env kind s t"
| by_worker: "worker_step env kind s t \<Longrightarrow> pipe_step write_op flush_op env kind s t"
| by_loop: "loop_step write_op flush_op env s t \<Longrightarrow> pipe_step write_op flush_op env Work s t"
| cancel: "\<not> pl_canceled s \<Longrightarrow>
    pipe_step write_op flush_op env Fault s (s\<lparr>pl_canceled := True\<rparr>)"

definition start_pipeline :: "'o \<Rightarrow> Chunk list \<Rightarrow> nat \<Rightarrow> 'o pipeline" where
  "start_pipeline outs chunks workers =
     \<lparr>pl_dispatcher = AtChunk 0, pl_taskCh = [], pl_workers = replicate workers Idle, pl_resultCh = [],
      pl_abandonedCh = [], pl_committer = newOutputCommitter outs (map newChunkStateTracker chunks),
      pl_canceled = False, pl_stopping = False, pl_fatal = False, pl_lost = []\<rparr>"

inductive reachable ::
  "('o \<Rightarrow> Record \<Rightarrow> bool \<times> 'o) \<Rightarrow> ('o \<Rightarrow> bool \<times> 'o) \<Rightarrow> scan_env \<Rightarrow> 'o pipeline \<Rightarrow> 'o pipeline \<Rightarrow> bool"
  for write_op flush_op env s0
where
  start: "reachable write_op flush_op env s0 s0"
| step: "reachable write_op flush_op env s0 s \<Longrightarrow> pipe_step write_op flush_op env kind s t \<Longrightarrow>
    reachable write_op flush_op env s0 t"

text \<open>The loop ends when dispatch is done and every channel is closed and drained.\<close>

definition loop_finished :: "'o pipeline \<Rightarrow> bool" where
  "loop_finished s \<longleftrightarrow> dispatch_ended (pl_dispatcher s) \<and> pl_taskCh s = [] \<and> set (pl_workers s) \<subseteq> {Exited} \<and>
     pl_resultCh s = [] \<and> pl_abandonedCh s = [] \<and> \<not> pl_fatal s"

text \<open>Then \<open>Finish\<close>, and the rewind of persistResumeSnapshot: the chunks that a snapshot records.\<close>

definition saved_chunks :: "('o \<Rightarrow> bool \<times> 'o) \<Rightarrow> 'o pipeline \<Rightarrow> Chunk list" where
  "saved_chunks flush_op s =
     map (\<lambda>t. tr_chunk (snd (RewindUnwritten t))) (trackers (snd (committer_Finish flush_op (pl_committer s))))"

inductive_cases dispatch_stepE: "dispatch_step env kind s t"
inductive_cases worker_stepE: "worker_step env kind s t"
inductive_cases loop_stepE: "loop_step write_op flush_op env s t"
inductive_cases pipe_stepE: "pipe_step write_op flush_op env kind s t"

section \<open>What the steps leave alone\<close>

definition cursor :: "chunkStateTracker \<Rightarrow> int \<times> int \<times> string" where
  "cursor t = (NextIndex (tr_chunk t), TotalCount (tr_chunk t), chunkCIDR (tr_chunk t))"

definition cursors :: "chunkStateTracker list \<Rightarrow> (int \<times> int \<times> string) list" where
  "cursors ts = map cursor ts"

lemma cursor_ops [simp]:
  "cursor (IncrementScannedBy t n) = cursor t" "cursor (MarkUnwritten t i) = cursor t"
  "cursor (AdvanceNextIndex t i) = (i, snd (cursor t))"
  by (simp_all add: cursor_def IncrementScannedBy_def AdvanceNextIndex_def)

lemma cursors_each_tracker: "(\<And>i t. cursor (f i t) = cursor t) \<Longrightarrow> cursors (each_tracker f ts) = cursors ts"
  unfolding cursors_def each_tracker_def by (intro nth_equalityI) auto

lemma cursors_update_same:
  assumes "cursor t = cursor (ts ! k)"
  shows "cursors (ts[k := t]) = cursors ts"
  unfolding cursors_def
proof (rule nth_equalityI)
  fix i assume "i < length (map cursor (ts[k := t]))"
  then show "map cursor (ts[k := t]) ! i = map cursor ts ! i"
    using assms by (cases "k = i") simp_all
qed simp

lemma cursors_fail: "cursors (trackers (snd (committer_fail c))) = cursors (trackers c)"
  by (simp add: committer_fail_def cursors_each_tracker split: option.split)

lemma cursors_commit: "cursors (trackers (snd (committer_commit flush_op c))) = cursors (trackers c)"
  using cursors_fail [of "c\<lparr>outputs := snd (flush_op (outputs c))\<rparr>"]
  by (auto simp: committer_commit_def Let_def cursors_each_tracker split: prod.split option.split)

lemma cursors_Accept: "cursors (trackers (snd (committer_Accept write_op flush_op n c r))) = cursors (trackers c)"
proof -
  have "trackers (addPending c r) = trackers c"
    by (simp add: addPending_def Let_def)
  then show ?thesis
    by (auto simp: committer_Accept_def Let_def cursors_fail cursors_commit cursors_update_same split: prod.split)
qed

lemma cursors_Finish: "cursors (trackers (snd (committer_Finish flush_op c))) = cursors (trackers c)"
  by (simp add: committer_Finish_def cursors_commit)

lemma cursors_mark: "cursors (ts[k := MarkUnwritten (ts ! k) i]) = cursors ts"
  by (simp add: cursors_update_same)

section \<open>Where the tasks are\<close>

definition task_id :: "scanTask \<Rightarrow> nat \<times> int" where
  "task_id t = (chunkIdx t, taskIdx t)"

definition result_id :: "scanResult \<Rightarrow> nat \<times> int" where
  "result_id r = (res_chunkIdx r, res_taskIdx r)"

primrec held_by :: "worker \<Rightarrow> scanTask list" where
  "held_by Idle = []"
| "held_by (Holding t) = [t]"
| "held_by (Probing t) = [t]"
| "held_by (Probed t res) = [t]"
| "held_by Draining = []"
| "held_by Exited = []"

definition held :: "worker list \<Rightarrow> scanTask multiset" where
  "held ws = (\<Sum>w \<in># mset ws. mset (held_by w))"

lemma held_update: "w < length ws \<Longrightarrow> held (ws[w := x]) + mset (held_by (ws ! w)) = held ws + mset (held_by x)"
proof -
  assume w: "w < length ws"
  then have "mset ws = add_mset (ws ! w) (mset ws - {#ws ! w#})" by simp
  then have "held ws = mset (held_by (ws ! w)) + (\<Sum>v \<in># mset ws - {#ws ! w#}. mset (held_by v))"
    unfolding held_def by (metis image_mset_add_mset sum_mset.insert)
  moreover have "held (ws[w := x]) = mset (held_by x) + (\<Sum>v \<in># mset ws - {#ws ! w#}. mset (held_by v))"
    unfolding held_def using w by (simp add: mset_update)
  ultimately show ?thesis by simp
qed

lemma held_nth: "w < length ws \<Longrightarrow> t \<in> set (held_by (ws ! w)) \<Longrightarrow> t \<in># held ws"
  using held_update [of w ws Idle] by (metis (no_types, lifting) add.right_neutral held_by.simps(1) in_multiset_in_set mset.simps(1) union_iff)

text \<open>Tasks on the way: sent by the dispatcher and not yet seen by the result loop\<close>

definition tasks_of :: "'o pipeline \<Rightarrow> scanTask multiset" where
  "tasks_of s = mset (pl_taskCh s) + held (pl_workers s) + mset (pl_abandonedCh s) + mset (pl_lost s)"

definition task_ok :: "scan_env \<Rightarrow> Chunk list \<Rightarrow> scanTask \<Rightarrow> bool" where
  "task_ok env chunks t \<longleftrightarrow> chunkIdx t < length chunks \<and> 0 \<le> taskIdx t \<and>
     task_at env (chunkCIDR (chunks ! chunkIdx t)) (chunkIdx t) (taskIdx t) = Inr t"

definition result_ok :: "scan_env \<Rightarrow> Chunk list \<Rightarrow> scanResult \<Rightarrow> bool" where
  "result_ok env chunks r \<longleftrightarrow>
     (\<exists>t res. task_ok env chunks t \<and> possible_result env t res \<and> r = result_for t res)"

lemma result_ok_range: "result_ok env chunks r \<Longrightarrow> res_chunkIdx r < length chunks \<and> 0 \<le> res_taskIdx r"
  by (auto simp: result_ok_def task_ok_def result_for_def)

definition tasks_valid :: "scan_env \<Rightarrow> Chunk list \<Rightarrow> 'o pipeline \<Rightarrow> bool" where
  "tasks_valid env chunks s \<longleftrightarrow>
     (\<forall>t \<in># tasks_of s. task_ok env chunks t) \<and> (\<forall>r \<in> set (pl_resultCh s). result_ok env chunks r) \<and>
     (\<forall>w \<in> set (pl_workers s). \<forall>t res. w = Probed t res \<longrightarrow> possible_result env t res)"

section \<open>The dispatcher and the cursors\<close>

definition start_index :: "Chunk list \<Rightarrow> nat \<Rightarrow> int" where
  "start_index chunks k = NextIndex (chunks ! k)"

definition total_of :: "Chunk list \<Rightarrow> nat \<Rightarrow> int" where
  "total_of chunks k = TotalCount (chunks ! k)"

text \<open>\<open>sent k\<close> is the index after the last task of chunk \<open>k\<close> that was dispatched.\<close>

definition next_is :: "Chunk list \<Rightarrow> (nat \<Rightarrow> int) \<Rightarrow> (int \<times> int \<times> string) list \<Rightarrow> nat set \<Rightarrow> bool" where
  "next_is chunks sent cs ks \<longleftrightarrow> (\<forall>j < length chunks. j \<in> ks \<longrightarrow> fst (cs ! j) = sent j)"

definition past :: "Chunk list \<Rightarrow> (nat \<Rightarrow> int) \<Rightarrow> nat \<Rightarrow> bool" where
  "past chunks sent k \<longleftrightarrow> (\<forall>j < length chunks. j < k \<longrightarrow> total_of chunks j \<le> sent j)"

definition cursor_ok :: "Chunk list \<Rightarrow> (nat \<Rightarrow> int) \<Rightarrow> dispatcher \<Rightarrow> (int \<times> int \<times> string) list \<Rightarrow> bool" where
  "cursor_ok chunks sent d cs \<longleftrightarrow>
     length cs = length chunks \<and>
     (\<forall>j < length chunks. snd (cs ! j) = (total_of chunks j, chunkCIDR (chunks ! j)) \<and> start_index chunks j \<le> sent j) \<and>
     (case d of
        AtChunk k \<Rightarrow> next_is chunks sent cs UNIV \<and> past chunks sent k
      | AtTask k i \<Rightarrow> k < length chunks \<and> i = sent k \<and> next_is chunks sent cs UNIV \<and> past chunks sent k
      | Sent k i \<Rightarrow> k < length chunks \<and> sent k = i + 1 \<and> fst (cs ! k) = i \<and> next_is chunks sent cs (- {k}) \<and> past chunks sent k
      | DispatchDone \<Rightarrow> next_is chunks sent cs UNIV \<and> past chunks sent (length chunks)
      | DispatchStopped \<Rightarrow> next_is chunks sent cs UNIV
      | DispatchPanicked \<Rightarrow> (\<forall>j < length chunks. fst (cs ! j) \<le> sent j \<and> sent j \<le> fst (cs ! j) + 1))"

definition dispatched :: "Chunk list \<Rightarrow> (nat \<Rightarrow> int) \<Rightarrow> (nat \<times> int) set" where
  "dispatched chunks sent = (SIGMA k : {..<length chunks}. {start_index chunks k..<sent k})"

lemma finite_dispatched [simp]: "finite (dispatched chunks sent)"
  by (simp add: dispatched_def)

lemma dispatched_send:
  assumes "k < length chunks" and "start_index chunks k \<le> sent k"
  shows "dispatched chunks (sent(k := sent k + 1)) = insert (k, sent k) (dispatched chunks sent)"
    and "(k, sent k) \<notin> dispatched chunks sent"
  using assms by (auto simp: dispatched_def split: if_splits)

section \<open>The invariant\<close>

definition in_flight :: "'o pipeline \<Rightarrow> (nat \<times> int) multiset" where
  "in_flight s = image_mset task_id (tasks_of s) + image_mset result_id (mset (pl_resultCh s))"

definition exits_ok :: "'o pipeline \<Rightarrow> bool" where
  "exits_ok s \<longleftrightarrow> (Exited \<in> set (pl_workers s) \<longrightarrow> dispatch_ended (pl_dispatcher s) \<and> pl_taskCh s = [])"

definition quiet :: "'o pipeline \<Rightarrow> (nat \<times> int) list \<Rightarrow> bool" where
  "quiet s marked \<longleftrightarrow>
     (\<not> executor_stopped s \<longrightarrow>
        pl_abandonedCh s = [] \<and> pl_lost s = [] \<and> marked = [] \<and> Draining \<notin> set (pl_workers s)) \<and>
     (failed (pl_committer s) \<longrightarrow> pl_canceled s) \<and> (pl_fatal s \<longrightarrow> pl_stopping s)"

abbreviation marks_of :: "(nat \<times> int) list \<Rightarrow> nat \<Rightarrow> int set" where
  "marks_of marked \<equiv> (\<lambda>k. {i. (k, i) \<in> set marked})"

lemma pipe_field_simps [simp]:
  "pl_dispatcher (with_worker w x s) = pl_dispatcher s" "pl_taskCh (with_worker w x s) = pl_taskCh s"
  "pl_workers (with_worker w x s) = (pl_workers s)[w := x]" "pl_resultCh (with_worker w x s) = pl_resultCh s"
  "pl_abandonedCh (with_worker w x s) = pl_abandonedCh s" "pl_committer (with_worker w x s) = pl_committer s"
  "pl_canceled (with_worker w x s) = pl_canceled s" "pl_stopping (with_worker w x s) = pl_stopping s"
  "pl_fatal (with_worker w x s) = pl_fatal s" "pl_lost (with_worker w x s) = pl_lost s"
  "pl_dispatcher (with_trackers f s) = pl_dispatcher s" "pl_taskCh (with_trackers f s) = pl_taskCh s"
  "pl_workers (with_trackers f s) = pl_workers s" "pl_resultCh (with_trackers f s) = pl_resultCh s"
  "pl_abandonedCh (with_trackers f s) = pl_abandonedCh s"
  "pl_committer (with_trackers f s) = (pl_committer s)\<lparr>trackers := f (trackers (pl_committer s))\<rparr>"
  "pl_canceled (with_trackers f s) = pl_canceled s" "pl_stopping (with_trackers f s) = pl_stopping s"
  "pl_fatal (with_trackers f s) = pl_fatal s" "pl_lost (with_trackers f s) = pl_lost s"
  by (simp_all add: with_worker_def with_trackers_def)

lemma set_update_worker: "w < length ws \<Longrightarrow> v \<in> set (ws[w := x]) \<Longrightarrow> v = x \<or> v \<in> set ws"
  using set_update_subset_insert [of ws w x] by auto

context commit_sink
begin

definition accounted where
  "accounted env chunks s sent committed pend refused marked \<longleftrightarrow>
     good (length chunks) (\<lambda>k. ScannedCount (chunks ! k)) (marks_of marked) (pl_committer s) committed pend refused \<and>
     (\<forall>r \<in> set (committed @ pend @ refused). result_ok env chunks r) \<and>
     (\<forall>p \<in> set marked. fst p < length chunks \<and> 0 \<le> snd p) \<and>
     in_flight s + image_mset result_id (mset (committed @ pend @ refused)) + mset marked =
       mset_set (dispatched chunks sent)"

definition pipe_inv where
  "pipe_inv env chunks s \<longleftrightarrow>
     length (env_runtimes env) = length chunks \<and> (\<forall>k < length chunks. 0 \<le> start_index chunks k) \<and>
     tasks_valid env chunks s \<and> exits_ok s \<and>
     (\<exists>sent committed pend refused marked.
        cursor_ok chunks sent (pl_dispatcher s) (cursors (trackers (pl_committer s))) \<and>
        accounted env chunks s sent committed pend refused marked \<and> quiet s marked)"

lemma good_mark:
  assumes "good n base marks c committed pend refused" and "k < n" and "0 \<le> i"
  shows "good n base (marks(k := insert i (marks k)))
    (c\<lparr>trackers := (trackers c)[k := MarkUnwritten (trackers c ! k) i]\<rparr>) committed pend refused"
proof -
  have inv: "committer_inv n base marks c committed pend refused" using assms(1) by (simp add: good_def)
  let ?c = "c\<lparr>trackers := (trackers c)[k := MarkUnwritten (trackers c ! k) i]\<rparr>"
  let ?X = "\<lambda>j. if failed c then unwritten j (pend @ refused) else {}"
  have len: "length (trackers c) = n" using inv by (simp add: committer_inv_def)
  have "ScannedCount (tr_chunk (trackers ?c ! j)) = base j + int (length (of_chunk j committed)) \<and>
     tracks (trackers ?c ! j) ((marks(k := insert i (marks k))) j \<union> ?X j)" if j: "j < n" for j
  proof -
    have old: "tracks (trackers c ! j) (marks j \<union> ?X j)"
      "ScannedCount (tr_chunk (trackers c ! j)) = base j + int (length (of_chunk j committed))"
      using inv j by (simp_all add: committer_inv_def)
    show ?thesis
      using old tracks_MarkUnwritten [OF old(1) assms(3)] j len by (cases "j = k") simp_all
  qed
  then have "committer_inv n base (marks(k := insert i (marks k))) ?c committed pend refused"
    using inv len by (simp add: committer_inv_def)
  then show ?thesis
    using assms(1) by (simp add: good_def)
qed

lemma good_advance:
  assumes "good n base marks c committed pend refused"
  shows "good n base marks (c\<lparr>trackers := (trackers c)[k := AdvanceNextIndex (trackers c ! k) i]\<rparr>) committed pend refused"
proof -
  have inv: "committer_inv n base marks c committed pend refused" using assms by (simp add: good_def)
  let ?c = "c\<lparr>trackers := (trackers c)[k := AdvanceNextIndex (trackers c ! k) i]\<rparr>"
  let ?X = "\<lambda>j. if failed c then unwritten j (pend @ refused) else {}"
  have "ScannedCount (tr_chunk (trackers ?c ! j)) = base j + int (length (of_chunk j committed)) \<and>
     tracks (trackers ?c ! j) (marks j \<union> ?X j)" if j: "j < n" for j
  proof -
    have old: "tracks (trackers c ! j) (marks j \<union> ?X j)"
      "ScannedCount (tr_chunk (trackers c ! j)) = base j + int (length (of_chunk j committed))"
      using inv j by (simp_all add: committer_inv_def)
    show ?thesis
      using old tracks_same [of "AdvanceNextIndex (trackers c ! j) i" "trackers c ! j"] inv j
      by (cases "j = k") (simp_all add: committer_inv_def)
  qed
  then have "committer_inv n base marks ?c committed pend refused"
    using inv by (simp add: committer_inv_def)
  then show ?thesis
    using assms by (simp add: good_def)
qed

text \<open>A step that leaves the dispatcher and the committer alone and only moves tasks\<close>

lemma inv_move:
  assumes inv: "pipe_inv env chunks s"
    and same: "pl_committer t = pl_committer s" "pl_dispatcher t = pl_dispatcher s" "in_flight t = in_flight s"
    and "tasks_valid env chunks t" and "exits_ok t"
    and quiet: "\<And>marked. quiet s marked \<Longrightarrow> quiet t marked"
  shows "pipe_inv env chunks t"
proof -
  obtain sent committed pend refused marked where
    a: "cursor_ok chunks sent (pl_dispatcher s) (cursors (trackers (pl_committer s)))"
    "accounted env chunks s sent committed pend refused marked" "quiet s marked"
    using inv by (auto simp: pipe_inv_def)
  have "accounted env chunks t sent committed pend refused marked"
    using a(2) same by (simp add: accounted_def)
  then show ?thesis
    using a inv same assms(5,6) quiet [OF a(3)] unfolding pipe_inv_def by metis
qed

text \<open>A step of the dispatcher that changes only its own position and the cursor\<close>

lemma inv_dispatch:
  assumes inv: "pipe_inv env chunks s"
    and t: "t = s\<lparr>pl_dispatcher := d\<rparr> \<or>
      t = (advance_at k i s)\<lparr>pl_dispatcher := d\<rparr>"
    and cur: "\<And>sent. cursor_ok chunks sent (pl_dispatcher s) (cursors (trackers (pl_committer s))) \<Longrightarrow>
      cursor_ok chunks sent d (cursors (trackers (pl_committer t)))"
    and live: "\<not> dispatch_ended (pl_dispatcher s)"
  shows "pipe_inv env chunks t"
proof -
  obtain sent committed pend refused marked where
    a: "cursor_ok chunks sent (pl_dispatcher s) (cursors (trackers (pl_committer s)))"
    "accounted env chunks s sent committed pend refused marked" "quiet s marked"
    using inv by (auto simp: pipe_inv_def)
  have same: "pl_taskCh t = pl_taskCh s" "pl_workers t = pl_workers s" "pl_resultCh t = pl_resultCh s"
    "pl_abandonedCh t = pl_abandonedCh s" "pl_lost t = pl_lost s" "pl_dispatcher t = d"
    "pl_canceled t = pl_canceled s" "pl_stopping t = pl_stopping s" "pl_fatal t = pl_fatal s"
    "failed (pl_committer t) = failed (pl_committer s)"
    using t by (auto simp: advance_at_def)
  then have "in_flight t = in_flight s" "tasks_of t = tasks_of s" by (simp_all add: in_flight_def tasks_of_def)
  moreover have "good (length chunks) (\<lambda>k. ScannedCount (chunks ! k)) (marks_of marked) (pl_committer t) committed pend refused"
    using t a(2) good_advance by (auto simp: accounted_def advance_at_def)
  ultimately have "accounted env chunks t sent committed pend refused marked" "tasks_valid env chunks t"
    using a(2) inv same by (simp_all add: accounted_def pipe_inv_def tasks_valid_def)
  moreover have "quiet t marked" "exits_ok t"
    using a(3) same inv live by (simp_all add: quiet_def executor_stopped_def exits_ok_def pipe_inv_def)
  ultimately show ?thesis
    using inv cur [OF a(1)] same(6) unfolding pipe_inv_def by metis
qed

end

lemma cursors_advance:
  assumes "length cs = n" and "cs = cursors ts"
  shows "cursors (ts[k := AdvanceNextIndex (ts ! k) i]) = (if k < n then cs[k := (i, snd (cs ! k))] else cs)"
  using assms by (auto simp: cursors_def map_update list_update_beyond)

lemma cursors_advance_at:
  "cursors (trackers (pl_committer (advance_at k i s))) =
     (let cs = cursors (trackers (pl_committer s)) in if k < length cs then cs[k := (i, snd (cs ! k))] else cs)"
  using cursors_advance [OF refl refl, of "trackers (pl_committer s)" k i]
  by (simp add: advance_at_def cursors_def Let_def)

lemma chunk_of_cursor:
  assumes "length (cursors (trackers (pl_committer s))) = n" and "k < n"
  shows "NextIndex (chunk_of s k) = fst (cursors (trackers (pl_committer s)) ! k)"
    and "TotalCount (chunk_of s k) = fst (snd (cursors (trackers (pl_committer s)) ! k))"
    and "chunkCIDR (chunk_of s k) = snd (snd (cursors (trackers (pl_committer s)) ! k))"
  using assms by (auto simp: cursors_def cursor_def chunk_of_def)

section \<open>Every step keeps the invariant\<close>

lemma held_simps:
  assumes w: "w < length ws"
  shows "ws ! w = Idle \<Longrightarrow> held (ws[w := x]) = held ws + mset (held_by x)"
    and "ws ! w = Draining \<Longrightarrow> held (ws[w := x]) = held ws + mset (held_by x)"
    and "ws ! w = Holding t \<Longrightarrow> held ws = add_mset t (held (ws[w := Idle]))"
    and "ws ! w = Holding t \<Longrightarrow> held (ws[w := Probing t]) = held ws"
    and "ws ! w = Probing t \<Longrightarrow> held (ws[w := Probed t res]) = held ws"
    and "ws ! w = Probing t \<Longrightarrow> held ws = add_mset t (held (ws[w := Draining]))"
    and "ws ! w = Probed t res \<Longrightarrow> held ws = add_mset t (held (ws[w := Idle]))"
    and "ws ! w = Probed t res \<Longrightarrow> held ws = add_mset t (held (ws[w := Draining]))"
  using held_update [OF w, of x] held_update [OF w, of Idle] held_update [OF w, of "Probing t"]
    held_update [OF w, of "Probed t res"] held_update [OF w, of Draining] by auto

lemma result_id_for [simp]: "result_id (result_for t res) = task_id t"
  by (simp add: result_id_def result_for_def task_id_def)

lemma worker_task_ok:
  assumes "tasks_valid env chunks s" and "w < length (pl_workers s)" and "t \<in> set (held_by (pl_workers s ! w))"
  shows "task_ok env chunks t"
  using assms held_nth [OF assms(2,3)] by (simp add: tasks_valid_def tasks_of_def)

lemma valid_same:
  assumes "tasks_valid env chunks s" and "set_mset (tasks_of t) \<subseteq> set_mset (tasks_of s)"
    and "\<forall>r \<in> set (pl_resultCh t). result_ok env chunks r"
    and "\<And>u res. Probed u res \<in> set (pl_workers t) \<Longrightarrow> Probed u res \<in> set (pl_workers s) \<or> possible_result env u res"
  shows "tasks_valid env chunks t"
  using assms unfolding tasks_valid_def by blast

context commit_sink
begin

lemma inv_worker:
  assumes inv: "pipe_inv env chunks s" and w: "w < length (pl_workers s)"
    and same: "pl_committer t = pl_committer s" "pl_dispatcher t = pl_dispatcher s" "pl_workers t = (pl_workers s)[w := x]"
    and flight: "in_flight t = in_flight s" and tasks: "set_mset (tasks_of t) \<subseteq> set_mset (tasks_of s)"
    and results: "\<forall>r \<in> set (pl_resultCh t). result_ok env chunks r"
    and probed: "\<And>u res. x = Probed u res \<Longrightarrow> possible_result env u res"
    and exited: "x = Exited \<Longrightarrow> dispatch_ended (pl_dispatcher s) \<and> pl_taskCh t = []"
    and ch: "pl_taskCh s = [] \<Longrightarrow> pl_taskCh t = []"
    and quiet: "\<And>marked. quiet s marked \<Longrightarrow> quiet t marked"
  shows "pipe_inv env chunks t"
proof (rule inv_move [OF inv same(1,2) flight _ _ quiet])
  have valid: "tasks_valid env chunks s" using inv by (simp add: pipe_inv_def)
  have "Probed u res \<in> set (pl_workers s) \<or> possible_result env u res" if "Probed u res \<in> set (pl_workers t)" for u res
    using set_update_worker [OF w that [unfolded same(3)]] probed [of u res] by auto
  then show "tasks_valid env chunks t"
    by (rule valid_same [OF valid tasks results])
  show "exits_ok t"
    using inv exited ch set_update_worker [OF w, of Exited x] same by (auto simp: exits_ok_def pipe_inv_def)
qed

lemma inv_receive:
  assumes inv: "pipe_inv env chunks s" and w: "w < length (pl_workers s)" "pl_workers s ! w = Idle"
    and ch: "pl_taskCh s = t # ts"
  shows "pipe_inv env chunks ((with_worker w (Holding t) s)\<lparr>pl_taskCh := ts\<rparr>)" (is "pipe_inv env chunks ?t")
proof (rule inv_worker [OF inv w(1), where x = "Holding t"])
  have tasks: "tasks_of ?t = tasks_of s"
    by (simp add: tasks_of_def held_simps(1) [OF w] ch)
  then show "in_flight ?t = in_flight s" "set_mset (tasks_of ?t) \<subseteq> set_mset (tasks_of s)"
    by (simp_all add: in_flight_def)
  show "quiet ?t marked" if "quiet s marked" for marked
    using that set_update_worker [OF w(1), of Draining "Holding t"] by (auto simp: quiet_def executor_stopped_def)
qed (use inv ch in \<open>auto simp: pipe_inv_def tasks_valid_def\<close>)

lemma inv_probe:
  assumes inv: "pipe_inv env chunks s" and w: "w < length (pl_workers s)" "pl_workers s ! w = Holding t"
  shows "pipe_inv env chunks (with_worker w (Probing t) s)"
  using inv set_update_worker [OF w(1), of Draining "Probing t"]
  by (intro inv_worker [OF inv w(1), where x = "Probing t"])
    (auto simp: in_flight_def tasks_of_def held_simps(4) [OF w] quiet_def executor_stopped_def pipe_inv_def tasks_valid_def)

lemma inv_refuse:
  assumes inv: "pipe_inv env chunks s" and w: "w < length (pl_workers s)" "pl_workers s ! w = Holding t"
    and stopped: "executor_stopped s"
  shows "pipe_inv env chunks ((with_worker w Idle s)\<lparr>pl_abandonedCh := pl_abandonedCh s @ [t]\<rparr>)"
  using inv stopped
  by (intro inv_worker [OF inv w(1), where x = Idle])
    (auto simp: in_flight_def tasks_of_def held_simps(3) [OF w] quiet_def executor_stopped_def pipe_inv_def tasks_valid_def)

lemma inv_probe_end:
  assumes inv: "pipe_inv env chunks s" and w: "w < length (pl_workers s)" "pl_workers s ! w = Probing t"
    and "possible_result env t res"
  shows "pipe_inv env chunks (with_worker w (Probed t res) s)"
  using inv assms(4) set_update_worker [OF w(1), of Draining "Probed t res"]
  by (intro inv_worker [OF inv w(1), where x = "Probed t res"])
    (auto simp: in_flight_def tasks_of_def held_simps(5) [OF w] quiet_def executor_stopped_def pipe_inv_def tasks_valid_def)

lemma inv_probe_panic:
  assumes inv: "pipe_inv env chunks s" and w: "w < length (pl_workers s)" "pl_workers s ! w = Probing t"
  shows "pipe_inv env chunks ((with_worker w Draining s)
    \<lparr>pl_abandonedCh := pl_abandonedCh s @ [t], pl_stopping := True, pl_fatal := True\<rparr>)"
  using inv
  by (intro inv_worker [OF inv w(1), where x = Draining])
    (auto simp: in_flight_def tasks_of_def held_simps(6) [OF w] quiet_def executor_stopped_def pipe_inv_def tasks_valid_def)

lemma inv_deliver:
  assumes inv: "pipe_inv env chunks s" and w: "w < length (pl_workers s)" "pl_workers s ! w = Probed t res"
  shows "pipe_inv env chunks ((with_worker w Idle s)\<lparr>pl_resultCh := pl_resultCh s @ [result_for t res]\<rparr>)"
proof -
  have valid: "tasks_valid env chunks s" using inv by (simp add: pipe_inv_def)
  have "Probed t res \<in> set (pl_workers s)" using w by (metis nth_mem)
  then have "possible_result env t res" and "task_ok env chunks t"
    using worker_task_ok [OF valid w(1), of t] w(2) valid by (auto simp: tasks_valid_def)
  then have "result_ok env chunks (result_for t res)"
    unfolding result_ok_def by blast
  then show ?thesis
    using inv set_update_worker [OF w(1), of Draining Idle]
    by (intro inv_worker [OF inv w(1), where x = Idle])
      (auto simp: in_flight_def tasks_of_def held_simps(7) [OF w] quiet_def executor_stopped_def pipe_inv_def tasks_valid_def)
qed

lemma inv_late_panic:
  assumes inv: "pipe_inv env chunks s" and w: "w < length (pl_workers s)" "pl_workers s ! w = Probed t res"
  shows "pipe_inv env chunks ((with_worker w Draining s)
    \<lparr>pl_lost := pl_lost s @ [t], pl_stopping := True, pl_fatal := True\<rparr>)"
  using inv
  by (intro inv_worker [OF inv w(1), where x = Draining])
    (auto simp: in_flight_def tasks_of_def held_simps(8) [OF w] quiet_def executor_stopped_def pipe_inv_def tasks_valid_def)

lemma inv_worker_stop:
  assumes inv: "pipe_inv env chunks s" and w: "w < length (pl_workers s)" "pl_workers s ! w = Idle"
    and stopped: "executor_stopped s"
  shows "pipe_inv env chunks (with_worker w Draining s)"
  using inv stopped
  by (intro inv_worker [OF inv w(1), where x = Draining])
    (auto simp: in_flight_def tasks_of_def held_simps(1) [OF w] quiet_def executor_stopped_def pipe_inv_def tasks_valid_def)

lemma inv_drain:
  assumes inv: "pipe_inv env chunks s" and w: "w < length (pl_workers s)" "pl_workers s ! w = Draining"
    and ch: "pl_taskCh s = t # ts"
  shows "pipe_inv env chunks (s\<lparr>pl_taskCh := ts, pl_abandonedCh := pl_abandonedCh s @ [t]\<rparr>)"
proof -
  have "Draining \<in> set (pl_workers s)" using w by (metis nth_mem)
  moreover have "(pl_workers s)[w := Draining] = pl_workers s" using w(2) by (metis list_update_id)
  ultimately show ?thesis
    using inv
    by (intro inv_worker [OF inv w(1), where x = Draining])
      (auto simp: in_flight_def tasks_of_def ch quiet_def executor_stopped_def pipe_inv_def tasks_valid_def)
qed

lemma inv_worker_exit:
  assumes inv: "pipe_inv env chunks s" and w: "w < length (pl_workers s)" "pl_workers s ! w \<in> {Idle, Draining}"
    and "pl_taskCh s = []" and "dispatch_ended (pl_dispatcher s)"
  shows "pipe_inv env chunks (with_worker w Exited s)"
proof -
  have "held ((pl_workers s)[w := Exited]) = held (pl_workers s)"
    using w held_simps(1,2) [OF w(1), where x = Exited] by auto
  then show ?thesis
    using inv assms(4,5) set_update_worker [OF w(1), of Draining Exited]
    by (intro inv_worker [OF inv w(1), where x = Exited])
      (auto simp: in_flight_def tasks_of_def quiet_def executor_stopped_def pipe_inv_def tasks_valid_def)
qed

lemma inv_flags:
  assumes inv: "pipe_inv env chunks s"
  shows "pipe_inv env chunks (s\<lparr>pl_fatal := False, pl_canceled := True\<rparr>)" and "pipe_inv env chunks (s\<lparr>pl_canceled := True\<rparr>)"
  using inv
  by (intro inv_move [OF inv];
      simp add: in_flight_def tasks_of_def quiet_def executor_stopped_def pipe_inv_def tasks_valid_def exits_ok_def)+

end

lemma next_isD: "next_is chunks sent cs ks \<Longrightarrow> k < length chunks \<Longrightarrow> k \<in> ks \<Longrightarrow> fst (cs ! k) = sent k"
  by (simp add: next_is_def)

lemma cursor_ok_chunk:
  assumes "cursor_ok chunks sent d (cursors (trackers (pl_committer s)))" and "k < length chunks"
  shows "NextIndex (chunk_of s k) = fst (cursors (trackers (pl_committer s)) ! k)"
    and "TotalCount (chunk_of s k) = total_of chunks k" and "chunkCIDR (chunk_of s k) = chunkCIDR (chunks ! k)"
  using assms chunk_of_cursor [of s "length chunks" k] by (auto simp: cursor_ok_def)

lemma cursor_ok_length: "cursor_ok chunks sent d cs \<Longrightarrow> length cs = length chunks"
  by (simp add: cursor_ok_def)

lemma cursors_set_same: "k < length cs \<Longrightarrow> cs[k := (fst (cs ! k), snd (cs ! k))] = cs"
  by simp

context commit_sink
begin

lemma pipe_invI:
  assumes "pipe_inv env chunks s"
    and "cursor_ok chunks sent (pl_dispatcher t) (cursors (trackers (pl_committer t)))"
    and "accounted env chunks t sent committed pend refused marked"
    and "quiet t marked" and "tasks_valid env chunks t" and "exits_ok t"
  shows "pipe_inv env chunks t"
  using assms unfolding pipe_inv_def by blast

lemma inv_chunk_step:
  assumes inv: "pipe_inv env chunks s" and d: "pl_dispatcher s = AtChunk k" and k: "k < length (env_runtimes env)"
    and d': "d = (if NextIndex (chunk_of s k) \<ge> TotalCount (chunk_of s k) then AtChunk (k + 1)
      else AtTask k (NextIndex (chunk_of s k)))"
  shows "pipe_inv env chunks ((advance_at k (NextIndex (chunk_of s k)) s)\<lparr>pl_dispatcher := d\<rparr>)"
proof (rule inv_dispatch [OF inv disjI2 [OF refl]])
  have kn: "k < length chunks" using k inv by (simp add: pipe_inv_def)
  fix sent
  let ?cs = "cursors (trackers (pl_committer s))"
  assume ok: "cursor_ok chunks sent (pl_dispatcher s) ?cs"
  note chunk = cursor_ok_chunk [OF ok kn]
  have "cursors (trackers (pl_committer ((advance_at k (NextIndex (chunk_of s k)) s)\<lparr>pl_dispatcher := d\<rparr>))) = ?cs"
    using cursor_ok_length [OF ok] kn chunk(1) by (simp add: cursors_advance_at Let_def)
  moreover have "NextIndex (chunk_of s k) = sent k"
    using ok d kn chunk(1) by (auto simp: cursor_ok_def dest: next_isD)
  ultimately show "cursor_ok chunks sent d (cursors (trackers (pl_committer
      ((advance_at k (NextIndex (chunk_of s k)) s)\<lparr>pl_dispatcher := d\<rparr>))))"
    using ok d d' kn chunk(2) by (auto simp: cursor_ok_def past_def less_Suc_eq)
qed (simp add: d dispatch_ended_def)

lemma inv_dispatch_end:
  assumes inv: "pipe_inv env chunks s" and live: "\<not> dispatch_ended (pl_dispatcher s)"
    and d: "d = DispatchPanicked \<or>
      (\<exists>k. pl_dispatcher s = AtChunk k \<and> length (env_runtimes env) \<le> k \<and> d = DispatchDone) \<or>
      (\<exists>k i. pl_dispatcher s = AtTask k i \<and> d = DispatchStopped) \<or>
      (\<exists>k i. pl_dispatcher s = AtTask k i \<and> TotalCount (chunk_of s k) \<le> i \<and> d = AtChunk (k + 1))"
  shows "pipe_inv env chunks (s\<lparr>pl_dispatcher := d\<rparr>)"
proof (rule inv_dispatch [OF inv disjI1 [OF refl] _ live])
  fix sent
  let ?cs = "cursors (trackers (pl_committer s))"
  assume ok: "cursor_ok chunks sent (pl_dispatcher s) ?cs"
  have panic: "cursor_ok chunks sent DispatchPanicked ?cs"
  proof -
    have "fst (?cs ! j) \<le> sent j \<and> sent j \<le> fst (?cs ! j) + 1" if j: "j < length chunks" for j
    proof (cases "pl_dispatcher s")
      case (Sent k i)
      then have "sent k = i + 1" "fst (?cs ! k) = i" "next_is chunks sent ?cs (- {k})"
        using ok by (simp_all add: cursor_ok_def)
      then show ?thesis using j next_isD [of chunks sent ?cs "- {k}" j] by (cases "j = k") simp_all
    next
      case (AtChunk k)
      then have "next_is chunks sent ?cs UNIV" using ok by (simp add: cursor_ok_def)
      then show ?thesis using next_isD [of chunks sent ?cs UNIV j] j by simp
    next
      case (AtTask k i)
      then have "next_is chunks sent ?cs UNIV" using ok by (simp add: cursor_ok_def)
      then show ?thesis using next_isD [of chunks sent ?cs UNIV j] j by simp
    qed (use live in \<open>simp_all add: dispatch_ended_def\<close>)
    then show ?thesis using ok by (simp add: cursor_ok_def)
  qed
  have "cursor_ok chunks sent d ?cs"
    using d panic
  proof (elim disjE exE conjE)
    fix k assume "pl_dispatcher s = AtChunk k" "length (env_runtimes env) \<le> k" "d = DispatchDone"
    then show ?thesis using ok inv by (auto simp: cursor_ok_def pipe_inv_def past_def)
  next
    fix k i assume "pl_dispatcher s = AtTask k i" "d = DispatchStopped"
    then show ?thesis using ok by (auto simp: cursor_ok_def)
  next
    fix k i assume a: "pl_dispatcher s = AtTask k i" "TotalCount (chunk_of s k) \<le> i" "d = AtChunk (k + 1)"
    then show ?thesis
      using ok cursor_ok_chunk(2) [OF ok, of k] by (auto simp: cursor_ok_def past_def less_Suc_eq)
  qed simp
  then show "cursor_ok chunks sent d (cursors (trackers (pl_committer (s\<lparr>pl_dispatcher := d\<rparr>))))"
    by simp
qed

lemma inv_advance:
  assumes inv: "pipe_inv env chunks s" and d: "pl_dispatcher s = Sent k i"
  shows "pipe_inv env chunks ((advance_at k (i + 1) s)\<lparr>pl_dispatcher := AtTask k (i + 1)\<rparr>)"
proof (rule inv_dispatch [OF inv disjI2 [OF refl]])
  fix sent
  let ?cs = "cursors (trackers (pl_committer s))"
  assume ok: "cursor_ok chunks sent (pl_dispatcher s) ?cs"
  then have "cursors (trackers (pl_committer ((advance_at k (i + 1) s)\<lparr>pl_dispatcher := AtTask k (i + 1)\<rparr>))) =
      ?cs[k := (i + 1, snd (?cs ! k))]"
    using d by (simp add: cursors_advance_at Let_def cursor_ok_def)
  then show "cursor_ok chunks sent (AtTask k (i + 1)) (cursors (trackers (pl_committer
      ((advance_at k (i + 1) s)\<lparr>pl_dispatcher := AtTask k (i + 1)\<rparr>))))"
    using ok d by (auto simp: cursor_ok_def next_is_def nth_list_update)
qed (simp add: d dispatch_ended_def)

lemma inv_send:
  assumes inv: "pipe_inv env chunks s" and d: "pl_dispatcher s = AtTask k i" and "i < TotalCount (chunk_of s k)"
    and t: "task_at env (chunkCIDR (chunk_of s k)) k i = Inr t"
  shows "pipe_inv env chunks (s\<lparr>pl_taskCh := pl_taskCh s @ [t], pl_dispatcher := Sent k i\<rparr>)" (is "pipe_inv env chunks ?s")
proof -
  let ?cs = "cursors (trackers (pl_committer s))"
  obtain sent committed pend refused marked where
    a: "cursor_ok chunks sent (pl_dispatcher s) ?cs" "accounted env chunks s sent committed pend refused marked" "quiet s marked"
    using inv by (auto simp: pipe_inv_def)
  have k: "k < length chunks" "i = sent k" "start_index chunks k \<le> sent k" "fst (?cs ! k) = sent k"
    using a(1) d by (auto simp: cursor_ok_def dest: next_isD)
  have "0 \<le> i" using k inv by (force simp: pipe_inv_def)
  have id: "chunkIdx t = k" "taskIdx t = i"
    using t by (auto simp: task_at_def try_bind_eq_Inr split: prod.splits)
  have ok: "task_ok env chunks t"
    using t cursor_ok_chunk(3) [OF a(1) k(1)] k(1) id \<open>0 \<le> i\<close> by (simp add: task_ok_def)
  have "tasks_of ?s = add_mset t (tasks_of s)" by (simp add: tasks_of_def)
  then have flight: "in_flight ?s = add_mset (k, i) (in_flight s)" and "tasks_valid env chunks ?s"
    using inv ok id by (auto simp: in_flight_def task_id_def pipe_inv_def tasks_valid_def)
  moreover have "cursor_ok chunks (sent(k := sent k + 1)) (Sent k i) ?cs"
    using a(1) d k by (auto simp: cursor_ok_def next_is_def past_def)
  moreover have "accounted env chunks ?s (sent(k := sent k + 1)) committed pend refused marked"
    using a(2) flight dispatched_send [of k chunks sent, OF k(1,3)] k(2) by (simp add: accounted_def)
  moreover have "quiet ?s marked" "exits_ok ?s"
    using a(3) inv d by (auto simp: quiet_def executor_stopped_def exits_ok_def pipe_inv_def dispatch_ended_def)
  ultimately show ?thesis
    by (intro pipe_invI [OF inv, where t = ?s and sent = "sent(k := sent k + 1)"]) simp_all
qed

lemma inv_accept:
  assumes inv: "pipe_inv env chunks s" and ch: "pl_resultCh s = r # rs"
    and accept: "committer_Accept write_op flush_op (env_flushInterval env) (pl_committer s) r = (e, c)"
  shows "pipe_inv env chunks (s\<lparr>pl_resultCh := rs, pl_committer := c, pl_canceled := (pl_canceled s \<or> e \<noteq> None)\<rparr>)"
    (is "pipe_inv env chunks ?s")
proof -
  obtain sent committed pend refused marked where
    a: "cursor_ok chunks sent (pl_dispatcher s) (cursors (trackers (pl_committer s)))"
    "accounted env chunks s sent committed pend refused marked" "quiet s marked"
    using inv by (auto simp: pipe_inv_def)
  have r: "result_ok env chunks r" using inv ch by (simp add: pipe_inv_def tasks_valid_def)
  obtain committed' pend' refused' where n:
    "good (length chunks) (\<lambda>k. ScannedCount (chunks ! k)) (marks_of marked) c committed' pend' refused'"
    "committed' @ pend' @ refused' = (committed @ pend @ refused) @ [r]"
    "e \<noteq> None \<longrightarrow> failed c" "failed c \<longrightarrow> failed (pl_committer s) \<or> e \<noteq> None"
    using accept_good [of "length chunks" "\<lambda>k. ScannedCount (chunks ! k)" "marks_of marked" "pl_committer s"
        committed pend refused r "env_flushInterval env" e c] a(2) result_ok_range [OF r] accept
    by (auto simp: accounted_def)
  have cs: "cursors (trackers c) = cursors (trackers (pl_committer s))"
    using cursors_Accept [of write_op flush_op "env_flushInterval env" "pl_committer s" r] accept by simp
  have "tasks_of ?s = tasks_of s" by (simp add: tasks_of_def)
  then have flight: "in_flight s = add_mset (result_id r) (in_flight ?s)" and "tasks_valid env chunks ?s"
    using ch inv by (simp_all add: in_flight_def pipe_inv_def tasks_valid_def)
  moreover have "accounted env chunks ?s sent committed' pend' refused' marked"
    unfolding accounted_def
  proof (intro conjI)
    show "\<forall>x \<in> set (committed' @ pend' @ refused'). result_ok env chunks x"
      unfolding n(2) using a(2) r by (simp add: accounted_def)
    show "in_flight ?s + image_mset result_id (mset (committed' @ pend' @ refused')) + mset marked =
        mset_set (dispatched chunks sent)"
      unfolding n(2) using a(2) flight by (simp add: accounted_def)
  qed (use n(1) a(2) in \<open>simp_all add: accounted_def\<close>)
  moreover have "quiet ?s marked" "exits_ok ?s"
    using a(3) inv n(3,4) by (auto simp: quiet_def executor_stopped_def exits_ok_def pipe_inv_def)
  ultimately show ?thesis
    using a(1) cs by (intro pipe_invI [OF inv, where t = ?s and sent = sent]) simp_all
qed

lemma inv_collect:
  assumes inv: "pipe_inv env chunks s" and ch: "pl_abandonedCh s = t # ts"
  shows "pipe_inv env chunks ((mark_at (chunkIdx t) (taskIdx t) s)\<lparr>pl_abandonedCh := ts\<rparr>)" (is "pipe_inv env chunks ?s")
proof -
  obtain sent committed pend refused marked where
    a: "cursor_ok chunks sent (pl_dispatcher s) (cursors (trackers (pl_committer s)))"
    "accounted env chunks s sent committed pend refused marked" "quiet s marked"
    using inv by (auto simp: pipe_inv_def)
  have t: "chunkIdx t < length chunks" "0 \<le> taskIdx t"
    using inv ch by (simp_all add: pipe_inv_def tasks_valid_def tasks_of_def task_ok_def)
  let ?m = "(chunkIdx t, taskIdx t) # marked"
  have "(marks_of marked)(chunkIdx t := insert (taskIdx t) (marks_of marked (chunkIdx t))) = marks_of ?m"
    by (auto simp: fun_eq_iff)
  then have good: "good (length chunks) (\<lambda>k. ScannedCount (chunks ! k)) (marks_of ?m) (pl_committer ?s) committed pend refused"
    using good_mark [OF _ t, of _ "marks_of marked"] a(2) by (simp add: accounted_def mark_at_def)
  have "tasks_of s = add_mset t (tasks_of ?s)" by (simp add: tasks_of_def ch mark_at_def)
  moreover have "pl_resultCh ?s = pl_resultCh s" "pl_workers ?s = pl_workers s" by (simp_all add: mark_at_def)
  ultimately have flight: "in_flight s = add_mset (chunkIdx t, taskIdx t) (in_flight ?s)" and "tasks_valid env chunks ?s"
    using inv by (simp_all add: in_flight_def task_id_def pipe_inv_def tasks_valid_def)
  moreover have "accounted env chunks ?s sent committed pend refused ?m"
    using a(2) flight good t by (simp add: accounted_def)
  moreover have "cursors (trackers (pl_committer ?s)) = cursors (trackers (pl_committer s))"
    by (simp add: mark_at_def cursors_mark)
  moreover have "quiet ?s ?m" "exits_ok ?s"
    using a(3) inv ch by (auto simp: quiet_def executor_stopped_def exits_ok_def pipe_inv_def mark_at_def)
  moreover have "pl_dispatcher ?s = pl_dispatcher s" by (simp add: mark_at_def)
  ultimately show ?thesis
    using a(1) by (intro pipe_invI [OF inv, where t = ?s and sent = sent]) simp_all
qed

lemma dispatch_step_inv:
  assumes "dispatch_step env kind s t" and inv: "pipe_inv env chunks s"
  shows "pipe_inv env chunks t"
  using assms(1)
proof (cases rule: dispatch_step.cases)
  case (chunk_idle k)
  then show ?thesis using inv_chunk_step [OF inv, of k "AtChunk (k + 1)"] by simp
next
  case (chunk_start k)
  then show ?thesis using inv_chunk_step [OF inv, of k "AtTask k (NextIndex (chunk_of s k))"] by simp
next
  case (dispatch_done k)
  then show ?thesis using inv_dispatch_end [OF inv, of DispatchDone] by (simp add: dispatch_ended_def)
next
  case (chunk_end k i)
  then show ?thesis using inv_dispatch_end [OF inv, of "AtChunk (k + 1)"] by (simp add: dispatch_ended_def)
next
  case (dispatch_canceled k i)
  then show ?thesis using inv_dispatch_end [OF inv, of DispatchStopped] by (simp add: dispatch_ended_def)
next
  case (dispatch_error k i e)
  then show ?thesis using inv_dispatch_end [OF inv, of DispatchStopped] by (simp add: dispatch_ended_def)
next
  case dispatch_panic
  then show ?thesis using inv_dispatch_end [OF inv, of DispatchPanicked] by simp
qed (simp_all add: inv inv_send inv_advance)

lemma worker_step_inv:
  assumes "worker_step env kind s t" and inv: "pipe_inv env chunks s"
  shows "pipe_inv env chunks t"
  using assms(1)
  by (cases rule: worker_step.cases)
    (simp_all add: inv inv_receive inv_probe inv_refuse inv_probe_end inv_probe_panic inv_deliver inv_late_panic
      inv_worker_stop inv_drain inv_worker_exit)

lemma loop_step_inv:
  assumes "loop_step write_op flush_op env s t" and inv: "pipe_inv env chunks s"
  shows "pipe_inv env chunks t"
  using assms(1)
proof (cases rule: loop_step.cases)
  case (accept r rs e c)
  show ?thesis unfolding accept(1) by (rule inv_accept [OF inv accept(2,3)])
qed (simp_all add: inv inv_collect inv_flags)

lemma step_inv:
  assumes "pipe_step write_op flush_op env kind s t" and inv: "pipe_inv env chunks s"
  shows "pipe_inv env chunks t"
  using assms(1)
  by (cases rule: pipe_step.cases) (simp_all add: inv dispatch_step_inv worker_step_inv loop_step_inv inv_flags)

lemma start_inv:
  assumes "kept outs []" and "taken outs []" and "length (env_runtimes env) = length chunks"
    and "\<forall>ch \<in> set chunks. 0 \<le> NextIndex ch"
  shows "pipe_inv env chunks (start_pipeline outs chunks n)"
proof -
  let ?s = "start_pipeline outs chunks n" and ?ts = "map newChunkStateTracker chunks"
  have none: "held (replicate n Idle) = {#}" by (simp add: held_def)
  have tasks: "tasks_of ?s = {#}" "pl_resultCh ?s = []" by (simp_all add: tasks_of_def start_pipeline_def none)
  have cur: "cursors (trackers (pl_committer ?s)) = map (\<lambda>ch. (NextIndex ch, TotalCount ch, chunkCIDR ch)) chunks"
    by (simp add: start_pipeline_def newOutputCommitter_def cursors_def cursor_def newChunkStateTracker_def)
  have "cursor_ok chunks (start_index chunks) (AtChunk 0) (cursors (trackers (pl_committer ?s)))"
    unfolding cur by (simp add: cursor_ok_def next_is_def past_def start_index_def total_of_def)
  moreover have "good (length chunks) (\<lambda>k. ScannedCount (chunks ! k)) (marks_of []) (pl_committer ?s) [] [] []"
    using assms(1,2) tracks_new
    by (auto simp: good_def committer_inv_def start_pipeline_def newOutputCommitter_def pending_ok_def
        newChunkStateTracker_def tracks_def)
  then have "accounted env chunks ?s (start_index chunks) [] [] [] []"
    by (simp add: accounted_def in_flight_def tasks dispatched_def)
  moreover have "tasks_valid env chunks ?s"
    unfolding tasks_valid_def tasks by (simp add: start_pipeline_def)
  moreover have "quiet ?s []" "exits_ok ?s" "pl_dispatcher ?s = AtChunk 0"
    by (simp_all add: quiet_def exits_ok_def start_pipeline_def newOutputCommitter_def)
  moreover have "\<forall>k < length chunks. 0 \<le> start_index chunks k"
    using assms(4) by (simp add: start_index_def)
  ultimately show ?thesis
    using assms(3) unfolding pipe_inv_def by metis
qed

lemma reachable_inv:
  assumes "reachable write_op flush_op env s0 s" and "pipe_inv env chunks s0"
  shows "pipe_inv env chunks s"
  using assms by induction (auto intro: step_inv)

end

end
