(* ===== verification/ScanEnd.thy ===== *)
theory ScanEnd
  imports ScanPipeline
begin

text \<open>
  The end of a scan: what the trackers, the result files and the saved chunk cursors hold once the
  result loop of \<open>ScanPipeline\<close> has returned and the committer has finished.
\<close>

section \<open>When the loop has finished\<close>

lemma finished_in_flight:
  assumes "loop_finished s"
  shows "in_flight s = image_mset task_id (mset (pl_lost s))"
proof -
  have "held ws = {#}" if "set ws \<subseteq> {Exited}" for ws
    using that by (induction ws) (auto simp: held_def)
  then show ?thesis
    using assms by (simp add: loop_finished_def in_flight_def tasks_of_def)
qed

lemma next_le_sent:
  assumes "cursor_ok chunks sent d cs" and "k < length chunks" and "dispatch_ended d"
  shows "fst (cs ! k) \<le> sent k" and "d \<noteq> DispatchPanicked \<Longrightarrow> fst (cs ! k) = sent k"
  using assms next_isD [of chunks sent cs UNIV k] by (auto simp: cursor_ok_def dispatch_ended_def)

lemma mset_subseteq_mset_setD: "mset xs \<subseteq># mset_set A \<Longrightarrow> distinct xs"
proof -
  assume sub: "mset xs \<subseteq># mset_set A"
  have "count (mset_set A) x \<le> 1" for x
    by (simp add: count_mset_set')
  then have "count (mset xs) x \<le> 1" for x
    using mset_subset_eq_count [OF sub] order_trans by blast
  then have "\<forall>x. count (mset xs) x = (if x \<in> set xs then 1 else 0)"
    by (simp add: count_mset_0_iff le_Suc_eq)
  then show ?thesis by (simp add: distinct_count_atmost_1)
qed

lemma mset_set_disjoint:
  assumes "A + B = mset_set D"
  shows "set_mset A \<inter> set_mset B = {}"
proof -
  have "count A x + count B x \<le> 1" for x
    using arg_cong [OF assms, of "\<lambda>M. count M x"] by (simp add: count_mset_set')
  then have "\<not> (x \<in># A \<and> x \<in># B)" for x
    by (metis add_le_cancel_left add_leD1 count_greater_eq_one_iff le_add_same_cancel1 nat_1_add_1 not_one_le_zero numeral_le_one_iff order_trans add_mono semiring_norm(69))
  then show ?thesis by blast
qed

lemma count_chunk:
  "size (filter_mset (\<lambda>p. fst p = k) (image_mset result_id (mset rs))) = length (of_chunk k rs)"
  by (induction rs) (auto simp: result_id_def)

lemma dispatched_chunk:
  assumes "k < length chunks" and "start_index chunks k \<le> sent k"
  shows "size (filter_mset (\<lambda>p. fst p = k) (mset_set (dispatched chunks sent))) = nat (sent k - start_index chunks k)"
proof -
  have "filter_mset (\<lambda>p. fst p = k) (mset_set (dispatched chunks sent)) =
      mset_set (Pair k ` {start_index chunks k..<sent k})"
    using assms(1) by (subst filter_mset_mset_set) (auto simp: dispatched_def intro!: arg_cong [of _ _ mset_set])
  then show ?thesis
    by (simp add: card_image inj_on_def)
qed

lemma in_unwritten: "r \<in> set rs \<Longrightarrow> res_taskIdx r \<in> unwritten (res_chunkIdx r) rs"
  by (auto simp: unwritten_def of_chunk_def)

definition final_committer :: "('o \<Rightarrow> bool \<times> 'o) \<Rightarrow> 'o pipeline \<Rightarrow> 'o outputCommitter" where
  "final_committer flush_op s = snd (committer_Finish flush_op (pl_committer s))"

lemma saved_chunks_nth:
  "k < length (trackers (final_committer flush_op s)) \<Longrightarrow>
   saved_chunks flush_op s ! k = tr_chunk (snd (RewindUnwritten (trackers (final_committer flush_op s) ! k)))"
  by (simp add: saved_chunks_def final_committer_def)

context commit_sink
begin

abbreviation lost_ids :: "'x pipeline \<Rightarrow> (nat \<times> int) set" where
  "lost_ids s \<equiv> task_id ` set (pl_lost s)"

text \<open>The state after the loop: what is committed, and the tasks \<open>U k\<close> of chunk \<open>k\<close> that are not\<close>

lemma final_state:
  assumes inv: "pipe_inv env chunks s" and fin: "loop_finished s"
  shows "\<exists>sent C U.
    cursor_ok chunks sent (pl_dispatcher s) (cursors (trackers (final_committer flush_op s))) \<and>
    kept (outputs (final_committer flush_op s)) (map res_record C) \<and>
    (\<forall>r \<in> set C. result_ok env chunks r) \<and> distinct (map result_id C) \<and> result_id ` set C \<inter> lost_ids s = {} \<and>
    lost_ids s \<subseteq> dispatched chunks sent \<and>
    (\<forall>r \<in> set C. start_index chunks (res_chunkIdx r) \<le> res_taskIdx r) \<and>
    summary (final_committer flush_op s) = summary_of (map result_status C) \<and>
    (\<not> failed (final_committer flush_op s) \<longrightarrow> taken (outputs (final_committer flush_op s)) (map res_record C)) \<and>
    length (trackers (final_committer flush_op s)) = length chunks \<and>
    (\<forall>k < length chunks.
      tracks (trackers (final_committer flush_op s) ! k) (U k) \<and>
      (\<forall>i. start_index chunks k \<le> i \<and> i < sent k \<longrightarrow> (k, i) \<in> result_id ` set C \<or> i \<in> U k \<or> (k, i) \<in> lost_ids s) \<and>
      (\<forall>i \<in> U k. start_index chunks k \<le> i \<and> i < sent k \<and> (k, i) \<notin> lost_ids s) \<and>
      ScannedCount (tr_chunk (trackers (final_committer flush_op s) ! k)) =
        ScannedCount (chunks ! k) + int (length (of_chunk k C)) \<and>
      (U k = {} \<and> pl_lost s = [] \<longrightarrow> int (length (of_chunk k C)) = sent k - start_index chunks k)) \<and>
    (\<not> executor_stopped s \<and> fst (committer_Finish flush_op (pl_committer s)) = None \<longrightarrow> (\<forall>k. U k = {}))"
proof -
  obtain sent committed pend refused marked where
    a: "cursor_ok chunks sent (pl_dispatcher s) (cursors (trackers (pl_committer s)))"
    "accounted env chunks s sent committed pend refused marked" "quiet s marked"
    using inv by (auto simp: pipe_inv_def)
  let ?n = "length chunks" and ?base = "\<lambda>k. ScannedCount (chunks ! k)"
  define c where "c = final_committer flush_op s"
  obtain e where finish: "committer_Finish flush_op (pl_committer s) = (e, c)"
    by (metis c_def final_committer_def prod.collapse)
  have g: "good ?n ?base (marks_of marked) (pl_committer s) committed pend refused"
    using a(2) by (simp add: accounted_def)
  obtain C R where CR: "committed @ pend @ refused = C @ R" "kept (outputs c) (map res_record C)"
    "length (trackers c) = ?n" "\<forall>k < ?n. ScannedCount (tr_chunk (trackers c ! k)) = ?base k + int (length (of_chunk k C)) \<and>
      tracks (trackers c ! k) (marks_of marked k \<union> unwritten k R)" "\<not> failed c \<longrightarrow> R = []"
    "summary c = summary_of (map result_status C)" "\<not> failed c \<longrightarrow> taken (outputs c) (map res_record C)"
  proof (cases "failed c")
    case True
    then have "good ?n ?base (marks_of marked) c committed pend refused"
      using finish_good [OF g finish] by blast
    then show ?thesis
      using that [of committed "pend @ refused"] True by (simp add: good_def committer_inv_def)
  next
    case False
    then have "good ?n ?base (marks_of marked) c (committed @ pend @ refused) [] []"
      using finish_good [OF g finish] by blast
    then show ?thesis
      using that [of "committed @ pend @ refused" "[]"] False by (simp add: good_def committer_inv_def)
  qed
  let ?D = "mset_set (dispatched chunks sent)"
  have ids: "image_mset result_id (mset C) + image_mset result_id (mset R) + mset marked + image_mset task_id (mset (pl_lost s)) = ?D"
    using a(2) finished_in_flight [OF fin] by (simp add: accounted_def CR(1) ac_simps)
  let ?U = "\<lambda>k. marks_of marked k \<union> unwritten k R"
  have members: "result_id ` set C \<union> result_id ` set R \<union> set marked \<union> lost_ids s = dispatched chunks sent"
    using arg_cong [OF ids, of set_mset] by simp
  have apart: "(result_id ` set C \<union> result_id ` set R \<union> set marked) \<inter> lost_ids s = {}"
    using mset_set_disjoint [OF ids] by simp
  have U: "start_index chunks k \<le> i \<and> i < sent k \<and> (k, i) \<notin> lost_ids s" if "i \<in> ?U k" for k i
  proof -
    have "(k, i) \<in> result_id ` set R \<union> set marked"
      using that by (force simp: unwritten_def of_chunk_def result_id_def)
    then have "(k, i) \<in> dispatched chunks sent" "(k, i) \<notin> lost_ids s" using members apart by blast+
    then show ?thesis by (simp add: dispatched_def)
  qed
  have "image_mset result_id (mset C) \<subseteq># ?D"
    using ids by (metis add.assoc mset_subset_eq_add_left)
  then have dist: "distinct (map result_id C)"
    using mset_subseteq_mset_setD by (metis mset_map)
  have cover: "(k, i) \<in> result_id ` set C \<or> i \<in> ?U k \<or> (k, i) \<in> lost_ids s"
    if "k < ?n" "start_index chunks k \<le> i" "i < sent k" for k i
  proof -
    have "(k, i) \<in> result_id ` set C \<union> result_id ` set R \<union> set marked \<union> lost_ids s"
      unfolding members using that by (simp add: dispatched_def)
    then show ?thesis
      using in_unwritten [of _ R] by (auto simp: result_id_def)
  qed
  have counts: "int (length (of_chunk k C)) = sent k - start_index chunks k" if k: "k < ?n" and none: "?U k = {}" "pl_lost s = []" for k
  proof -
    have "of_chunk k R = []" using none(1) by (auto simp: unwritten_def)
    moreover have "filter (\<lambda>p. fst p = k) marked = []" using none(1) by (auto simp: filter_empty_conv)
    ultimately have "length (of_chunk k C) = size (filter_mset (\<lambda>p. fst p = k) ?D)"
      unfolding ids [symmetric] by (simp add: none(2) count_chunk flip: mset_filter)
    moreover have "start_index chunks k \<le> sent k" using a(1) k by (simp add: cursor_ok_def)
    ultimately show ?thesis using dispatched_chunk [OF k, of sent] by simp
  qed
  have clean: "?U k = {}" if "\<not> executor_stopped s" "e = None" for k
  proof -
    have "marked = []" "\<not> failed (pl_committer s)" using a(3) that(1) by (auto simp: quiet_def executor_stopped_def)
    moreover have "\<not> failed c"
      using finish that(2) \<open>\<not> failed (pl_committer s)\<close>
      by (auto simp: committer_Finish_def committer_commit_def committer_fail_def Let_def split: if_splits prod.splits)
    ultimately show ?thesis using CR(5) by simp
  qed
  have cur: "cursors (trackers c) = cursors (trackers (pl_committer s))"
    using cursors_Finish [of flush_op "pl_committer s"] finish by simp
  have ok: "\<forall>r \<in> set C. result_ok env chunks r"
    using a(2) CR(1) by (auto simp: accounted_def)
  have low: "start_index chunks (res_chunkIdx r) \<le> res_taskIdx r" if "r \<in> set C" for r
    using members that by (force simp: dispatched_def result_id_def)
  show ?thesis
    unfolding c_def [symmetric]
  proof (intro exI [of _ sent] exI [of _ C] exI [of _ ?U] conjI)
    show "cursor_ok chunks sent (pl_dispatcher s) (cursors (trackers c))" using a(1) cur by simp
    show "\<not> executor_stopped s \<and> fst (committer_Finish flush_op (pl_committer s)) = None \<longrightarrow> (\<forall>k. ?U k = {})"
      using clean finish by simp
    show "\<forall>k < ?n. tracks (trackers c ! k) (?U k) \<and>
      (\<forall>i. start_index chunks k \<le> i \<and> i < sent k \<longrightarrow> (k, i) \<in> result_id ` set C \<or> i \<in> ?U k \<or> (k, i) \<in> lost_ids s) \<and>
      (\<forall>i \<in> ?U k. start_index chunks k \<le> i \<and> i < sent k \<and> (k, i) \<notin> lost_ids s) \<and>
      ScannedCount (tr_chunk (trackers c ! k)) = ScannedCount (chunks ! k) + int (length (of_chunk k C)) \<and>
      (?U k = {} \<and> pl_lost s = [] \<longrightarrow> int (length (of_chunk k C)) = sent k - start_index chunks k)"
      using CR(4) cover U counts by auto
  qed (use CR ok dist low apart members in auto)
qed

lemma saved_state:
  assumes inv: "pipe_inv env chunks s" and fin: "loop_finished s" and lost: "pl_lost s = []"
  shows "\<exists>C. kept (outputs (final_committer flush_op s)) (map res_record C) \<and>
    (\<forall>r \<in> set C. result_ok env chunks r) \<and> distinct (map result_id C) \<and>
    (\<forall>r \<in> set C. start_index chunks (res_chunkIdx r) \<le> res_taskIdx r) \<and>
    summary (final_committer flush_op s) = summary_of (map result_status C) \<and>
    (\<not> failed (final_committer flush_op s) \<longrightarrow> taken (outputs (final_committer flush_op s)) (map res_record C)) \<and>
    (\<forall>k < length chunks. \<forall>i. start_index chunks k \<le> i \<and> i < NextIndex (saved_chunks flush_op s ! k) \<longrightarrow>
      (k, i) \<in> result_id ` set C) \<and>
    (\<forall>k < length chunks. TotalCount (saved_chunks flush_op s ! k) = total_of chunks k \<and>
      (ScannedCount (chunks ! k) = NextIndex (chunks ! k) \<longrightarrow> (\<forall>i. start_index chunks k \<le> i \<and>
        i < ScannedCount (saved_chunks flush_op s ! k) \<longrightarrow> (k, i) \<in> result_id ` set C))) \<and>
    (pl_dispatcher s \<noteq> DispatchPanicked \<longrightarrow>
      (\<forall>k < length chunks. ScannedCount (chunks ! k) = NextIndex (chunks ! k) \<longrightarrow>
        ScannedCount (saved_chunks flush_op s ! k) = NextIndex (saved_chunks flush_op s ! k))) \<and>
    (pl_dispatcher s = DispatchDone \<and> \<not> executor_stopped s \<and> fst (committer_Finish flush_op (pl_committer s)) = None \<longrightarrow>
      (\<forall>k < length chunks. total_of chunks k \<le> NextIndex (saved_chunks flush_op s ! k)))"
proof -
  define c where "c = final_committer flush_op s"
  obtain sent C U where f:
    "cursor_ok chunks sent (pl_dispatcher s) (cursors (trackers c))" "kept (outputs c) (map res_record C)"
    "\<forall>r \<in> set C. result_ok env chunks r" "distinct (map result_id C)"
    "\<forall>r \<in> set C. start_index chunks (res_chunkIdx r) \<le> res_taskIdx r" "summary c = summary_of (map result_status C)"
    "\<not> failed c \<longrightarrow> taken (outputs c) (map res_record C)" "length (trackers c) = length chunks"
    and each: "\<forall>k < length chunks. tracks (trackers c ! k) (U k) \<and>
      (\<forall>i. start_index chunks k \<le> i \<and> i < sent k \<longrightarrow> (k, i) \<in> result_id ` set C \<or> i \<in> U k \<or> (k, i) \<in> lost_ids s) \<and>
      (\<forall>i \<in> U k. start_index chunks k \<le> i \<and> i < sent k \<and> (k, i) \<notin> lost_ids s) \<and>
      ScannedCount (tr_chunk (trackers c ! k)) = ScannedCount (chunks ! k) + int (length (of_chunk k C)) \<and>
      (U k = {} \<and> pl_lost s = [] \<longrightarrow> int (length (of_chunk k C)) = sent k - start_index chunks k)"
    and clean: "\<not> executor_stopped s \<and> fst (committer_Finish flush_op (pl_committer s)) = None \<longrightarrow> (\<forall>k. U k = {})"
    using final_state [OF inv fin, folded c_def] by (elim exE conjE) (rule that)
  have ended: "dispatch_ended (pl_dispatcher s)" using fin by (simp add: loop_finished_def)
  have chunk: "(start_index chunks k \<le> i \<longrightarrow> i < NextIndex (saved_chunks flush_op s ! k) \<longrightarrow> (k, i) \<in> result_id ` set C) \<and>
      TotalCount (saved_chunks flush_op s ! k) = total_of chunks k \<and>
      (ScannedCount (chunks ! k) = NextIndex (chunks ! k) \<longrightarrow> start_index chunks k \<le> i \<longrightarrow>
        i < ScannedCount (saved_chunks flush_op s ! k) \<longrightarrow> (k, i) \<in> result_id ` set C) \<and>
      (pl_dispatcher s \<noteq> DispatchPanicked \<longrightarrow> ScannedCount (chunks ! k) = NextIndex (chunks ! k) \<longrightarrow>
        ScannedCount (saved_chunks flush_op s ! k) = NextIndex (saved_chunks flush_op s ! k)) \<and>
      (pl_dispatcher s = DispatchDone \<and> U k = {} \<longrightarrow> total_of chunks k \<le> NextIndex (saved_chunks flush_op s ! k))"
    if k: "k < length chunks" for k i
  proof -
    let ?t = "trackers c ! k"
    have t: "tracks ?t (U k)" using each k by blast
    note rewound = RewindUnwritten_tracks [OF t]
    have saved: "saved_chunks flush_op s ! k = tr_chunk (snd (RewindUnwritten ?t))"
      using saved_chunks_nth [of k flush_op s] k f(8) by (simp add: c_def)
    have nx: "NextIndex (tr_chunk ?t) = fst (cursors (trackers c) ! k)"
      using k f(8) by (simp add: cursors_def cursor_def)
    have total: "TotalCount (tr_chunk ?t) = total_of chunks k"
      using f(1) k f(8) by (simp add: cursors_def cursor_def cursor_ok_def)
    show ?thesis
    proof (cases "U k = {}")
      case True
      have "ScannedCount (tr_chunk ?t) = ScannedCount (chunks ! k) + (sent k - start_index chunks k)"
        using each k True lost by auto
      moreover have "past chunks sent (length chunks)" if "pl_dispatcher s = DispatchDone"
        using f(1) that by (simp add: cursor_ok_def)
      ultimately show ?thesis
        using True each k lost next_le_sent [OF f(1) k ended] nx
        by (auto simp: saved rewound total start_index_def past_def)
    next
      case False
      then have least: "firstUnwritten ?t \<in> U k" "\<forall>m \<in> U k. firstUnwritten ?t \<le> m" using t by (auto simp: tracks_def)
      have below: "(k, i) \<in> result_id ` set C" if "start_index chunks k \<le> i" "i < firstUnwritten ?t"
      proof -
        have "i \<notin> U k" using least(2) that(2) by force
        moreover have "i < sent k" using each k least(1) that(2) by fastforce
        ultimately show ?thesis using each k that(1) lost by auto
      qed
      show ?thesis
        using False below by (simp add: saved rewound total)
    qed
  qed
  show ?thesis
    unfolding c_def [symmetric]
    using f(2-7) chunk clean by (intro exI [of _ C]) blast
qed

text \<open>A task that is lost is not marked, so the cursor is saved past it when it is the earliest.\<close>

lemma lost_state:
  assumes inv: "pipe_inv env chunks s" and fin: "loop_finished s" and "pl_dispatcher s \<noteq> DispatchPanicked"
    and t: "t \<in> set (pl_lost s)" "taskIdx t = start_index chunks (chunkIdx t)"
  shows "\<exists>C. (\<not> failed (final_committer flush_op s) \<longrightarrow> taken (outputs (final_committer flush_op s)) (map res_record C)) \<and>
    kept (outputs (final_committer flush_op s)) (map res_record C) \<and>
    task_id t \<notin> result_id ` set C \<and> taskIdx t < NextIndex (saved_chunks flush_op s ! chunkIdx t)"
proof -
  define c where "c = final_committer flush_op s"
  let ?k = "chunkIdx t"
  obtain sent C U where
    "cursor_ok chunks sent (pl_dispatcher s) (cursors (trackers c)) \<and> kept (outputs c) (map res_record C) \<and>
     (\<forall>r \<in> set C. result_ok env chunks r) \<and> distinct (map result_id C) \<and> result_id ` set C \<inter> lost_ids s = {} \<and>
     lost_ids s \<subseteq> dispatched chunks sent \<and>
     (\<forall>r \<in> set C. start_index chunks (res_chunkIdx r) \<le> res_taskIdx r) \<and>
     summary c = summary_of (map result_status C) \<and> (\<not> failed c \<longrightarrow> taken (outputs c) (map res_record C)) \<and>
     length (trackers c) = length chunks \<and>
     (\<forall>k < length chunks. tracks (trackers c ! k) (U k) \<and>
       (\<forall>i. start_index chunks k \<le> i \<and> i < sent k \<longrightarrow> (k, i) \<in> result_id ` set C \<or> i \<in> U k \<or> (k, i) \<in> lost_ids s) \<and>
       (\<forall>i \<in> U k. start_index chunks k \<le> i \<and> i < sent k \<and> (k, i) \<notin> lost_ids s) \<and>
       ScannedCount (tr_chunk (trackers c ! k)) = ScannedCount (chunks ! k) + int (length (of_chunk k C)) \<and>
       (U k = {} \<and> pl_lost s = [] \<longrightarrow> int (length (of_chunk k C)) = sent k - start_index chunks k))"
    using final_state [OF inv fin, folded c_def] by (elim exE conjE) (rule that, intro conjI; assumption)
  then have f: "cursor_ok chunks sent (pl_dispatcher s) (cursors (trackers c))" "kept (outputs c) (map res_record C)"
    "result_id ` set C \<inter> lost_ids s = {}" "lost_ids s \<subseteq> dispatched chunks sent"
    "\<not> failed c \<longrightarrow> taken (outputs c) (map res_record C)" "length (trackers c) = length chunks"
    and each: "\<forall>k < length chunks. tracks (trackers c ! k) (U k) \<and>
      (\<forall>i \<in> U k. start_index chunks k \<le> i \<and> i < sent k \<and> (k, i) \<notin> lost_ids s)"
    by simp_all
  have lost: "(?k, taskIdx t) \<in> lost_ids s" using t(1) by (force simp: task_id_def)
  then have k: "?k < length chunks" "taskIdx t < sent ?k" using f(4) by (auto simp: dispatched_def)
  have tr: "tracks (trackers c ! ?k) (U ?k)" using each k(1) by blast
  have "NextIndex (saved_chunks flush_op s ! ?k) =
      (if U ?k = {} then NextIndex (tr_chunk (trackers c ! ?k)) else firstUnwritten (trackers c ! ?k))"
    using saved_chunks_nth [of ?k flush_op s] k(1) f(6) RewindUnwritten_tracks(1) [OF tr] by (simp add: c_def)
  moreover have "NextIndex (tr_chunk (trackers c ! ?k)) = sent ?k"
    using next_le_sent(2) [OF f(1) k(1) _ assms(3)] fin k(1) f(6) by (simp add: loop_finished_def cursors_def cursor_def)
  moreover have "taskIdx t < firstUnwritten (trackers c ! ?k)" if "U ?k \<noteq> {}"
  proof -
    have "firstUnwritten (trackers c ! ?k) \<in> U ?k" using tr that by (auto simp: tracks_def)
    then have "start_index chunks ?k \<le> firstUnwritten (trackers c ! ?k)" "(?k, firstUnwritten (trackers c ! ?k)) \<notin> lost_ids s"
      using each k(1) by auto
    then show ?thesis using lost t(2) by (cases "firstUnwritten (trackers c ! ?k) = taskIdx t") auto
  qed
  ultimately have "taskIdx t < NextIndex (saved_chunks flush_op s ! ?k)" using k(2) by simp
  moreover have "task_id t \<notin> result_id ` set C" using f(3) t(1) by blast
  ultimately show ?thesis using f(2,5) unfolding c_def by blast
qed

end

lemma ScanTCP_target [simp]:
  "sr_IP (ScanTCP tbl goos text dial ip port) = ip" "sr_Port (ScanTCP tbl goos text dial ip port) = port"
  by (simp_all add: ScanTCP_def Let_def split: sum.split prod.split)

lemma result_ok_row:
  assumes "result_ok env chunks r"
  shows "\<exists>target. indexToChunkRuntimeTarget (Some (env_runtimes env ! res_chunkIdx r)) (res_taskIdx r) =
      Inr (target, r_Port (res_record r)) \<and> r_IP (res_record r) = t_ip target"
proof -
  obtain t res where t: "task_at env (chunkCIDR (chunks ! chunkIdx t)) (chunkIdx t) (taskIdx t) = Inr t"
    "possible_result env t res" "r = result_for t res"
    using assms by (auto simp: result_ok_def task_ok_def)
  have "sr_IP res = task_ip t" "sr_Port res = task_port t"
    using t(2) by (auto simp: possible_result_def)
  moreover obtain target port where at: "indexToChunkRuntimeTarget (Some (env_runtimes env ! chunkIdx t)) (taskIdx t) = Inr (target, port)"
    and eq: "\<lparr>chunkIdx = chunkIdx t, taskIdx = taskIdx t,
        task_ipCidr = defaultString (t_ipCidr target) (chunkCIDR (chunks ! chunkIdx t)),
        task_ip = t_ip target, task_port = port, task_meta = t_meta target\<rparr> = t"
    using t(1) by (auto simp: task_at_def try_bind_eq_Inr)
  moreover have "task_port t = port" "task_ip t = t_ip target"
    using arg_cong [OF eq, of task_port] arg_cong [OF eq, of task_ip] by simp_all
  ultimately show ?thesis
    using t(3) by (simp add: result_for_def recordFromScanTask_def)
qed

section \<open>What a snapshot may claim\<close>

lemma batch_reachable_inv:
  assumes "openBatchOutputsWithMode se oe appendMode True = Inr outs"
    and "length (env_runtimes env) = length chunks" and "\<forall>ch \<in> set chunks. 0 \<le> NextIndex ch"
    and "reachable (batch_write writer_Write) (batch_flush writer_Flush) env (start_pipeline outs chunks workers) s"
  shows "batch.pipe_inv (file_start appendMode se) (file_start appendMode oe) env chunks s"
  by (rule batch.reachable_inv [OF assms(4)
        batch.start_inv [OF batch_opened(2) [OF assms(1)] batch_opened(1) [OF assms(1)] assms(2,3)]])

lemma batch_saved_state:
  assumes "openBatchOutputsWithMode se oe appendMode True = Inr outs"
    and "length (env_runtimes env) = length chunks" and "\<forall>ch \<in> set chunks. 0 \<le> NextIndex ch"
    and "reachable (batch_write writer_Write) (batch_flush writer_Flush) env (start_pipeline outs chunks workers) s"
    and "loop_finished s" and "pl_lost s = []"
    and "final = final_committer (batch_flush writer_Flush) s" and "saved = saved_chunks (batch_flush writer_Flush) s"
  shows "\<exists>results.
    prefix (file_start appendMode se @ rows_bytes (map res_record results)) (cw_out (scanWriter (outputs final))) \<and>
    prefix (file_start appendMode oe @ rows_bytes (filter is_open (map res_record results)))
      (cw_out (the (openOnlyWriter (outputs final)))) \<and>
    distinct (map result_id results) \<and>
    (\<forall>r \<in> set results. result_ok env chunks r \<and> NextIndex (chunks ! res_chunkIdx r) \<le> res_taskIdx r) \<and>
    summary final = summary_of (map result_status results) \<and>
    (\<not> failed final \<longrightarrow>
      cw_out (scanWriter (outputs final)) = file_start appendMode se @ rows_bytes (map res_record results) \<and>
      cw_out (the (openOnlyWriter (outputs final))) =
        file_start appendMode oe @ rows_bytes (filter is_open (map res_record results))) \<and>
    (\<forall>k < length chunks. \<forall>i. NextIndex (chunks ! k) \<le> i \<and> i < NextIndex (saved ! k) \<longrightarrow>
      (\<exists>r \<in> set results. res_chunkIdx r = k \<and> res_taskIdx r = i \<and>
        (\<exists>target. indexToChunkRuntimeTarget (Some (env_runtimes env ! k)) i = Inr (target, r_Port (res_record r)) \<and>
           r_IP (res_record r) = t_ip target))) \<and>
    (\<forall>k < length chunks. TotalCount (saved ! k) = TotalCount (chunks ! k) \<and>
      (ScannedCount (chunks ! k) = NextIndex (chunks ! k) \<longrightarrow> (\<forall>i. NextIndex (chunks ! k) \<le> i \<and>
        i < ScannedCount (saved ! k) \<longrightarrow> (k, i) \<in> result_id ` set results))) \<and>
    (pl_dispatcher s \<noteq> DispatchPanicked \<longrightarrow>
      (\<forall>k < length chunks. ScannedCount (chunks ! k) = NextIndex (chunks ! k) \<longrightarrow>
        ScannedCount (saved ! k) = NextIndex (saved ! k))) \<and>
    (pl_dispatcher s = DispatchDone \<and> \<not> executor_stopped s \<and>
        fst (committer_Finish (batch_flush writer_Flush) (pl_committer s)) = None \<longrightarrow>
      (\<forall>k < length chunks. TotalCount (chunks ! k) \<le> NextIndex (saved ! k)))"
proof -
  obtain C where C:
    "batch_kept (file_start appendMode se) (file_start appendMode oe) (outputs final) (map res_record C)"
    "\<forall>r \<in> set C. result_ok env chunks r" "distinct (map result_id C)"
    "\<forall>r \<in> set C. start_index chunks (res_chunkIdx r) \<le> res_taskIdx r" "summary final = summary_of (map result_status C)"
    "\<not> failed final \<longrightarrow> batch_taken (file_start appendMode se) (file_start appendMode oe) (outputs final) (map res_record C)"
    "\<forall>k < length chunks. \<forall>i. start_index chunks k \<le> i \<and> i < NextIndex (saved ! k) \<longrightarrow> (k, i) \<in> result_id ` set C"
    "\<forall>k < length chunks. TotalCount (saved ! k) = total_of chunks k \<and>
      (ScannedCount (chunks ! k) = NextIndex (chunks ! k) \<longrightarrow> (\<forall>i. start_index chunks k \<le> i \<and>
        i < ScannedCount (saved ! k) \<longrightarrow> (k, i) \<in> result_id ` set C))"
    "pl_dispatcher s \<noteq> DispatchPanicked \<longrightarrow>
      (\<forall>k < length chunks. ScannedCount (chunks ! k) = NextIndex (chunks ! k) \<longrightarrow>
        ScannedCount (saved ! k) = NextIndex (saved ! k))"
    "pl_dispatcher s = DispatchDone \<and> \<not> executor_stopped s \<and>
        fst (committer_Finish (batch_flush writer_Flush) (pl_committer s)) = None \<longrightarrow>
      (\<forall>k < length chunks. total_of chunks k \<le> NextIndex (saved ! k))"
    using batch.saved_state [OF batch_reachable_inv [OF assms(1-4)] assms(5,6), folded assms(7,8)]
    by (elim exE conjE) (rule that)
  have row: "\<exists>r \<in> set C. res_chunkIdx r = k \<and> res_taskIdx r = i \<and>
        (\<exists>target. indexToChunkRuntimeTarget (Some (env_runtimes env ! k)) i = Inr (target, r_Port (res_record r)) \<and>
           r_IP (res_record r) = t_ip target)"
    if "k < length chunks" "NextIndex (chunks ! k) \<le> i" "i < NextIndex (saved ! k)" for k i
  proof -
    have "(k, i) \<in> result_id ` set C" using C(7) that by (simp add: start_index_def)
    then obtain r where "r \<in> set C" "res_chunkIdx r = k" "res_taskIdx r = i" by (auto simp: result_id_def)
    then show ?thesis using result_ok_row [of env chunks r] C(2) by blast
  qed
  show ?thesis
  proof (intro exI [of _ C] conjI)
    show "\<forall>k < length chunks. \<forall>i. NextIndex (chunks ! k) \<le> i \<and> i < NextIndex (saved ! k) \<longrightarrow>
      (\<exists>r \<in> set C. res_chunkIdx r = k \<and> res_taskIdx r = i \<and>
        (\<exists>target. indexToChunkRuntimeTarget (Some (env_runtimes env ! k)) i = Inr (target, r_Port (res_record r)) \<and>
           r_IP (res_record r) = t_ip target))" using row by blast
    show "\<not> failed final \<longrightarrow> cw_out (scanWriter (outputs final)) = file_start appendMode se @ rows_bytes (map res_record C) \<and>
      cw_out (the (openOnlyWriter (outputs final))) = file_start appendMode oe @ rows_bytes (filter is_open (map res_record C))"
      using C(1,6) by (auto simp: batch_kept_def batch_taken_def writer_accepted_def prefix_def)
  qed (use C(1-5,8-10) in \<open>simp_all add: batch_kept_def total_of_def start_index_def\<close>)
qed

end
