(* ===== verification/ScanProgress.thy ===== *)
theory ScanProgress
  imports ScanEnd
begin

text \<open>
  Why a scan comes to an end. Every step of \<open>pipe_step\<close> lowers a measure, so a run has a bounded
  length; and in a reachable state in which the result loop has not finished some goroutine can
  move without a fault, so nothing deadlocks, however many tasks, workers or errors there are.
  A scan that no fault disturbs ends with every task of every chunk in the result files.
\<close>

section \<open>The measure\<close>

definition chunk_work :: "Chunk list \<Rightarrow> nat \<Rightarrow> nat" where
  "chunk_work chunks k = 10 * nat (total_of chunks k - start_index chunks k) + 2"

definition later_work :: "Chunk list \<Rightarrow> nat \<Rightarrow> nat" where
  "later_work chunks k = (\<Sum>j = k..<length chunks. chunk_work chunks j)"

lemma later_work_step: "k < length chunks \<Longrightarrow> later_work chunks k = chunk_work chunks k + later_work chunks (k + 1)"
  by (simp add: later_work_def sum.atLeast_Suc_lessThan)

fun dispatch_work :: "Chunk list \<Rightarrow> dispatcher \<Rightarrow> nat" where
  "dispatch_work chunks (AtChunk k) = later_work chunks k + 1"
| "dispatch_work chunks (AtTask k i) = 10 * nat (total_of chunks k - i) + 2 + later_work chunks (k + 1)"
| "dispatch_work chunks (Sent k i) = 10 * nat (total_of chunks k - (i + 1)) + 3 + later_work chunks (k + 1)"
| "dispatch_work chunks _ = 0"

primrec worker_work :: "worker \<Rightarrow> nat" where
  "worker_work Idle = 2"
| "worker_work (Holding t) = 9"
| "worker_work (Probing t) = 8"
| "worker_work (Probed t res) = 7"
| "worker_work Draining = 1"
| "worker_work Exited = 0"

definition workers_work :: "worker list \<Rightarrow> nat" where
  "workers_work ws = sum_list (map worker_work ws)"

definition work_left :: "Chunk list \<Rightarrow> 'o pipeline \<Rightarrow> nat" where
  "work_left chunks s =
     dispatch_work chunks (pl_dispatcher s) + 8 * length (pl_taskCh s) + workers_work (pl_workers s) +
     4 * length (pl_resultCh s) + 3 * length (pl_abandonedCh s) +
     (if pl_fatal s then 1 else 0) + (if pl_canceled s then 0 else 1)"

lemma workers_work_update:
  "w < length ws \<Longrightarrow> workers_work (ws[w := x]) + worker_work (ws ! w) = workers_work ws + worker_work x"
  by (induction ws arbitrary: w) (auto simp: workers_work_def nth_Cons split: nat.splits)

lemma work_fields [simp]:
  "pl_dispatcher (advance_at k i s) = pl_dispatcher s" "pl_taskCh (advance_at k i s) = pl_taskCh s"
  "pl_workers (advance_at k i s) = pl_workers s" "pl_resultCh (advance_at k i s) = pl_resultCh s"
  "pl_abandonedCh (advance_at k i s) = pl_abandonedCh s" "pl_fatal (advance_at k i s) = pl_fatal s"
  "pl_canceled (advance_at k i s) = pl_canceled s" "pl_stopping (advance_at k i s) = pl_stopping s"
  "pl_lost (advance_at k i s) = pl_lost s"
  "pl_dispatcher (mark_at k i s) = pl_dispatcher s" "pl_taskCh (mark_at k i s) = pl_taskCh s"
  "pl_workers (mark_at k i s) = pl_workers s" "pl_resultCh (mark_at k i s) = pl_resultCh s"
  "pl_abandonedCh (mark_at k i s) = pl_abandonedCh s" "pl_fatal (mark_at k i s) = pl_fatal s"
  "pl_canceled (mark_at k i s) = pl_canceled s" "pl_stopping (mark_at k i s) = pl_stopping s"
  "pl_lost (mark_at k i s) = pl_lost s"
  by (simp_all add: advance_at_def mark_at_def)

definition cursor_fits :: "scan_env \<Rightarrow> Chunk list \<Rightarrow> 'o pipeline \<Rightarrow> bool" where
  "cursor_fits env chunks s \<longleftrightarrow>
     length (env_runtimes env) = length chunks \<and>
     (\<exists>sent. cursor_ok chunks sent (pl_dispatcher s) (cursors (trackers (pl_committer s))))"

lemma cursor_fits_chunk:
  assumes "cursor_fits env chunks s" and "k < length chunks"
  shows "TotalCount (chunk_of s k) = total_of chunks k" and "chunkCIDR (chunk_of s k) = chunkCIDR (chunks ! k)"
    and "pl_dispatcher s = AtChunk j \<Longrightarrow> start_index chunks k \<le> NextIndex (chunk_of s k)"
proof -
  obtain sent where ok: "cursor_ok chunks sent (pl_dispatcher s) (cursors (trackers (pl_committer s)))"
    using assms(1) by (auto simp: cursor_fits_def)
  note chunk = cursor_ok_chunk [OF ok assms(2)]
  show "TotalCount (chunk_of s k) = total_of chunks k" "chunkCIDR (chunk_of s k) = chunkCIDR (chunks ! k)"
    using chunk by simp_all
  show "start_index chunks k \<le> NextIndex (chunk_of s k)" if "pl_dispatcher s = AtChunk j"
    using ok that assms(2) chunk(1) by (auto simp: cursor_ok_def dest: next_isD)
qed

lemma cursor_fits_range:
  assumes "cursor_fits env chunks s"
  shows "pl_dispatcher s = AtTask k i \<Longrightarrow> k < length chunks \<and> start_index chunks k \<le> i"
    and "pl_dispatcher s = Sent k i \<Longrightarrow> k < length chunks"
  using assms by (auto simp: cursor_fits_def cursor_ok_def)

lemma dispatch_work_drops:
  assumes fits: "cursor_fits env chunks s"
  shows "pl_dispatcher s = AtChunk k \<Longrightarrow> k < length chunks \<Longrightarrow>
      dispatch_work chunks (AtChunk (k + 1)) < dispatch_work chunks (pl_dispatcher s)"
    and "pl_dispatcher s = AtChunk k \<Longrightarrow> k < length chunks \<Longrightarrow>
      dispatch_work chunks (AtTask k (NextIndex (chunk_of s k))) < dispatch_work chunks (pl_dispatcher s)"
    and "pl_dispatcher s = AtTask k i \<Longrightarrow>
      dispatch_work chunks (AtChunk (k + 1)) < dispatch_work chunks (pl_dispatcher s)"
    and "pl_dispatcher s = AtTask k i \<Longrightarrow> i < TotalCount (chunk_of s k) \<Longrightarrow>
      dispatch_work chunks (Sent k i) + 8 < dispatch_work chunks (pl_dispatcher s)"
    and "pl_dispatcher s = Sent k i \<Longrightarrow>
      dispatch_work chunks (AtTask k (i + 1)) < dispatch_work chunks (pl_dispatcher s)"
proof -
  show "dispatch_work chunks (AtChunk (k + 1)) < dispatch_work chunks (pl_dispatcher s)"
    if "pl_dispatcher s = AtChunk k" "k < length chunks"
    using that by (simp add: later_work_step chunk_work_def)
  show "dispatch_work chunks (AtTask k (NextIndex (chunk_of s k))) < dispatch_work chunks (pl_dispatcher s)"
    if "pl_dispatcher s = AtChunk k" "k < length chunks"
    using that cursor_fits_chunk(3) [OF fits that(2,1)] by (simp add: later_work_step chunk_work_def nat_mono)
  show "dispatch_work chunks (AtChunk (k + 1)) < dispatch_work chunks (pl_dispatcher s)"
    if "pl_dispatcher s = AtTask k i"
    using that by simp
  show "dispatch_work chunks (Sent k i) + 8 < dispatch_work chunks (pl_dispatcher s)"
    if "pl_dispatcher s = AtTask k i" "i < TotalCount (chunk_of s k)"
  proof -
    have "i < total_of chunks k"
      using that cursor_fits_chunk(1) [OF fits, of k] cursor_fits_range(1) [OF fits that(1)] by simp
    then have "nat (total_of chunks k - i) = Suc (nat (total_of chunks k - (i + 1)))" by linarith
    then show ?thesis using that(1) by simp
  qed
  show "dispatch_work chunks (AtTask k (i + 1)) < dispatch_work chunks (pl_dispatcher s)"
    if "pl_dispatcher s = Sent k i"
    using that by simp
qed

lemma dispatch_step_lowers_work:
  assumes "dispatch_step env kind s t" and fits: "cursor_fits env chunks s"
  shows "work_left chunks t < work_left chunks s"
proof -
  have n: "length (env_runtimes env) = length chunks" using fits by (simp add: cursor_fits_def)
  note drops = dispatch_work_drops [OF fits]
  have live: "0 < dispatch_work chunks d" if "\<not> dispatch_ended d" for d
    using that by (cases d) (simp_all add: dispatch_ended_def)
  show ?thesis
    using assms(1)
  proof (cases rule: dispatch_step.cases)
    case (chunk_idle k)
    then show ?thesis using drops(1) [of k] n by (simp add: work_left_def)
  next
    case (chunk_start k)
    then show ?thesis using drops(2) [of k] n by (simp add: work_left_def)
  next
    case (chunk_end k i)
    then show ?thesis using drops(3) [of k i] by (simp add: work_left_def)
  next
    case (dispatch_send k i task)
    then show ?thesis using drops(4) [of k i] by (simp add: work_left_def)
  next
    case (dispatch_advance k i)
    then show ?thesis using drops(5) [of k i] by (simp add: work_left_def)
  next
    case dispatch_panic
    then show ?thesis using live [of "pl_dispatcher s"] by (simp add: work_left_def)
  qed (auto simp: work_left_def)
qed

lemma worker_step_lowers_work:
  assumes "worker_step env kind s t"
  shows "work_left chunks t < work_left chunks s"
proof -
  note update = workers_work_update [of _ "pl_workers s"]
  show ?thesis
    using assms
  proof (cases rule: worker_step.cases)
    case (receive w task ts)
    then show ?thesis using update [of w "Holding task"] by (simp add: work_left_def)
  next
    case (probe w task)
    then show ?thesis using update [of w "Probing task"] by (simp add: work_left_def)
  next
    case (refuse w task)
    then show ?thesis using update [of w Idle] by (simp add: work_left_def)
  next
    case (probe_end w task res)
    then show ?thesis using update [of w "Probed task res"] by (simp add: work_left_def)
  next
    case (probe_panic w task)
    then show ?thesis using update [of w Draining] by (simp add: work_left_def)
  next
    case (deliver w task res)
    then show ?thesis using update [of w Idle] by (simp add: work_left_def)
  next
    case (late_panic w task res)
    then show ?thesis using update [of w Draining] by (simp add: work_left_def)
  next
    case (worker_stop w)
    then show ?thesis using update [of w Draining] by (simp add: work_left_def)
  next
    case (worker_exit w)
    then show ?thesis using update [of w Exited] by (auto simp: work_left_def)
  qed (auto simp: work_left_def)
qed

lemma loop_step_lowers_work:
  "loop_step write_op flush_op env s t \<Longrightarrow> work_left chunks t < work_left chunks s"
  by (erule loop_stepE) (auto simp: work_left_def)

lemma step_lowers_work:
  assumes "pipe_step write_op flush_op env kind s t" and "cursor_fits env chunks s"
  shows "work_left chunks t < work_left chunks s"
  using assms(1)
proof (cases rule: pipe_step.cases)
  case by_dispatcher
  then show ?thesis using dispatch_step_lowers_work assms(2) by blast
next
  case by_worker
  then show ?thesis by (rule worker_step_lowers_work)
next
  case by_loop
  then show ?thesis using loop_step_lowers_work by blast
qed (simp add: work_left_def)

section \<open>Some goroutine can always move\<close>

lemma worker_can_move:
  assumes w: "w < length (pl_workers s)" and "pl_workers s ! w \<noteq> Exited"
    and empty: "pl_resultCh s = []" "pl_abandonedCh s = []" and cap: "0 < env_capacity env"
    and busy: "pl_workers s ! w \<in> {Idle, Draining} \<Longrightarrow> pl_taskCh s \<noteq> [] \<or> dispatch_ended (pl_dispatcher s)"
  shows "\<exists>t. worker_step env Work s t"
proof (cases "pl_workers s ! w")
  case Idle
  then show ?thesis
  proof (cases "pl_taskCh s")
    case Nil
    then show ?thesis using worker_exit [of w s] w Idle busy by auto
  next
    case (Cons t ts)
    then show ?thesis using receive [OF w Idle Cons] by blast
  qed
next
  case (Holding t)
  then show ?thesis
    using probe [OF w Holding] refuse [OF w Holding] cap empty(2) by (cases "executor_stopped s") force+
next
  case (Probing t)
  have "possible_result env t (ScanTCP (env_errno env) (env_goos env) (env_text env) dial (task_ip t) (task_port t))" for dial
    unfolding possible_result_def by blast
  then show ?thesis using probe_end [OF w Probing] by blast
next
  case (Probed t res)
  then show ?thesis using deliver [OF w Probed] cap empty(1) by force
next
  case Draining
  then show ?thesis
  proof (cases "pl_taskCh s")
    case Nil
    then show ?thesis using worker_exit [of w s] w Draining busy by auto
  next
    case (Cons t ts)
    then show ?thesis using drain [OF w Draining Cons] cap empty(2) by force
  qed
qed (use assms(2) in simp)

lemma dispatcher_can_move:
  assumes "\<not> dispatch_ended (pl_dispatcher s)" and "pl_taskCh s = []" and "0 < env_capacity env"
  shows "\<exists>t. dispatch_step env Work s t"
proof (cases "pl_dispatcher s")
  case (AtChunk k)
  consider "length (env_runtimes env) \<le> k" | "k < length (env_runtimes env)" "NextIndex (chunk_of s k) \<ge> TotalCount (chunk_of s k)"
    | "k < length (env_runtimes env)" "NextIndex (chunk_of s k) < TotalCount (chunk_of s k)" by linarith
  then show ?thesis
    using dispatch_done [OF AtChunk] chunk_idle [OF AtChunk] chunk_start [OF AtChunk] by cases blast+
next
  case (AtTask k i)
  show ?thesis
  proof (cases "TotalCount (chunk_of s k) \<le> i")
    case True
    then show ?thesis using chunk_end [OF AtTask] by blast
  next
    case False
    then show ?thesis
      using dispatch_error [OF AtTask, of env] dispatch_send [OF AtTask, of env] assms(2,3)
      by (cases "task_at env (chunkCIDR (chunk_of s k)) k i") (simp; blast)+
  qed
next
  case (Sent k i)
  then show ?thesis using dispatch_advance by blast
qed (use assms(1) in \<open>simp_all add: dispatch_ended_def\<close>)

lemma can_move:
  assumes "\<not> loop_finished s" and "exits_ok s" and "pl_workers s \<noteq> []" and cap: "0 < env_capacity env"
  shows "\<exists>t. pipe_step write_op flush_op env Work s t"
proof (cases "pl_resultCh s = [] \<and> pl_abandonedCh s = [] \<and> \<not> pl_fatal s")
  case False
  then consider r rs where "pl_resultCh s = r # rs" | t ts where "pl_abandonedCh s = t # ts" | "pl_fatal s"
    by (auto simp: neq_Nil_conv)
  then show ?thesis
  proof cases
    case (1 r rs)
    obtain e c where "committer_Accept write_op flush_op (env_flushInterval env) (pl_committer s) r = (e, c)"
      by fastforce
    then show ?thesis using by_loop [OF accept [OF 1]] by blast
  qed (use by_loop [OF collect] by_loop [OF executor_error] in blast)+
next
  case True
  show ?thesis
  proof (cases "pl_taskCh s = [] \<and> \<not> dispatch_ended (pl_dispatcher s)")
    case True
    then show ?thesis using dispatcher_can_move cap by_dispatcher by blast
  next
    case busy: False
    have "\<exists>w < length (pl_workers s). pl_workers s ! w \<noteq> Exited"
    proof (rule ccontr)
      assume "\<not> ?thesis"
      then have all: "set (pl_workers s) \<subseteq> {Exited}" by (auto simp: in_set_conv_nth)
      then have "Exited \<in> set (pl_workers s)" using assms(3) by (cases "pl_workers s") auto
      then have "dispatch_ended (pl_dispatcher s) \<and> pl_taskCh s = []" using assms(2) by (simp add: exits_ok_def)
      then show False using assms(1) True all by (simp add: loop_finished_def)
    qed
    then show ?thesis using worker_can_move cap True busy by_worker by blast
  qed
qed

section \<open>Runs\<close>

text \<open>\<open>runs \<dots> kinds n s t\<close>: \<open>n\<close> steps of those kinds lead from \<open>s\<close> to \<open>t\<close>.\<close>

inductive runs ::
  "('o \<Rightarrow> Record \<Rightarrow> bool \<times> 'o) \<Rightarrow> ('o \<Rightarrow> bool \<times> 'o) \<Rightarrow> scan_env \<Rightarrow> step_kind set \<Rightarrow> nat \<Rightarrow> 'o pipeline \<Rightarrow> 'o pipeline \<Rightarrow> bool"
  for write_op flush_op env kinds
where
  runs_refl: "runs write_op flush_op env kinds 0 s s"
| runs_step: "runs write_op flush_op env kinds n s t \<Longrightarrow> kind \<in> kinds \<Longrightarrow> pipe_step write_op flush_op env kind t u \<Longrightarrow>
    runs write_op flush_op env kinds (Suc n) s u"

lemma runs_reachable:
  "runs write_op flush_op env kinds n s t \<Longrightarrow> reachable write_op flush_op env s0 s \<Longrightarrow> reachable write_op flush_op env s0 t"
  by (induction rule: runs.induct) (auto intro: reachable.step)

lemma runs_front:
  "runs write_op flush_op env kinds n t u \<Longrightarrow> kind \<in> kinds \<Longrightarrow> pipe_step write_op flush_op env kind s t \<Longrightarrow>
   runs write_op flush_op env kinds (Suc n) s u"
  by (induction rule: runs.induct) (auto intro: runs.intros)

lemma workers_stay:
  "pipe_step write_op flush_op env kind s t \<Longrightarrow> length (pl_workers t) = length (pl_workers s)"
  by (erule pipe_stepE; (erule dispatch_stepE worker_stepE loop_stepE)?; simp)

context commit_sink
begin

lemma pipe_inv_fits: "pipe_inv env chunks s \<Longrightarrow> cursor_fits env chunks s"
  by (auto simp: pipe_inv_def cursor_fits_def)

lemma runs_inv:
  "runs write_op flush_op env kinds n s t \<Longrightarrow> pipe_inv env chunks s \<Longrightarrow> pipe_inv env chunks t"
  by (induction rule: runs.induct) (auto intro: step_inv)

lemma runs_bounded:
  "runs write_op flush_op env kinds n s t \<Longrightarrow> pipe_inv env chunks s \<Longrightarrow> n + work_left chunks t \<le> work_left chunks s"
proof (induction rule: runs.induct)
  case (runs_step n s t kind u)
  then have "work_left chunks u < work_left chunks t"
    using step_lowers_work pipe_inv_fits runs_inv by blast
  then show ?case using runs_step by simp
qed simp

lemma finishes:
  assumes "pipe_inv env chunks s" and "pl_workers s \<noteq> []" and cap: "0 < env_capacity env"
  shows "\<exists>n t. runs write_op flush_op env {Work} n s t \<and> loop_finished t"
  using assms(1,2)
proof (induction "work_left chunks s" arbitrary: s rule: less_induct)
  case less
  show ?case
  proof (cases "loop_finished s")
    case True
    then show ?thesis using runs_refl by blast
  next
    case False
    have "exits_ok s" using less.prems(1) by (simp add: pipe_inv_def)
    then obtain t where t: "pipe_step write_op flush_op env Work s t"
      using can_move [OF False _ less.prems(2) cap] by blast
    have "pl_workers t \<noteq> []" using workers_stay [OF t] less.prems(2) by auto
    then obtain n u where "runs write_op flush_op env {Work} n t u" "loop_finished u"
      using less.hyps [OF step_lowers_work [OF t pipe_inv_fits [OF less.prems(1)]] step_inv [OF t less.prems(1)]] by blast
    then show ?thesis using runs_front [OF _ _ t] by blast
  qed
qed

end

lemma start_work:
  "work_left chunks (start_pipeline outs chunks n) =
     10 * (\<Sum>ch \<leftarrow> chunks. nat (TotalCount ch - NextIndex ch)) + 2 * length chunks + 2 * n + 2"
proof -
  have "later_work chunks 0 = (\<Sum>k < length chunks. chunk_work chunks k)"
    by (simp add: later_work_def atLeast0LessThan)
  also have "\<dots> = (\<Sum>ch \<leftarrow> chunks. 10 * nat (TotalCount ch - NextIndex ch) + 2)"
    by (simp add: chunk_work_def total_of_def start_index_def sum_list_sum_nth atLeast0LessThan)
  also have "\<dots> = 10 * (\<Sum>ch \<leftarrow> chunks. nat (TotalCount ch - NextIndex ch)) + 2 * length chunks"
    by (induction chunks) simp_all
  finally show ?thesis
    by (simp add: work_left_def start_pipeline_def workers_work_def sum_list_replicate)
qed

text \<open>Property C2. A scan always ends. From the start a run, with whatever faults, has at most
  10 steps for each task still to do, 2 for each chunk and each worker and 2 more; and whatever
  state it has come to, the goroutines can bring it to its end by themselves: no deadlock between
  the bounded channels, for any worker count.\<close>

theorem scan_always_ends:
  assumes "openBatchOutputsWithMode se oe appendMode True = Inr outs"
    and "length (env_runtimes env) = length chunks" and "\<forall>ch \<in> set chunks. 0 \<le> NextIndex ch"
    and "env_capacity env = nat (queueCapacityFor workers)"
    and "runs (batch_write writer_Write) (batch_flush writer_Flush) env UNIV n
           (start_pipeline outs chunks (nat (effectiveWorkerCount workers))) s"
  shows "n \<le> 10 * (\<Sum>ch \<leftarrow> chunks. nat (TotalCount ch - NextIndex ch)) + 2 * length chunks +
        2 * nat (effectiveWorkerCount workers) + 2 \<and>
    (\<exists>m t. runs (batch_write writer_Write) (batch_flush writer_Flush) env {Work} m s t \<and> loop_finished t)"
proof -
  let ?s0 = "start_pipeline outs chunks (nat (effectiveWorkerCount workers))"
  let ?S = "file_start appendMode se" and ?S' = "file_start appendMode oe"
  have inv: "batch.pipe_inv ?S ?S' env chunks ?s0"
    by (rule batch.start_inv [OF batch_opened(2) [OF assms(1)] batch_opened(1) [OF assms(1)] assms(2,3)])
  have "length (pl_workers s) = length (pl_workers ?s0)"
    using assms(5) by (induction rule: runs.induct) (simp_all add: workers_stay)
  then have "pl_workers s \<noteq> []"
    by (auto simp: start_pipeline_def effectiveWorkerCount_def MaxWorkers_def split: if_splits)
  moreover have "0 < env_capacity env"
    unfolding assms(4) using queueCapacityFor_bounds [of workers] by simp
  ultimately show ?thesis
    using batch.runs_bounded [OF assms(5) inv] batch.finishes [OF batch.runs_inv [OF assms(5) inv]] start_work [of chunks outs]
    by simp
qed

section \<open>A scan that nothing disturbs\<close>

definition targets_fit :: "scan_env \<Rightarrow> Chunk list \<Rightarrow> bool" where
  "targets_fit env chunks \<longleftrightarrow>
     length (env_runtimes env) = length chunks \<and>
     (\<forall>k < length chunks. runtime_ok (env_runtimes env ! k) \<and> 0 \<le> NextIndex (chunks ! k) \<and>
        TotalCount (chunks ! k) = int (length (runtime_plan (env_runtimes env ! k))))"

lemma task_at_range:
  assumes "targets_fit env chunks" and "k < length chunks"
  shows "(\<exists>t. task_at env cidr k i = Inr t) \<longleftrightarrow> 0 \<le> i \<and> i < TotalCount (chunks ! k)"
proof -
  let ?rt = "env_runtimes env ! k"
  have rt: "runtime_ok ?rt" and total: "TotalCount (chunks ! k) = int (length (runtime_plan ?rt))"
    using assms by (simp_all add: targets_fit_def)
  show ?thesis
  proof (cases "0 \<le> i \<and> i < TotalCount (chunks ! k)")
    case True
    then have "indexToChunkRuntimeTarget (Some ?rt) i = Inr (runtime_plan ?rt ! nat i)"
      using indexToChunkRuntimeTarget_plan [OF rt] total by simp
    then show ?thesis using True by (auto simp: task_at_def split: prod.split)
  next
    case False
    then obtain e where "indexToChunkRuntimeTarget (Some ?rt) i = Inl e"
      using indexToChunkRuntimeTarget_outside [OF rt, of i] total by auto
    then show ?thesis using False by (auto simp: task_at_def)
  qed
qed

lemma accept_error_failed:
  "committer_Accept write_op flush_op n c r = (e, c') \<Longrightarrow> e \<noteq> None \<Longrightarrow> failed c'"
  by (auto simp: committer_Accept_def committer_commit_def committer_fail_def Let_def split: if_splits prod.splits)

definition undisturbed :: "CSVWriter batchOutputs pipeline \<Rightarrow> bool" where
  "undisturbed s \<longleftrightarrow>
     \<not> executor_stopped s \<and> \<not> pl_fatal s \<and> pl_lost s = [] \<and> \<not> failed (pl_committer s) \<and>
     healthy_batch_out (outputs (pl_committer s)) \<and> pl_dispatcher s \<notin> {DispatchStopped, DispatchPanicked}"

lemma undisturbed_dispatch_step:
  assumes "dispatch_step env Work s t"
    and fit: "targets_fit env chunks" and cur: "cursor_fits env chunks s" and un: "undisturbed s"
  shows "undisturbed t"
  using assms(1)
proof (cases rule: dispatch_step.cases)
  case (dispatch_error k i e)
  have k: "k < length chunks" "start_index chunks k \<le> i" using cursor_fits_range(1) [OF cur dispatch_error(2)] by simp_all
  moreover have "0 \<le> start_index chunks k" using fit k by (simp add: targets_fit_def start_index_def)
  ultimately have "\<exists>t. task_at env (chunkCIDR (chunk_of s k)) k i = Inr t"
    using dispatch_error(3) task_at_range [OF fit k(1)] cursor_fits_chunk(1) [OF cur k(1)] by (simp add: total_of_def)
  then show ?thesis using dispatch_error(4) by simp
qed (use un in \<open>auto simp: undisturbed_def executor_stopped_def advance_at_def\<close>)

lemma undisturbed_worker_step:
  assumes "worker_step env Work s t" and un: "undisturbed s"
  shows "undisturbed t"
  using assms(1) by (cases rule: worker_step.cases) (use un in \<open>auto simp: undisturbed_def executor_stopped_def\<close>)

lemma undisturbed_loop_step:
  assumes "loop_step (batch_write writer_Write) (batch_flush writer_Flush) env s t" and un: "undisturbed s"
  shows "undisturbed t"
  using assms(1)
proof (cases rule: loop_step.cases)
  case (accept r rs e c)
  have "healthy_batch_out (outputs c) \<and> \<not> failed c"
    using healthy_accept [of "pl_committer s" "env_flushInterval env" r] un accept(3) by (simp add: undisturbed_def)
  moreover from this have "e = None"
    using accept_error_failed [OF accept(3)] by blast
  ultimately show ?thesis
    using accept un by (simp add: undisturbed_def executor_stopped_def)
qed (use un in \<open>auto simp: undisturbed_def executor_stopped_def mark_at_def\<close>)

lemma undisturbed_step:
  assumes "pipe_step (batch_write writer_Write) (batch_flush writer_Flush) env Work s t"
    and "targets_fit env chunks" and "cursor_fits env chunks s" and "undisturbed s"
  shows "undisturbed t"
  using assms(1)
  by (cases rule: pipe_step.cases)
    (use undisturbed_dispatch_step undisturbed_worker_step undisturbed_loop_step assms(2-4) in blast)+

lemma undisturbed_runs:
  assumes "runs (batch_write writer_Write) (batch_flush writer_Flush) env {Work} n s t"
    and "batch.pipe_inv S S' env chunks s" and "targets_fit env chunks" and "undisturbed s"
  shows "undisturbed t"
  using assms
proof (induction rule: runs.induct)
  case (runs_step n s t kind u)
  then show ?case
    using undisturbed_step batch.pipe_inv_fits batch.runs_inv by blast
qed

lemma opened_healthy:
  assumes "openBatchOutputsWithMode (fine_env a) (fine_env b) appendMode True = Inr outs"
  shows "healthy_batch_out outs"
  using assms healthy_open
  by (auto simp: openBatchOutputsWithMode_def try_bind_eq_Inr fine_env_def healthy_batch_out_def)

lemma undisturbed_finish:
  assumes "undisturbed s"
  shows "fst (committer_Finish (batch_flush writer_Flush) (pl_committer s)) = None \<and>
    \<not> failed (final_committer (batch_flush writer_Flush) s)"
  using assms healthy_commit [of "pl_committer s"] healthy_batch_steps(2) [of "outputs (pl_committer s)"]
  by (auto simp: undisturbed_def final_committer_def committer_Finish_def committer_commit_def Let_def)


section \<open>A scan\<close>

definition sample_env :: scan_env where
  "sample_env = \<lparr>env_runtimes = [sample_runtime], env_capacity = nat (queueCapacityFor 2), env_flushInterval = 1,
     env_errno = linux_errno, env_goos = ''linux'', env_text = (\<lambda>_. ''dial'')\<rparr>"

lemma sample_targets_fit: "targets_fit sample_env [sample_chunk 4]"
  by (simp add: targets_fit_def sample_env_def sample_chunk_def sample_runtime_def runtime_ok_def runtime_plan_def)

lemma sample_opens: "\<exists>outs. openBatchOutputsWithMode (fine_env None) (fine_env None) False True = Inr outs"
proof -
  have fresh: "openResultCSV True (fe_content (fine_env None)) False = Inr ([], True)"
    by (simp add: openResultCSV_def)
  show ?thesis using healthy_session [OF fresh _ fresh, of True "[]"] by (auto simp: fine_env_def)
qed

theorem scan_always_ends_witness:
  "\<exists>outs m t. openBatchOutputsWithMode (fine_env None) (fine_env None) False True = Inr outs \<and>
    runs (batch_write writer_Write) (batch_flush writer_Flush) sample_env {Work} m
      (start_pipeline outs [sample_chunk 4] 2) t \<and> loop_finished t"
proof -
  obtain outs where outs: "openBatchOutputsWithMode (fine_env None) (fine_env None) False True = Inr outs"
    using sample_opens by blast
  have two: "nat (effectiveWorkerCount 2) = 2" by (simp add: effectiveWorkerCount_def MaxWorkers_def)
  show ?thesis
    using scan_always_ends [OF outs _ _ _ runs_refl, of sample_env "[sample_chunk 4]" 2] outs
    by (auto simp: two sample_env_def sample_chunk_def)
qed

lemma sample_run:
  "\<exists>outs m s. openBatchOutputsWithMode (fine_env None) (fine_env None) False True = Inr outs \<and>
    runs (batch_write writer_Write) (batch_flush writer_Flush) sample_env {Work} m
      (start_pipeline outs [sample_chunk 4] 2) s \<and> loop_finished s \<and> pl_lost s = []"
proof -
  obtain outs where outs: "openBatchOutputsWithMode (fine_env None) (fine_env None) False True = Inr outs"
    using sample_opens by blast
  let ?s0 = "start_pipeline outs [sample_chunk 4] 2"
  have "length (env_runtimes sample_env) = length [sample_chunk 4]" "\<forall>ch \<in> set [sample_chunk 4]. 0 \<le> NextIndex ch"
    by (simp_all add: sample_env_def sample_chunk_def)
  note inv = batch.start_inv [OF batch_opened(2) [OF outs] batch_opened(1) [OF outs] this, of 2]
  have "pl_workers ?s0 \<noteq> []" "0 < env_capacity sample_env"
    using queueCapacityFor_bounds [of 2] by (simp_all add: start_pipeline_def sample_env_def)
  then obtain m s where m: "runs (batch_write writer_Write) (batch_flush writer_Flush) sample_env {Work} m ?s0 s"
    "loop_finished s"
    using batch.finishes [OF inv] by blast
  have "undisturbed ?s0"
    using opened_healthy [OF outs]
    by (simp add: undisturbed_def executor_stopped_def start_pipeline_def newOutputCommitter_def)
  then have "pl_lost s = []"
    using undisturbed_runs [OF m(1) inv sample_targets_fit] by (simp add: undisturbed_def)
  then show ?thesis using outs m by blast
qed



section \<open>A task that is lost\<close>

lemma healthy_loop_step:
  assumes "loop_step (batch_write writer_Write) (batch_flush writer_Flush) env s t"
    and "healthy_batch_out (outputs (pl_committer s)) \<and> \<not> failed (pl_committer s)"
  shows "healthy_batch_out (outputs (pl_committer t)) \<and> \<not> failed (pl_committer t)"
  using assms(1)
proof (cases rule: loop_step.cases)
  case (accept r rs e c)
  then show ?thesis
    using healthy_accept [of "pl_committer s" "env_flushInterval env" r] assms(2) by simp
qed (use assms(2) in \<open>simp_all add: mark_at_def\<close>)

lemma healthy_step:
  assumes "pipe_step (batch_write writer_Write) (batch_flush writer_Flush) env kind s t"
    and "healthy_batch_out (outputs (pl_committer s)) \<and> \<not> failed (pl_committer s)"
  shows "healthy_batch_out (outputs (pl_committer t)) \<and> \<not> failed (pl_committer t)"
  using assms(1)
proof (cases rule: pipe_step.cases)
  case by_dispatcher
  then show ?thesis
    by (cases rule: dispatch_step.cases) (use assms(2) in \<open>simp_all add: advance_at_def\<close>)
next
  case by_worker
  then show ?thesis
    by (cases rule: worker_step.cases) (use assms(2) in simp_all)
qed (use assms(2) healthy_loop_step in auto)

lemma work_keeps:
  "pipe_step write_op flush_op env Work s t \<Longrightarrow> pl_dispatcher s \<noteq> DispatchPanicked \<Longrightarrow>
   pl_dispatcher t \<noteq> DispatchPanicked \<and> pl_lost t = pl_lost s"
  by (erule pipe_stepE; (erule dispatch_stepE worker_stepE loop_stepE)?; simp)

lemma work_runs:
  "runs (batch_write writer_Write) (batch_flush writer_Flush) env {Work} n s t \<Longrightarrow>
   healthy_batch_out (outputs (pl_committer s)) \<and> \<not> failed (pl_committer s) \<Longrightarrow> pl_dispatcher s \<noteq> DispatchPanicked \<Longrightarrow>
   healthy_batch_out (outputs (pl_committer t)) \<and> \<not> failed (pl_committer t) \<and>
   pl_dispatcher t \<noteq> DispatchPanicked \<and> pl_lost t = pl_lost s"
proof (induction rule: runs.induct)
  case (runs_step n s t kind u)
  then have t: "pl_dispatcher t \<noteq> DispatchPanicked" "pl_lost t = pl_lost s" and step: "pipe_step (batch_write writer_Write) (batch_flush writer_Flush) env Work t u"
    by auto
  show ?case using runs_step t healthy_step [OF step] work_keeps [OF step t(1)] by simp
qed simp

definition sample_task :: scanTask where
  "sample_task = \<lparr>chunkIdx = 0, taskIdx = 0, task_ipCidr = ''10.0.0.0/31'', task_ip = ''10.0.0.0'', task_port = 80,
     task_meta = empty_meta\<rparr>"

lemma sample_task_at: "task_at sample_env ''10.0.0.0/30'' 0 0 = Inr sample_task"
  by (simp add: task_at_def sample_env_def sample_runtime_def indexToChunkRuntimeTarget_def expand_basic_def
      defaultString_def sample_task_def, code_simp)

lemma late_panic_run:
  assumes outs: "openBatchOutputsWithMode (fine_env None) (fine_env None) False True = Inr outs"
  shows "\<exists>n s. runs (batch_write writer_Write) (batch_flush writer_Flush) sample_env UNIV n
      (start_pipeline outs [sample_chunk 4] 2) s \<and>
    pl_lost s = [sample_task] \<and> pl_dispatcher s = Sent 0 0 \<and> pl_committer s =
      (pl_committer (start_pipeline outs [sample_chunk 4] 2))
        \<lparr>trackers := (trackers (pl_committer (start_pipeline outs [sample_chunk 4] 2)))
          [0 := AdvanceNextIndex (newChunkStateTracker (sample_chunk 4)) 0]\<rparr>"
proof -
  let ?s0 = "start_pipeline outs [sample_chunk 4] 2"
  define res where "res = ScanTCP (env_errno sample_env) (env_goos sample_env) (env_text sample_env)
    (\<lambda>_. Inr (None, 1)) (task_ip sample_task) (task_port sample_task)"
  define s1 where "s1 = (advance_at 0 (NextIndex (chunk_of ?s0 0)) ?s0)\<lparr>pl_dispatcher := AtTask 0 (NextIndex (chunk_of ?s0 0))\<rparr>"
  define s2 where "s2 = s1\<lparr>pl_taskCh := pl_taskCh s1 @ [sample_task], pl_dispatcher := Sent 0 0\<rparr>"
  define s3 where "s3 = (with_worker 0 (Holding sample_task) s2)\<lparr>pl_taskCh := []\<rparr>"
  define s4 where "s4 = with_worker 0 (Probing sample_task) s3"
  define s5 where "s5 = with_worker 0 (Probed sample_task res) s4"
  define s6 where "s6 = (with_worker 0 Draining s5)\<lparr>pl_lost := pl_lost s5 @ [sample_task], pl_stopping := True, pl_fatal := True\<rparr>"
  note fields = start_pipeline_def newOutputCommitter_def chunk_of_def newChunkStateTracker_def sample_chunk_def
  have c0: "NextIndex (chunk_of ?s0 0) = 0" "TotalCount (chunk_of ?s0 0) = 4" by (simp_all add: fields)
  have s1: "pl_dispatcher s1 = AtTask 0 0" "pl_taskCh s1 = []" "pl_workers s1 = [Idle, Idle]" "\<not> executor_stopped s1"
    "pl_lost s1 = []" "TotalCount (chunk_of s1 0) = 4" "chunkCIDR (chunk_of s1 0) = ''10.0.0.0/30''"
    unfolding s1_def c0 by (simp_all add: executor_stopped_def advance_at_def fields numeral_2_eq_2 AdvanceNextIndex_def updateStatus_def)
  have 1: "pipe_step W F sample_env Work ?s0 s1" for W F
    unfolding s1_def by (rule by_dispatcher, rule chunk_start) (simp_all add: c0, simp_all add: sample_env_def start_pipeline_def)
  have 2: "pipe_step W F sample_env Work s1 s2" for W F
    unfolding s2_def by (rule by_dispatcher, rule dispatch_send [OF s1(1)]) (simp_all add: s1 sample_task_at,
      simp add: sample_env_def queueCapacityFor_def effectiveWorkerCount_def MaxWorkers_def queueSlotsPerWorker_def)
  have 3: "pipe_step W F sample_env Work s2 s3" for W F
    unfolding s3_def by (rule by_worker, rule receive) (simp_all add: s2_def s1)
  have 4: "pipe_step W F sample_env Work s3 s4" for W F
    unfolding s4_def by (rule by_worker, rule probe) (use s1(4) in \<open>simp_all add: s3_def s2_def s1 executor_stopped_def\<close>)
  have 5: "pipe_step W F sample_env Work s4 s5" for W F
    unfolding s5_def by (rule by_worker, rule probe_end) (auto simp: s4_def s3_def s2_def s1 possible_result_def res_def)
  have 6: "pipe_step W F sample_env Fault s5 s6" for W F
    unfolding s6_def by (rule by_worker, rule late_panic) (simp_all add: s5_def s4_def s3_def s2_def s1)
  have "runs W F sample_env UNIV 6 ?s0 s6" for W F
    using runs_step [OF runs_step [OF runs_step [OF runs_step [OF runs_step [OF runs_step [OF runs_refl UNIV_I 1]
      UNIV_I 2] UNIV_I 3] UNIV_I 4] UNIV_I 5] UNIV_I 6, of W F] by (simp add: eval_nat_numeral)
  moreover have "pl_lost s6 = [sample_task]" "pl_dispatcher s6 = Sent 0 0" "pl_committer s6 = pl_committer s1"
    by (simp_all add: s6_def s5_def s4_def s3_def s2_def s1)
  moreover have "pl_committer s1 = (pl_committer ?s0)\<lparr>trackers := (trackers (pl_committer ?s0))
      [0 := AdvanceNextIndex (newChunkStateTracker (sample_chunk 4)) 0]\<rparr>"
    unfolding s1_def c0 by (simp add: advance_at_def with_trackers_def start_pipeline_def newOutputCommitter_def)
  ultimately show ?thesis by metis
qed


end
