(* ===== verification/BasicResolve.thy ===== *)
theory BasicResolve
  imports RuntimeTargets
begin

text \<open>
  \<open>pkg/scanapp/basic_target_resolution.go\<close>: the targets of basic rows. Rows without a port of
  their own take the ports of the port file; when no row has one, every CIDR gets one group and
  an address that two CIDRs hold is scanned for the first of them only.

  The metadata cache only shares equal values behind pointers that nothing writes through, so
  here each target carries its value.
\<close>

section \<open>The addresses of a row\<close>

definition record_cidr :: "CIDRRecord \<Rightarrow> string" where
  "record_cidr r = (if CIDR r = [] then (case Net r of Some n \<Rightarrow> ipnet_string n | None \<Rightarrow> []) else CIDR r)"

definition basic_key :: "CIDRRecord \<Rightarrow> group_error + string" where
  "basic_key r = (if record_cidr r = [] then Inl RecordMissingCIDR else Inr (record_cidr r))"

definition basic_expand :: "ctx \<Rightarrow> CIDRRecord \<Rightarrow> string \<Rightarrow> group_error + ctx \<times> string list" where
  "basic_expand c r selector =
     try_bind (expand_or (record_cidr r) (expand_ctx c [selector] no_limits)) (\<lambda>(c', ips).
       Inr (c', FilterBoundaryBroadcast ips (Net r)))"

definition basicTargetIPsContext :: "ctx \<Rightarrow> CIDRRecord \<Rightarrow> group_error + ctx \<times> string list" where
  "basicTargetIPsContext c r =
     (let raw = trim_space (IPRaw r) in
      case Selector r of
        Some s \<Rightarrow>
          if raw \<noteq> [] \<and> mask_size (net_mask s) = (32, 32) \<and> CHR ''/'' \<notin> set raw \<and> CHR '':'' \<notin> set raw
          then Inr (c, FilterBoundaryBroadcast [raw] (Net r))
          else basic_expand c r (ipnet_string s)
      | None \<Rightarrow>
          if raw \<noteq> [] then basic_expand c r raw
          else (case Net r of
              Some n \<Rightarrow> basic_expand c r (ipnet_string n)
            | None \<Rightarrow> Inl (RecordMissingSelector (record_cidr r))))"

definition basic_meta :: "CIDRRecord \<Rightarrow> targetMeta" where
  "basic_meta r = empty_meta\<lparr>tm_fabName := FabName r, tm_cidrName := CIDRName r\<rparr>"

definition basic_targetsContext :: "ctx \<Rightarrow> CIDRRecord \<Rightarrow> group_error + ctx \<times> scanTarget list" where
  "basic_targetsContext c r =
     try_bind (basicTargetIPsContext c r) (\<lambda>(c1, ips).
       case ctx_poll (polls_for (length ips)) c1 of
         None \<Rightarrow> Inl GroupCanceled
       | Some c2 \<Rightarrow> Inr (c2, map (\<lambda>ip. \<lparr>t_ip = ip, t_ipCidr = record_cidr r, t_ipU32 = ipv4ToUint32 ip,
           t_port = 0, t_meta = basic_meta r\<rparr>) ips))"

definition hasBasicRowPorts :: "CIDRRecord list \<Rightarrow> bool" where
  "hasBasicRowPorts records \<longleftrightarrow> (\<exists>r \<in> set records. \<not> IsRich r \<and> 0 < Port r)"

section \<open>Names of groups\<close>

definition basicResolutionGroupKey :: "string \<Rightarrow> int list \<Rightarrow> string" where
  "basicResolutionGroupKey cidr ports = cidr @ [CHR 0x00] @ concat (map (\<lambda>p. itoa p @ '','') ports)"

definition formatPortRows :: "int list \<Rightarrow> string list" where
  "formatPortRows ports = map (\<lambda>p. itoa p @ ''/tcp'') ports"

definition fallback_numbers :: "PortSpec list \<Rightarrow> int list" where
  "fallback_numbers fallback =
     fold (\<lambda>p acc. if Number p \<in> set acc then acc else acc @ [Number p]) fallback []"

section \<open>One port list for every row\<close>

definition fallback_record_step ::
  "(string \<Rightarrow> bool) \<Rightarrow> ctx \<times> groups \<Rightarrow> nat \<times> CIDRRecord \<Rightarrow> group_error + ctx \<times> groups" where
  "fallback_record_step predicate s ir = (case (s, ir) of ((c, gs), (i, r)) \<Rightarrow>
     try_bind (poll_at i c) (\<lambda>c1.
     try_bind (basic_key r) (\<lambda>cidr.
     try_bind (basicTargetIPsContext c1 r) (\<lambda>(c2, ips).
       case ctx_poll (polls_for (length ips)) c2 of
         None \<Rightarrow> Inl GroupCanceled
       | Some c3 \<Rightarrow>
           let g = get_group gs cidr;
               g' = g\<lparr>g_basicTargets := g_basicTargets g @
                 map (\<lambda>ip. \<lparr>bt_ip = ip, bt_ipU32 = ipv4ToUint32 ip, bt_meta = Some (basic_meta r)\<rparr>)
                   (filter predicate ips)\<rparr>
           in Inr (c3, if g_basicTargets g' = [] then gs else AList.update cidr g' gs)))))"

definition buildBasicFallbackGroupsContext ::
  "ctx \<Rightarrow> CIDRRecord list \<Rightarrow> (string \<Rightarrow> bool) option \<Rightarrow> group_error + groups" where
  "buildBasicFallbackGroupsContext c records reachable =
     try_bind (try_fold (fallback_record_step (normalizeReachablePredicate reachable)) (c, []) (enumerate 0 records))
       (\<lambda>(c', gs). Inr (map (\<lambda>(k, g). (k, g\<lparr>g_basicTargets := sort_key bt_ipU32 (g_basicTargets g)\<rparr>)) gs))"

text \<open>The loop over the targets of a group with \<open>seenIPs\<close>\<close>

primrec claim_targets :: "32 word set \<Rightarrow> basicScanTarget list \<Rightarrow> basicScanTarget list \<times> 32 word set" where
  "claim_targets seen [] = ([], seen)"
| "claim_targets seen (t # ts) =
     (if bt_ipU32 t \<in> seen then claim_targets seen ts
      else (case claim_targets (insert (bt_ipU32 t) seen) ts of (kept, seen') \<Rightarrow> (t # kept, seen')))"

definition claim_group :: "int list \<Rightarrow> groups \<Rightarrow> string \<Rightarrow> groups \<times> 32 word set \<Rightarrow> groups \<times> 32 word set" where
  "claim_group ports gs cidr s = (case s of (out, seen) \<Rightarrow>
     (let g = get_group gs cidr in
      case claim_targets seen (g_basicTargets g) of (targets, seen') \<Rightarrow>
        if targets = [] then (out, seen')
        else (AList.update (basicResolutionGroupKey cidr ports)
               (g\<lparr>g_cidr := cidr, g_ports := formatPortRows ports, g_basicTargets := targets,
                  g_totalCount := int (length targets) * int (length ports)\<rparr>) out, seen')))"

definition resolveBasicFallbackTargetsContext ::
  "ctx \<Rightarrow> CIDRRecord list \<Rightarrow> int list \<Rightarrow> (string \<Rightarrow> bool) option \<Rightarrow> group_error + groups" where
  "resolveBasicFallbackTargetsContext c records ports reachable =
     try_bind (buildBasicFallbackGroupsContext c records reachable) (\<lambda>gs.
       Inr (fst (fold (claim_group ports gs) (sort (map fst gs)) ([], {}))))"

section \<open>Rows with ports of their own\<close>

record basicResolvedIP =
  br_target :: scanTarget
  br_ports :: "int list"

type_synonym resolved = "(string \<times> (string \<times> basicResolvedIP) list) list"

definition resolve_port :: "string \<Rightarrow> scanTarget \<Rightarrow> resolved \<times> string set \<Rightarrow> int \<Rightarrow> group_error + resolved \<times> string set" where
  "resolve_port cidr target s port = (case s of (byCIDR, seenTasks) \<Rightarrow>
     (case BuildExecutionKey (t_ip target) port ''tcp'' of
        Inl e \<Rightarrow> Inl (BasicKey e)
      | Inr key \<Rightarrow>
          if key \<in> seenTasks then Inr (byCIDR, seenTasks)
          else
            let byIP = (case map_of byCIDR cidr of None \<Rightarrow> [] | Some m \<Rightarrow> m);
                res = (case map_of byIP (t_ip target) of None \<Rightarrow> \<lparr>br_target = target, br_ports = []\<rparr> | Some r \<Rightarrow> r);
                res' = (if port \<in> set (br_ports res) then res else res\<lparr>br_ports := br_ports res @ [port]\<rparr>)
            in Inr (AList.update cidr (AList.update (t_ip target) res' byIP) byCIDR, insert key seenTasks)))"

definition resolve_record_step ::
  "int list \<Rightarrow> (string \<Rightarrow> bool) \<Rightarrow> ctx \<times> resolved \<times> string set \<Rightarrow> nat \<times> CIDRRecord \<Rightarrow> group_error + ctx \<times> resolved \<times> string set" where
  "resolve_record_step fallbackPorts predicate s ir = (case (s, ir) of ((c, byCIDR, seenTasks), (i, r)) \<Rightarrow>
     try_bind (poll_at i c) (\<lambda>c1.
     try_bind (basic_key r) (\<lambda>cidr.
     try_bind (basic_targetsContext c1 r) (\<lambda>(c2, targets0).
     try_bind (filterScanTargetsContext c2 targets0 predicate) (\<lambda>(c3, targets).
       if targets = [] then Inr (c3, byCIDR, seenTasks)
       else
         let ports = (if 0 < Port r then [Port r] else fallbackPorts) in
         if ports = [] then Inl (NoPortSource (RowNumber r))
         else try_bind (try_fold (\<lambda>s target. try_fold (resolve_port cidr target) s ports) (byCIDR, seenTasks) targets)
           (\<lambda>(byCIDR', seen'). Inr (c3, byCIDR', seen')))))))"

definition group_resolved :: "string \<Rightarrow> basicResolvedIP \<Rightarrow> groups \<Rightarrow> groups" where
  "group_resolved cidr res gs =
     (let key = basicResolutionGroupKey cidr (br_ports res); g = get_group gs key in
      AList.update key (g\<lparr>g_cidr := cidr, g_ports := formatPortRows (br_ports res),
        g_targets := g_targets g @ [br_target res]\<rparr>) gs)"

definition groups_of_resolved :: "resolved \<Rightarrow> groups" where
  "groups_of_resolved byCIDR =
     map (\<lambda>(k, g). (k, g\<lparr>g_targets := sort_key t_ipU32 (g_targets g),
         g_totalCount := int (length (g_targets g)) * int (length (g_ports g))\<rparr>))
       (fold (\<lambda>(cidr, byIP). fold (\<lambda>(ip, res). group_resolved cidr res) byIP) byCIDR [])"

definition resolveBasicTargetsContext ::
  "ctx \<Rightarrow> CIDRRecord list \<Rightarrow> PortSpec list \<Rightarrow> (string \<Rightarrow> bool) option \<Rightarrow> group_error + groups" where
  "resolveBasicTargetsContext c records fallback reachable =
     (let fallbackPorts = fallback_numbers fallback in
      if \<not> hasBasicRowPorts records \<and> fallbackPorts \<noteq> [] then
        resolveBasicFallbackTargetsContext c records fallbackPorts reachable
      else
        try_bind (try_fold (resolve_record_step fallbackPorts (normalizeReachablePredicate reachable))
            (c, [], {}) (enumerate 0 records)) (\<lambda>(c', byCIDR, seen). Inr (groups_of_resolved byCIDR)))"

definition groupForChunk :: "groups \<Rightarrow> Chunk \<Rightarrow> group_error + cidrGroup" where
  "groupForChunk resolution ch =
     try_bind (parsePortRowsContext None (Ports ch)) (\<lambda>(c, ports).
       if ports = [] then Inl (ChunkWithoutPorts (chunkCIDR ch))
       else (case map_of resolution (basicResolutionGroupKey (chunkCIDR ch) ports) of
           None \<Rightarrow> Inl (NoScannableTargets (chunkCIDR ch))
         | Some g \<Rightarrow> Inr g))"

definition inputPortSpecsFromRows :: "string list \<Rightarrow> group_error + PortSpec list" where
  "inputPortSpecsFromRows rows =
     try_bind (parsePortRowsContext None rows) (\<lambda>(c, ports).
       Inr (map (\<lambda>(port, raw). \<lparr>Number = port, Proto = ''tcp'', Raw = raw\<rparr>) (zip ports rows)))"

end
