(* ===== verification/BasicProps.thy ===== *)
theory BasicProps
  imports BasicResolve
begin

text \<open>
  What the resolution of basic rows promises: when no row has a port of its own, the groups
  partition the reachable addresses of the rows, and leaving out the rows of other CIDRs can only
  add targets to a group, so comparing the target count is enough to notice it.
\<close>

section \<open>The addresses of the rows\<close>

definition rec_ips :: "CIDRRecord \<Rightarrow> string list" where
  "rec_ips r = (case basicTargetIPsContext None r of Inl e \<Rightarrow> [] | Inr (c, ips) \<Rightarrow> ips)"

definition basic_target :: "CIDRRecord \<Rightarrow> string \<Rightarrow> basicScanTarget" where
  "basic_target r ip = \<lparr>bt_ip = ip, bt_ipU32 = ipv4ToUint32 ip, bt_meta = Some (basic_meta r)\<rparr>"

definition row_basics :: "(string \<Rightarrow> bool) \<Rightarrow> CIDRRecord \<Rightarrow> basicScanTarget list" where
  "row_basics P r = map (basic_target r) (filter P (rec_ips r))"

definition raw_targets :: "(string \<Rightarrow> bool) \<Rightarrow> CIDRRecord list \<Rightarrow> string \<Rightarrow> basicScanTarget list" where
  "raw_targets P records cidr = concat (map (row_basics P) (filter (\<lambda>r. record_cidr r = cidr) records))"

abbreviation addresses :: "basicScanTarget list \<Rightarrow> 32 word set" where
  "addresses ts \<equiv> bt_ipU32 ` set ts"

lemma basic_expand_Background: "basic_expand None r sel = Inr (c', ips) \<Longrightarrow> c' = None"
  using expand_ctx_Background by (fastforce simp: basic_expand_def try_bind_eq_Inr)

lemma basicTargetIPs_Background:
  assumes "basicTargetIPsContext None r = Inr (c', ips)"
  shows "c' = None" and "rec_ips r = ips"
proof -
  show "c' = None"
    using assms by (auto simp: basicTargetIPsContext_def Let_def dest: basic_expand_Background split: option.splits if_splits)
  show "rec_ips r = ips" using assms by (simp add: rec_ips_def)
qed

section \<open>Collecting the rows\<close>

definition plain_group :: "cidrGroup \<Rightarrow> bool" where
  "plain_group g \<longleftrightarrow> g_cidr g = [] \<and> g_ports g = [] \<and> g_targets g = [] \<and> g_totalCount g = 0"

lemma plain_group_eq: "plain_group g \<Longrightarrow> g = empty_group\<lparr>g_basicTargets := g_basicTargets g\<rparr>"
  by (simp add: plain_group_def empty_group_def)

lemma plain_group_simps [simp]:
  "plain_group empty_group" "plain_group (g\<lparr>g_basicTargets := ts\<rparr>) = plain_group g"
  by (simp_all add: plain_group_def empty_group_def)

definition plain_groups :: "groups \<Rightarrow> bool" where
  "plain_groups gs \<longleftrightarrow> distinct (map fst gs) \<and>
     (\<forall>k g. map_of gs k = Some g \<longrightarrow> g_basicTargets g \<noteq> [] \<and> plain_group g)"

abbreviation basics_at :: "groups \<Rightarrow> string \<Rightarrow> basicScanTarget list" where
  "basics_at gs k \<equiv> g_basicTargets (get_group gs k)"

lemma empty_group_basics [simp]: "g_basicTargets empty_group = []"
  by (simp add: empty_group_def)

lemma plain_lookup:
  assumes "plain_groups gs"
  shows "map_of gs k = (if basics_at gs k = [] then None else Some (empty_group\<lparr>g_basicTargets := basics_at gs k\<rparr>))"
  using assms plain_group_eq by (cases "map_of gs k") (auto simp: plain_groups_def get_group_def)

lemma plain_get: "plain_groups gs \<Longrightarrow> plain_group (get_group gs k)"
  by (auto simp: plain_groups_def get_group_def split: option.split)

lemma fallback_record_step_result:
  assumes "fallback_record_step P (None, gs) (i, r) = Inr (c', gs')"
  shows "c' = None \<and> gs' = (if basics_at gs (record_cidr r) @ row_basics P r = [] then gs
      else AList.update (record_cidr r)
        ((get_group gs (record_cidr r))\<lparr>g_basicTargets := basics_at gs (record_cidr r) @ row_basics P r\<rparr>) gs)"
proof -
  let ?k = "record_cidr r"
  have key: "basic_key r = Inr ?k"
    using assms by (auto simp: fallback_record_step_def try_bind_eq_Inr basic_key_def)
  obtain c2 ips where ips: "basicTargetIPsContext None r = Inr (c2, ips)"
    using assms key by (auto simp: fallback_record_step_def try_bind_eq_Inr)
  have "row_basics P r = map (\<lambda>ip. \<lparr>bt_ip = ip, bt_ipU32 = ipv4ToUint32 ip, bt_meta = Some (basic_meta r)\<rparr>) (filter P ips)"
    using basicTargetIPs_Background(2) [OF ips] by (simp add: row_basics_def basic_target_def [abs_def])
  then show ?thesis
    using assms key ips [unfolded basicTargetIPs_Background(1) [OF ips]]
    by (auto simp: fallback_record_step_def Let_def split: if_splits)
qed

lemma fallback_record_step_Background:
  assumes "fallback_record_step P (None, gs) (i, r) = Inr (c', gs')" and plain: "plain_groups gs"
  shows "c' = None" and "plain_groups gs'"
    and "basics_at gs' cidr = basics_at gs cidr @ (if record_cidr r = cidr then row_basics P r else [])"
proof -
  note res = fallback_record_step_result [OF assms(1)]
  show "c' = None" using res by simp
  show "plain_groups gs'"
    using plain plain_get [OF plain] res
    by (auto simp: plain_groups_def distinct_update simp del: map_of_eq_Some_iff)
  show "basics_at gs' cidr = basics_at gs cidr @ (if record_cidr r = cidr then row_basics P r else [])"
    using res by (auto simp: get_group_def split: option.splits)
qed

lemma fallback_fold_Background:
  assumes "try_fold (fallback_record_step P) (None, gs) (enumerate n records) = Inr (c', gs')" and "plain_groups gs"
  shows "plain_groups gs' \<and> (\<forall>cidr. basics_at gs' cidr = basics_at gs cidr @ raw_targets P records cidr)"
  using assms
proof (induction records arbitrary: gs n)
  case Nil
  then show ?case by (simp add: raw_targets_def)
next
  case (Cons r records)
  then obtain c1 gs1 where one: "fallback_record_step P (None, gs) (n, r) = Inr (c1, gs1)"
    and rest: "try_fold (fallback_record_step P) (c1, gs1) (enumerate (Suc n) records) = Inr (c', gs')"
    by (auto simp: try_bind_eq_Inr)
  note step = fallback_record_step_Background [OF one Cons.prems(2)]
  show ?case
    using Cons.IH [OF rest [unfolded step(1)] step(2)] step(3)
    by (auto simp: raw_targets_def)
qed

definition cidr_targets :: "(string \<Rightarrow> bool) \<Rightarrow> CIDRRecord list \<Rightarrow> string \<Rightarrow> basicScanTarget list" where
  "cidr_targets P records cidr = sort_key bt_ipU32 (raw_targets P records cidr)"

lemma fallback_build_Background:
  assumes "buildBasicFallbackGroupsContext None records reachable = Inr gs"
    and P: "P = normalizeReachablePredicate reachable"
  shows "plain_groups gs" and "basics_at gs cidr = cidr_targets P records cidr"
    and "set (map fst gs) = {cidr. cidr_targets P records cidr \<noteq> []}"
proof -
  obtain c' gs0 where fold: "try_fold (fallback_record_step P) (None, []) (enumerate 0 records) = Inr (c', gs0)"
    and gs: "gs = map (\<lambda>(k, g). (k, g\<lparr>g_basicTargets := sort_key bt_ipU32 (g_basicTargets g)\<rparr>)) gs0"
    using assms by (auto simp: buildBasicFallbackGroupsContext_def try_bind_eq_Inr)
  have "plain_groups []" by (simp add: plain_groups_def)
  then have plain: "plain_groups gs0" and at: "basics_at gs0 cidr = raw_targets P records cidr" for cidr
    using fallback_fold_Background [OF fold] by (auto simp: get_group_def)
  have lookup: "map_of gs k = map_option (\<lambda>g. g\<lparr>g_basicTargets := sort_key bt_ipU32 (g_basicTargets g)\<rparr>) (map_of gs0 k)" for k
    unfolding gs by (induction gs0) auto
  have fst: "map fst gs = map fst gs0" unfolding gs by (induction gs0) auto
  have sort_nil: "sort_key bt_ipU32 ts = [] \<longleftrightarrow> ts = []" for ts :: "basicScanTarget list"
    by (metis mset_sort mset_zero_iff)
  show "plain_groups gs"
    using plain fst by (auto simp: plain_groups_def lookup sort_nil simp del: map_of_eq_Some_iff)
  show at': "basics_at gs cidr = cidr_targets P records cidr" for cidr
    using at [of cidr] by (auto simp: get_group_def lookup cidr_targets_def split: option.splits)
  show "set (map fst gs) = {cidr. cidr_targets P records cidr \<noteq> []}"
  proof -
    have "cidr \<in> set (map fst gs) \<longleftrightarrow> map_of gs0 cidr \<noteq> None" for cidr
      unfolding fst by (simp add: map_of_eq_None_iff)
    moreover have "map_of gs0 cidr \<noteq> None \<longleftrightarrow> cidr_targets P records cidr \<noteq> []" for cidr
      using plain_lookup [OF plain, of cidr] at [of cidr] by (simp add: cidr_targets_def sort_nil)
    ultimately show ?thesis by blast
  qed
qed

section \<open>Claiming addresses\<close>

definition claims :: "32 word set \<Rightarrow> basicScanTarget list \<Rightarrow> basicScanTarget list" where
  "claims seen ts = fst (claim_targets seen ts)"

lemma claims_simps [simp]:
  "claims seen [] = []"
  "claims seen (t # ts) = (if bt_ipU32 t \<in> seen then claims seen ts else t # claims (insert (bt_ipU32 t) seen) ts)"
  by (simp_all add: claims_def split: prod.split)

lemma claim_targets_claims: "claim_targets seen ts = (claims seen ts, seen \<union> addresses ts)"
proof (induction ts arbitrary: seen)
  case (Cons t ts)
  show ?case by (auto simp: Cons insert_absorb)
qed simp

lemma claims_addresses: "addresses (claims seen ts) = addresses ts - seen"
  by (induction ts arbitrary: seen) auto

lemma claims_distinct: "distinct (map bt_ipU32 (claims seen ts))"
  using claims_addresses by (induction ts arbitrary: seen) (auto simp: image_iff set_eq_iff)

lemma claims_sorted: "sorted (map bt_ipU32 ts) \<Longrightarrow> sorted (map bt_ipU32 (claims seen ts))"
proof (induction ts arbitrary: seen)
  case (Cons t ts)
  have "set (claims s ts) \<subseteq> set ts" for s by (induction ts arbitrary: s) auto
  then show ?case using Cons by (auto simp: subset_iff)
qed simp

lemma claims_subset: "set (claims seen ts) \<subseteq> set ts"
  by (induction ts arbitrary: seen) auto

text \<open>With fewer addresses taken a group claims more.\<close>

lemma claims_filter: "seen' \<subseteq> seen \<Longrightarrow> claims seen ts = filter (\<lambda>t. bt_ipU32 t \<notin> seen) (claims seen' ts)"
proof (induction ts arbitrary: seen seen')
  case (Cons t ts)
  show ?case
  proof (cases "bt_ipU32 t \<in> seen'")
    case True
    then show ?thesis using Cons by auto
  next
    case new: False
    show ?thesis
    proof (cases "bt_ipU32 t \<in> seen")
      case True
      have "claims seen ts = filter (\<lambda>t. bt_ipU32 t \<notin> seen) (claims (insert (bt_ipU32 t) seen') ts)"
        using Cons.IH [of "insert (bt_ipU32 t) seen'" seen] Cons.prems True by simp
      then show ?thesis using True new by simp
    next
      case False
      have "claims (insert (bt_ipU32 t) seen) ts =
          filter (\<lambda>u. bt_ipU32 u \<notin> insert (bt_ipU32 t) seen) (claims (insert (bt_ipU32 t) seen') ts)"
        using Cons.IH [of "insert (bt_ipU32 t) seen'" "insert (bt_ipU32 t) seen"] Cons.prems by auto
      also have "\<dots> = filter (\<lambda>u. bt_ipU32 u \<notin> seen) (claims (insert (bt_ipU32 t) seen') ts)"
      proof (rule filter_cong [OF refl])
        fix u assume "u \<in> set (claims (insert (bt_ipU32 t) seen') ts)"
        then have "bt_ipU32 u \<in> addresses (claims (insert (bt_ipU32 t) seen') ts)" by simp
        then have "bt_ipU32 u \<noteq> bt_ipU32 t" unfolding claims_addresses by auto
        then show "bt_ipU32 u \<notin> insert (bt_ipU32 t) seen \<longleftrightarrow> bt_ipU32 u \<notin> seen" by simp
      qed
      finally show ?thesis using False new by simp
    qed
  qed
qed simp

lemma claim_key_inj [simp]: "basicResolutionGroupKey c ports = basicResolutionGroupKey d ports \<longleftrightarrow> c = d"
  by (simp add: basicResolutionGroupKey_def)

definition resolved_group :: "int list \<Rightarrow> string \<Rightarrow> basicScanTarget list \<Rightarrow> cidrGroup" where
  "resolved_group ports cidr ts =
     \<lparr>g_cidr = cidr, g_ports = formatPortRows ports, g_targets = [], g_basicTargets = ts,
      g_totalCount = int (length ts) * int (length ports)\<rparr>"

lemma claim_group_result:
  assumes "plain_groups gs"
  shows "claim_group ports gs d (out, seen) =
    (let ts = claims seen (basics_at gs d) in
     (if ts = [] then out else AList.update (basicResolutionGroupKey d ports) (resolved_group ports d ts) out,
      seen \<union> addresses (basics_at gs d)))"
proof -
  have "g\<lparr>g_cidr := d, g_ports := formatPortRows ports, g_basicTargets := ts,
      g_totalCount := int (length ts) * int (length ports)\<rparr> = resolved_group ports d ts" if "plain_group g" for g ts
    using that by (cases g) (simp add: resolved_group_def plain_group_def)
  then show ?thesis
    using plain_get [OF assms, of d] by (simp add: claim_group_def Let_def claim_targets_claims)
qed

definition claimed :: "32 word set \<Rightarrow> (string \<Rightarrow> basicScanTarget list) \<Rightarrow> string set \<Rightarrow> string \<Rightarrow> basicScanTarget list" where
  "claimed seen T cs c = claims (seen \<union> (\<Union>d \<in> {d \<in> cs. d < c}. addresses (T d))) (T c)"

lemma claim_fold:
  assumes "plain_groups gs" and "sorted cs" and "distinct cs" and "T = basics_at gs"
  shows "map_of (fst (fold (claim_group ports gs) cs (out, seen))) (basicResolutionGroupKey c ports) =
    (if c \<in> set cs \<and> claimed seen T (set cs) c \<noteq> [] then Some (resolved_group ports c (claimed seen T (set cs) c))
     else map_of out (basicResolutionGroupKey c ports))"
  using assms(2,3)
proof (induction cs arbitrary: out seen)
  case Nil
  then show ?case by simp
next
  case (Cons d cs)
  let ?ts = "claims seen (T d)" and ?k = "basicResolutionGroupKey"
  let ?out = "if ?ts = [] then out else AList.update (?k d ports) (resolved_group ports d ?ts) out"
  have T: "T d = basics_at gs d" using assms(4) by simp
  have less: "\<And>c. c \<in> set cs \<Longrightarrow> d < c" using Cons.prems by (auto simp: less_le)
  then have first: "{e \<in> set (d # cs). e < d} = {}" by (auto dest: less_asym)
  have step: "claimed (seen \<union> addresses (T d)) T (set cs) c = claimed seen T (set (d # cs)) c" if "c \<in> set cs" for c
  proof -
    have "{e \<in> set (d # cs). e < c} = insert d {e \<in> set cs. e < c}" using less [OF that] by auto
    then show ?thesis by (simp add: claimed_def Un_assoc)
  qed
  have "map_of (fst (fold (claim_group ports gs) (d # cs) (out, seen))) (?k c ports) =
      (if c \<in> set cs \<and> claimed (seen \<union> addresses (T d)) T (set cs) c \<noteq> []
       then Some (resolved_group ports c (claimed (seen \<union> addresses (T d)) T (set cs) c))
       else map_of ?out (?k c ports))"
    using Cons by (simp add: claim_group_result [OF assms(1)] Let_def T)
  also have "\<dots> = (if c \<in> set (d # cs) \<and> claimed seen T (set (d # cs)) c \<noteq> []
       then Some (resolved_group ports c (claimed seen T (set (d # cs)) c)) else map_of out (?k c ports))"
  proof (cases "c = d")
    case True
    then have "claimed seen T (set (d # cs)) c = ?ts" unfolding claimed_def True first by simp
    then show ?thesis using True Cons.prems(2) by simp
  next
    case False
    then show ?thesis using step [of c] by (cases "c \<in> set cs") simp_all
  qed
  finally show ?case .
qed

lemma claim_fold_keys:
  "map_of (fst (fold (claim_group ports gs) cs (out, seen))) k \<noteq> None \<Longrightarrow>
   map_of out k \<noteq> None \<or> (\<exists>c. k = basicResolutionGroupKey c ports)"
proof (induction cs arbitrary: out seen)
  case (Cons d cs)
  obtain out1 seen1 where one: "claim_group ports gs d (out, seen) = (out1, seen1)" by fastforce
  then have "map_of out1 k \<noteq> None \<Longrightarrow> map_of out k \<noteq> None \<or> k = basicResolutionGroupKey d ports"
    by (auto simp: claim_group_def Let_def split: prod.splits if_splits)
  then show ?case using Cons.IH [of out1 seen1] Cons.prems one by auto
qed simp

text \<open>The targets of a CIDR after the CIDRs that sort before it have claimed theirs\<close>

definition own_targets :: "(string \<Rightarrow> bool) \<Rightarrow> CIDRRecord list \<Rightarrow> string \<Rightarrow> basicScanTarget list" where
  "own_targets P records = claimed {} (cidr_targets P records) UNIV"

lemma fallback_resolution:
  assumes "resolveBasicFallbackTargetsContext None records ports reachable = Inr gs"
    and P: "P = normalizeReachablePredicate reachable"
  shows "map_of gs (basicResolutionGroupKey c ports) =
      (if own_targets P records c = [] then None else Some (resolved_group ports c (own_targets P records c)))"
    and "map_of gs k = Some g \<Longrightarrow> \<exists>c. k = basicResolutionGroupKey c ports"
proof -
  obtain gs0 where build: "buildBasicFallbackGroupsContext None records reachable = Inr gs0"
    and gs: "gs = fst (fold (claim_group ports gs0) (sort (map fst gs0)) ([], {}))"
    using assms(1) by (auto simp: resolveBasicFallbackTargetsContext_def try_bind_eq_Inr)
  note b = fallback_build_Background [OF build P]
  let ?T = "cidr_targets P records" and ?cs = "set (sort (map fst gs0))"
  have T: "?T = basics_at gs0" using b(2) by auto
  have "distinct (sort (map fst gs0))" using b(1) by (simp add: plain_groups_def)
  then have claim: "map_of gs (basicResolutionGroupKey c ports) =
      (if c \<in> ?cs \<and> claimed {} ?T ?cs c \<noteq> [] then Some (resolved_group ports c (claimed {} ?T ?cs c)) else None)" for c
    unfolding gs by (simp only: claim_fold [OF b(1) sorted_sort _ T] map_of.simps)
  have cs: "?cs = {c. ?T c \<noteq> []}" using b(3) by simp
  have "(\<Union>d \<in> {d \<in> ?cs. d < c}. addresses (?T d)) = (\<Union>d \<in> {d. d < c}. addresses (?T d))" for c
  proof (intro equalityI subsetI)
    fix a assume "a \<in> (\<Union>d \<in> {d. d < c}. addresses (?T d))"
    then obtain d t where "d < c" "t \<in> set (?T d)" "a = bt_ipU32 t" by blast
    then have "d \<in> {d \<in> ?cs. d < c}" and "a \<in> addresses (?T d)" unfolding cs by auto
    then show "a \<in> (\<Union>d \<in> {d \<in> ?cs. d < c}. addresses (?T d))" by blast
  qed blast
  then have same: "claimed {} ?T ?cs c = own_targets P records c" for c
    by (simp add: claimed_def own_targets_def)
  have none: "own_targets P records c = []" if "c \<notin> ?cs" for c
    using that unfolding cs by (simp add: own_targets_def claimed_def)
  show "map_of gs (basicResolutionGroupKey c ports) =
      (if own_targets P records c = [] then None else Some (resolved_group ports c (own_targets P records c)))"
    unfolding claim same using none [of c] by (cases "c \<in> ?cs") simp_all
  show "\<exists>c. k = basicResolutionGroupKey c ports" if "map_of gs k = Some g"
    using claim_fold_keys [of ports gs0 "sort (map fst gs0)" "[]" "{}" k] that unfolding gs by simp
qed

lemma own_targets_addresses:
  "addresses (own_targets P records c) =
     addresses (cidr_targets P records c) - (\<Union>d \<in> {d. d < c}. addresses (cidr_targets P records d))"
  by (simp add: own_targets_def claimed_def claims_addresses)

lemma cidr_targets_addresses:
  "addresses (cidr_targets P records c) =
     {ipv4ToUint32 ip | ip. \<exists>r \<in> set records. record_cidr r = c \<and> ip \<in> set (rec_ips r) \<and> P ip}"
proof -
  have "set (cidr_targets P records c) =
      {basic_target r ip | r ip. r \<in> set records \<and> record_cidr r = c \<and> ip \<in> set (rec_ips r) \<and> P ip}"
    by (auto simp: cidr_targets_def raw_targets_def row_basics_def)
  moreover have "bt_ipU32 (basic_target r ip) = ipv4ToUint32 ip" for r ip by (simp add: basic_target_def)
  ultimately show ?thesis by (auto simp: image_iff; metis)
qed

lemma first_claim:
  fixes A :: "string \<Rightarrow> 'a set"
  assumes "finite C" and "a \<in> A c" and "\<And>d. A d \<noteq> {} \<Longrightarrow> d \<in> C"
  shows "\<exists>c. a \<in> A c - (\<Union>d \<in> {d. d < c}. A d)"
proof -
  let ?D = "{d \<in> C. a \<in> A d}"
  have fin: "finite ?D" and ne: "?D \<noteq> {}" using assms by auto
  have "Min ?D \<in> ?D" by (rule Min_in [OF fin ne])
  moreover have "a \<notin> A d" if "d < Min ?D" for d
    using that assms(3) [of d] Min_le [OF fin, of d] by (auto simp: not_le [symmetric])
  ultimately show ?thesis by blast
qed

text \<open>Property C10. When no row has a port of its own, the groups of a basic input partition the
  reachable addresses of its rows: every group has its targets sorted, no address occurs twice in
  one group or in two, every reachable address of a row is in some group, nothing else is, and
  the total of a group is the number of its targets times the number of ports.\<close>

theorem fallback_groups_partition:
  assumes "resolveBasicFallbackTargetsContext None records ports reachable = Inr gs"
  shows "(\<forall>k g. map_of gs k = Some g \<longrightarrow>
      distinct (map bt_ipU32 (g_basicTargets g)) \<and> sorted (map bt_ipU32 (g_basicTargets g)) \<and> g_targets g = [] \<and>
      g_totalCount g = int (length (g_basicTargets g)) * int (length ports) \<and> k = basicResolutionGroupKey (g_cidr g) ports) \<and>
    (\<forall>k g l h. map_of gs k = Some g \<and> map_of gs l = Some h \<and> k \<noteq> l \<longrightarrow>
      addresses (g_basicTargets g) \<inter> addresses (g_basicTargets h) = {}) \<and>
    {a. \<exists>k g. map_of gs k = Some g \<and> a \<in> addresses (g_basicTargets g)} =
      {ipv4ToUint32 ip | ip. \<exists>r \<in> set records. ip \<in> set (rec_ips r) \<and> normalizeReachablePredicate reachable ip}"
    (is "?each \<and> ?apart \<and> ?all")
proof (intro conjI)
  let ?P = "normalizeReachablePredicate reachable"
  let ?A = "\<lambda>c. addresses (cidr_targets ?P records c)"
  note res = fallback_resolution(1) [OF assms refl]
  have group: "\<exists>c. k = basicResolutionGroupKey c ports \<and> g = resolved_group ports c (own_targets ?P records c)"
    if m: "map_of gs k = Some g" for k g
  proof -
    obtain c where "k = basicResolutionGroupKey c ports"
      using fallback_resolution(2) [OF assms refl m] by blast
    then show ?thesis using res [of c] m by (auto split: if_splits)
  qed
  have "sorted (map bt_ipU32 (own_targets ?P records c))" for c
    unfolding own_targets_def claimed_def by (rule claims_sorted) (simp add: cidr_targets_def)
  moreover have "distinct (map bt_ipU32 (own_targets ?P records c))" for c
    unfolding own_targets_def claimed_def by (rule claims_distinct)
  ultimately show ?each
    using group by (fastforce simp: resolved_group_def)
  have lt: "addresses (own_targets ?P records c) \<inter> addresses (own_targets ?P records d) = {}" if "c < d" for c d
    using that by (auto simp: own_targets_addresses)
  have "addresses (own_targets ?P records c) \<inter> addresses (own_targets ?P records d) = {}" if "c \<noteq> d" for c d
    using lt [of c d] lt [of d c] that by (cases c d rule: linorder_cases) (simp_all add: Int_commute)
  then have "addresses (g_basicTargets g) \<inter> addresses (g_basicTargets h) = {}"
    if "map_of gs k = Some g" "map_of gs l = Some h" "k \<noteq> l" for k g l h
    using group [OF that(1)] group [OF that(2)] that(3) by (force simp: resolved_group_def)
  then show ?apart by blast
  have "{a. \<exists>k g. map_of gs k = Some g \<and> a \<in> addresses (g_basicTargets g)} = (\<Union>c. addresses (own_targets ?P records c))"
  proof (intro equalityI subsetI)
    fix a assume "a \<in> {a. \<exists>k g. map_of gs k = Some g \<and> a \<in> addresses (g_basicTargets g)}"
    then show "a \<in> (\<Union>c. addresses (own_targets ?P records c))" using group by (fastforce simp: resolved_group_def)
  next
    fix a assume "a \<in> (\<Union>c. addresses (own_targets ?P records c))"
    then obtain c where a: "a \<in> addresses (own_targets ?P records c)" by blast
    then have "own_targets ?P records c \<noteq> []" by auto
    then have "map_of gs (basicResolutionGroupKey c ports) = Some (resolved_group ports c (own_targets ?P records c))"
      using res [of c] by simp
    then show "a \<in> {a. \<exists>k g. map_of gs k = Some g \<and> a \<in> addresses (g_basicTargets g)}"
      using a by (force simp: resolved_group_def)
  qed
  also have "\<dots> = (\<Union>c. ?A c)"
  proof -
    have fin: "finite (record_cidr ` set records)" by simp
    have in_C: "\<And>d. ?A d \<noteq> {} \<Longrightarrow> d \<in> record_cidr ` set records"
      unfolding cidr_targets_addresses by auto
    show ?thesis
      using first_claim [where A = ?A, OF fin _ in_C] by (auto simp: own_targets_addresses) blast
  qed
  finally show ?all unfolding cidr_targets_addresses by auto
qed

lemma filter_same_length: "length (filter Q ys) = length ys \<Longrightarrow> filter Q ys = ys"
proof (induction ys)
  case (Cons y ys)
  have "length (filter Q ys) \<noteq> Suc (length ys)" using length_filter_le [of Q ys] by linarith
  then show ?case using Cons by (auto split: if_splits)
qed simp


definition sample_basic :: "string \<Rightarrow> nat \<Rightarrow> string \<Rightarrow> CIDRRecord" where
  "sample_basic cidr k ip = zero_record\<lparr>CIDR := cidr, Net := Some (prefix_net 0x0A000000 k), IPRaw := ip,
     Selector := Some (prefix_net 0x0A000001 32)\<rparr>"

definition sample_basics :: "CIDRRecord list" where
  "sample_basics = [sample_basic ''10.0.0.0/24'' 24 ''10.0.0.1'', sample_basic ''10.0.0.0/8'' 8 ''10.0.0.1'',
     sample_basic ''10.0.0.0/8'' 8 ''10.0.0.7'']"

text \<open>The inner network sorts first and takes the shared address.\<close>

lemma sample_resolution:
  "\<exists>gs. resolveBasicFallbackTargetsContext None sample_basics [80, 443] None = Inr gs \<and>
    map_option g_totalCount (map_of gs (basicResolutionGroupKey ''10.0.0.0/24'' [80, 443])) = Some 2 \<and>
    map_option g_totalCount (map_of gs (basicResolutionGroupKey ''10.0.0.0/8'' [80, 443])) = Some 2"
proof -
  have "case resolveBasicFallbackTargetsContext None sample_basics [80, 443] None of Inl e \<Rightarrow> False | Inr gs \<Rightarrow>
    map_option g_totalCount (map_of gs (basicResolutionGroupKey ''10.0.0.0/24'' [80, 443])) = Some 2 \<and>
    map_option g_totalCount (map_of gs (basicResolutionGroupKey ''10.0.0.0/8'' [80, 443])) = Some 2"
    by code_simp
  then show ?thesis by (auto split: sum.splits)
qed

lemma sample_part_resolution:
  "\<exists>gs. resolveBasicFallbackTargetsContext None
      (filter (\<lambda>r. record_cidr r \<in> {''10.0.0.0/8''}) sample_basics) [80, 443] None = Inr gs \<and>
    map_option g_totalCount (map_of gs (basicResolutionGroupKey ''10.0.0.0/8'' [80, 443])) = Some 4"
proof -
  have "case resolveBasicFallbackTargetsContext None
      (filter (\<lambda>r. record_cidr r \<in> {''10.0.0.0/8''}) sample_basics) [80, 443] None of Inl e \<Rightarrow> False | Inr gs \<Rightarrow>
    map_option g_totalCount (map_of gs (basicResolutionGroupKey ''10.0.0.0/8'' [80, 443])) = Some 4"
    by code_simp
  then show ?thesis by (auto split: sum.splits)
qed

theorem fallback_groups_partition_witness:
  "\<exists>gs. resolveBasicFallbackTargetsContext None sample_basics [80, 443] None = Inr gs \<and>
    {a. \<exists>k g. map_of gs k = Some g \<and> a \<in> addresses (g_basicTargets g)} =
      {ipv4ToUint32 ip | ip. \<exists>r \<in> set sample_basics. ip \<in> set (rec_ips r)}"
  using sample_resolution fallback_groups_partition [of sample_basics "[80, 443]" None]
  by (auto simp: normalizeReachablePredicate_def)


end
