(* ===== verification/ChunkLifecycle.thy ===== *)
theory ChunkLifecycle
  imports BasicResolve OutputCommit
begin

text \<open>
  \<open>pkg/scanapp/chunk_lifecycle.go\<close>, with the chunks that bucketgen.go writes and the decision of
  resume\_manager.go to save a snapshot: chunks are made from target groups, and a resumed scan
  rebuilds the runtime of every unfinished chunk from the input and compares its total.

  The three loops that poll the context each take what the context allows them (\<open>c_scan\<close>,
  \<open>c_groups\<close>, \<open>c_chunks\<close>). A chunk is edited in place by the code; here the edited chunk is part
  of the result. The progress reporter is not modelled.
\<close>

section \<open>Chunks\<close>

definition chunkIsCompleted :: "Chunk \<Rightarrow> bool" where
  "chunkIsCompleted ch \<longleftrightarrow> TotalCount ch > 0 \<and> NextIndex ch \<ge> TotalCount ch"

definition countIncompleteChunks :: "Chunk list \<Rightarrow> nat" where
  "countIncompleteChunks chunks = length (filter (\<lambda>ch. \<not> chunkIsCompleted ch) chunks)"

definition collectChunkStates :: "chunkStateTracker list \<Rightarrow> Chunk list" where
  "collectChunkStates ts = map tr_chunk ts"

definition hasIncomplete :: "chunkStateTracker list \<Rightarrow> bool" where
  "hasIncomplete ts \<longleftrightarrow> (\<exists>t \<in> set ts. ScannedCount (tr_chunk t) < TotalCount (tr_chunk t))"

datatype dispatch_error = ContextCanceled | ContextDeadlineExceeded | OtherDispatchError

definition shouldSaveOnDispatchErr :: "dispatch_error option \<Rightarrow> bool" where
  "shouldSaveOnDispatchErr err \<longleftrightarrow> err = Some ContextCanceled \<or> err = Some ContextDeadlineExceeded"

text \<open>What persistResumeSnapshot saves, if it saves anything\<close>

definition persistResumeSnapshot :: "chunkStateTracker list \<Rightarrow> dispatch_error option \<Rightarrow> bool \<Rightarrow> Chunk list option" where
  "persistResumeSnapshot ts dispatchErr runErr =
     (let rewound = map (\<lambda>t. snd (RewindUnwritten t)) ts in
      if \<not> hasIncomplete rewound \<and> \<not> runErr \<and> \<not> shouldSaveOnDispatchErr dispatchErr then None
      else Some (collectChunkStates rewound))"

definition basicChunkFromGroup :: "cidrGroup \<Rightarrow> Chunk" where
  "basicChunkFromGroup g =
     \<lparr>chunkCIDR = g_cidr g, chunkCIDRName = tm_cidrName (firstTargetMeta g), Ports = g_ports g,
      NextIndex = 0, ScannedCount = 0, TotalCount = g_totalCount g, Status = ''pending''\<rparr>"

definition rich_port_of :: "cidrGroup \<Rightarrow> int" where
  "rich_port_of g = (if g_targets g \<noteq> [] \<and> t_port (hd (g_targets g)) > 0 then t_port (hd (g_targets g)) else 1)"

definition richChunkFromGroup :: "string \<Rightarrow> cidrGroup \<Rightarrow> Chunk" where
  "richChunkFromGroup cidr g =
     \<lparr>chunkCIDR = cidr, chunkCIDRName = (if g_targets g = [] then [] else tm_cidrName (t_meta (hd (g_targets g)))),
      Ports = [itoa (rich_port_of g) @ ''/tcp''], NextIndex = 0, ScannedCount = 0,
      TotalCount = int (length (g_targets g)), Status = ''pending''\<rparr>"

definition buildRichChunksWithPredicate :: "CIDRRecord list \<Rightarrow> (string \<Rightarrow> bool) option \<Rightarrow> group_error + Chunk list" where
  "buildRichChunksWithPredicate records reachable =
     try_bind (buildRichGroupsWithPredicateContext None records reachable) (\<lambda>gs.
       Inr (map (\<lambda>key. richChunkFromGroup key (get_group gs key))
         (filter (\<lambda>key. g_targets (get_group gs key) \<noteq> []) (sort (map fst gs)))))"

text \<open>The chunks of generate-buckets: \<open>fanOutGroupChunks\<close> fills slot \<open>i\<close> from key \<open>i\<close>.\<close>

definition hasRichRecords :: "CIDRRecord list \<Rightarrow> bool" where
  "hasRichRecords records \<longleftrightarrow> (\<exists>r \<in> set records. IsRich r)"

definition fanOutGroupChunks :: "string list \<Rightarrow> groups \<Rightarrow> bool \<Rightarrow> Chunk list" where
  "fanOutGroupChunks keys gs richMode =
     map (\<lambda>key. if richMode then richChunkFromGroup key (get_group gs key) else basicChunkFromGroup (get_group gs key)) keys"

definition generated_chunks :: "ctx \<Rightarrow> CIDRRecord list \<Rightarrow> PortSpec list \<Rightarrow> (string \<Rightarrow> bool) \<Rightarrow> group_error + Chunk list" where
  "generated_chunks c records portSpecs reachable =
     (let richMode = hasRichRecords records in
      try_bind (if richMode then buildRichGroupsWithPredicateContext None records (Some reachable)
                else resolveBasicTargetsContext c records portSpecs (Some reachable)) (\<lambda>gs.
        Inr (sort_key chunkCIDR (fanOutGroupChunks (sort (map fst gs)) gs richMode))))"

section \<open>The rows of unfinished chunks\<close>

definition chunkKeyForRecord :: "CIDRRecord \<Rightarrow> group_error + string" where
  "chunkKeyForRecord r = (if IsRich r then richCIDRKey r else basic_key r)"

definition filterRecordsByChunkKeyContext :: "ctx \<Rightarrow> CIDRRecord list \<Rightarrow> string list \<Rightarrow> group_error + CIDRRecord list" where
  "filterRecordsByChunkKeyContext c records keys =
     (if keys = [] then Inr []
      else case ctx_poll (polls_for (length records)) c of None \<Rightarrow> Inl GroupCanceled
      | Some c' \<Rightarrow>
          Inr (filter (\<lambda>r. richRecordDenied r \<or>
            (case chunkKeyForRecord r of Inl e \<Rightarrow> False | Inr key \<Rightarrow> key \<in> set keys)) records))"

definition selectRuntimeRecords ::
  "ctx \<Rightarrow> CIDRRecord list \<Rightarrow> string list \<Rightarrow> bool \<Rightarrow> nat \<Rightarrow> nat \<Rightarrow> group_error + CIDRRecord list" where
  "selectRuntimeRecords c records incompleteKeys allIncompleteHaveTotal incompleteChunkCount totalChunkCount =
     (if incompleteKeys = [] \<or> \<not> allIncompleteHaveTotal \<or> incompleteChunkCount = totalChunkCount then Inr records
      else filterRecordsByChunkKeyContext c records incompleteKeys)"

section \<open>Ports and buckets\<close>

definition formatInputPortRows :: "PortSpec list \<Rightarrow> string list" where
  "formatInputPortRows ports = map Raw ports"

definition basicFallbackFromChunks :: "Chunk list \<Rightarrow> group_error + PortSpec list" where
  "basicFallbackFromChunks chunks =
     try_bind (try_fold (\<lambda>numbers ch. try_bind (parsePortRowsContext None (Ports ch)) (\<lambda>(c, ports).
         Inr (fold (\<lambda>p acc. if p \<in> set acc then acc else acc @ [p]) ports numbers))) [] chunks) (\<lambda>numbers.
       Inr (map (\<lambda>n. \<lparr>Number = n, Proto = ''tcp'', Raw = itoa n @ ''/tcp''\<rparr>) numbers))"

record runtimePolicy =
  bucketRate :: int
  bucketCapacity :: int
  disableRateLimit :: bool

definition MaxCapacity :: int where
  "MaxCapacity = 1000000"

text \<open>The rate and the capacity of the bucket, when there is one\<close>

definition newRuntimeBucket :: "int \<Rightarrow> runtimePolicy \<Rightarrow> (int \<times> int) option" where
  "newRuntimeBucket remaining policy =
     (if disableRateLimit policy then None
      else let capacity = min MaxCapacity (max 1 (bucketCapacity policy)) in
        if remaining \<le> capacity then None else Some (bucketRate policy, bucketCapacity policy))"

section \<open>buildRuntimeWithPredicateContext\<close>

datatype build_error =
    BuildGroups group_error
  | BuildCanceled
  | NoLongerScannable string
  | IncompatibleTotal string int int

record built_runtime =
  br_runtime :: chunkRuntime
  br_chunk :: Chunk
  br_bucket :: "(int \<times> int) option"

definition lift_group :: "group_error + 'a \<Rightarrow> build_error + 'a" where
  "lift_group r = (case r of Inl e \<Rightarrow> Inl (BuildGroups e) | Inr a \<Rightarrow> Inr a)"

definition completed_runtime :: "Chunk \<Rightarrow> built_runtime" where
  "completed_runtime ch =
     \<lparr>br_runtime = \<lparr>rt_ipCidr = chunkCIDR ch, rt_ports = [], rt_targets = [], rt_basicTargets = []\<rparr>,
      br_chunk = ch\<lparr>Status := ''completed''\<rparr>, br_bucket = None\<rparr>"

text \<open>The chunk with the ports it is scanned with, and its group\<close>

definition chunk_group ::
  "bool \<Rightarrow> groups \<Rightarrow> PortSpec list \<Rightarrow> Chunk \<Rightarrow> build_error + Chunk \<times> cidrGroup" where
  "chunk_group richMode gs defaultPorts ch =
     (if richMode then
        (case map_of gs (chunkCIDR ch) of
           None \<Rightarrow> Inl (NoLongerScannable (chunkCIDR ch))
         | Some g \<Rightarrow> Inr (if Ports ch = [] then ch\<lparr>Ports := [itoa (rich_port_of g) @ ''/tcp'']\<rparr> else ch, g))
      else
        (let ch' = (if Ports ch = [] then ch\<lparr>Ports := formatInputPortRows defaultPorts\<rparr> else ch) in
         try_bind (lift_group (groupForChunk gs ch')) (\<lambda>g. Inr (ch', g))))"

definition runtime_for ::
  "ctx \<Rightarrow> bool \<Rightarrow> groups \<Rightarrow> PortSpec list \<Rightarrow> runtimePolicy \<Rightarrow> Chunk \<Rightarrow> build_error + ctx \<times> built_runtime" where
  "runtime_for c richMode gs defaultPorts policy ch =
     try_bind (chunk_group richMode gs defaultPorts ch) (\<lambda>(ch1, g).
     try_bind (lift_group (validateTargetStorage g)) (\<lambda>_.
     try_bind (lift_group (parsePortRowsContext c (Ports ch1))) (\<lambda>(c', ports).
       let expectedTotal = (if richMode then int (targetCount g) * int (length ports) else g_totalCount g);
           ch2 = (if TotalCount ch1 = 0 then ch1\<lparr>TotalCount := expectedTotal\<rparr> else ch1) in
       if TotalCount ch2 \<noteq> expectedTotal then Inl (IncompatibleTotal (chunkCIDR ch) (TotalCount ch2) expectedTotal)
       else
         let ch3 = (if NextIndex ch2 \<ge> TotalCount ch2 then ch2\<lparr>Status := ''completed''\<rparr>
                    else if Status ch2 = [] then ch2\<lparr>Status := ''pending''\<rparr> else ch2)
         in Inr (c', \<lparr>br_runtime = \<lparr>rt_ipCidr = chunkCIDR ch3, rt_ports = ports, rt_targets = g_targets g,
                       rt_basicTargets = g_basicTargets g\<rparr>,
                  br_chunk = ch3, br_bucket = newRuntimeBucket (TotalCount ch3 - NextIndex ch3) policy\<rparr>))))"

definition build_step ::
  "bool \<Rightarrow> groups \<Rightarrow> PortSpec list \<Rightarrow> runtimePolicy \<Rightarrow> ctx \<times> built_runtime list \<Rightarrow> Chunk \<Rightarrow>
   build_error + ctx \<times> built_runtime list" where
  "build_step richMode gs defaultPorts policy st ch =
     (case ctx_poll 1 (fst st) of None \<Rightarrow> Inl BuildCanceled
      | Some c \<Rightarrow>
          if chunkIsCompleted ch then Inr (c, snd st @ [completed_runtime ch])
          else try_bind (runtime_for c richMode gs defaultPorts policy ch) (\<lambda>(c', rt). Inr (c', snd st @ [rt])))"

definition buildRuntimeWithPredicateContext ::
  "ctx \<Rightarrow> ctx \<Rightarrow> ctx \<Rightarrow> Chunk list \<Rightarrow> CIDRRecord list \<Rightarrow> PortSpec list \<Rightarrow> runtimePolicy \<Rightarrow> (string \<Rightarrow> bool) option \<Rightarrow>
   build_error + built_runtime list" where
  "buildRuntimeWithPredicateContext c_scan c_groups c_chunks chunks cidrRecords defaultPorts0 policy reachable =
     try_bind (if defaultPorts0 = [] \<and> \<not> hasBasicRowPorts cidrRecords then lift_group (basicFallbackFromChunks chunks)
               else Inr defaultPorts0) (\<lambda>defaultPorts.
     let incomplete = filter (\<lambda>ch. \<not> chunkIsCompleted ch) chunks;
         incompleteKeys = map chunkCIDR incomplete;
         allIncompleteHaveTotal = (\<forall>ch \<in> set incomplete. TotalCount ch \<noteq> 0) in
     case ctx_poll (length chunks) c_scan of None \<Rightarrow> Inl BuildCanceled
     | Some c1 \<Rightarrow>
         try_bind (lift_group (selectRuntimeRecords c1 cidrRecords incompleteKeys allIncompleteHaveTotal
             (length incomplete) (length chunks))) (\<lambda>records.
         let richMode = hasRichRecords records in
         try_bind (if incompleteKeys = [] then Inr []
                   else if richMode then lift_group (buildRichGroupsWithPredicateContext c_groups records reachable)
                   else lift_group (resolveBasicTargetsContext c_groups records defaultPorts reachable)) (\<lambda>gs.
         try_bind (try_fold (build_step richMode gs defaultPorts policy) (c_chunks, []) chunks) (\<lambda>(c', rts).
           Inr rts))))"

section \<open>Snapshots that a scan refuses\<close>

definition CurrentTargetSemanticsVersion :: int where
  "CurrentTargetSemanticsVersion = 1"

definition validateSnapshotAuthorization :: "bool \<Rightarrow> Chunk list \<Rightarrow> CIDRRecord list \<Rightarrow> string + unit" where
  "validateSnapshotAuthorization richDenyExcluded chunks records =
     (if richDenyExcluded \<or> chunks = [] \<or> deniedRichExecutionKeys records = [] then Inr ()
      else Inl (chunkCIDR (hd chunks)))"

datatype semantics_error = UnsupportedVersion int | VersionMissing

definition validateSnapshotTargetSemantics :: "int \<Rightarrow> CIDRRecord list \<Rightarrow> semantics_error + unit" where
  "validateSnapshotTargetSemantics version records =
     (if version = CurrentTargetSemanticsVersion then Inr ()
      else if version \<noteq> 0 then Inl (UnsupportedVersion version)
      else if hasRichRecords records \<or> \<not> hasBasicRowPorts records then Inr ()
      else Inl VersionMissing)"

end
