(* ===== verification/ResumePlan.thy ===== *)
theory ResumePlan
  imports ChunkLifecycle BasicProps ScanProgress
begin

text \<open>
  From a snapshot to a scan: the chunks that generate-buckets writes, resumed at any point on the
  same input, are accepted, and the runtimes they are rebuilt into have one position for every
  task that the total of the chunk counts. That is what \<open>ScanProgress\<close> asks of a scan, so the
  results about a scan apply to a resumed one. Also here: when a scan saves no snapshot, and an
  input whose interrupted scan is refused.
\<close>

section \<open>Ports of policy targets\<close>

definition port_ok :: "int \<Rightarrow> bool" where
  "port_ok p \<longleftrightarrow> 1 \<le> p \<and> p \<le> 65535"

definition ports_in :: "groups \<Rightarrow> bool" where
  "ports_in gs \<longleftrightarrow> (\<forall>(k, g) \<in> set gs. \<forall>t \<in> set (g_targets g). port_ok (t_port t))"

lemma ports_in_get: "ports_in gs \<Longrightarrow> t \<in> set (g_targets (get_group gs k)) \<Longrightarrow> port_ok (t_port t)"
  by (auto simp: ports_in_def get_group_def empty_group_def split: option.splits dest!: map_of_SomeD)

lemma ports_in_update:
  "ports_in gs \<Longrightarrow> \<forall>t \<in> set (g_targets g). port_ok (t_port t) \<Longrightarrow> ports_in (AList.update k g gs)"
  by (induction gs) (auto simp: ports_in_def)

lemma rich_targets_port:
  assumes "richTargetsFromRecordContext c r = Inr (c', ts)" and "t \<in> set ts"
  shows "t_port t = Port r"
proof -
  obtain cidr c1 ips where f: "try_fold (rich_target_step r cidr (trim_space (ExecutionKey r))) (c1, []) (enumerate 0 ips) = Inr (c', ts)"
    using assms(1) by (auto simp: richTargetsFromRecordContext_def Let_def try_bind_eq_Inr split: if_splits)
  have "(\<lambda>s. \<forall>t \<in> set (snd s). t_port t = Port r) (c', ts)"
    by (rule try_fold_invariant [OF f])
      (auto simp: rich_target_step_def rich_target_def try_bind_eq_Inr split: prod.splits if_splits sum.splits)
  then show ?thesis using assms(2) by simp
qed

lemma insert_target_ports:
  assumes "insert_target cidr key t (gs, owner) = Inr (gs', owner')" and "ports_in gs" and "port_ok (t_port t)"
  shows "ports_in gs'"
proof -
  have merged: "\<forall>u \<in> set (ts[i := t']). port_ok (t_port u)"
    if "mergeRichTargetValues dst t = Inr t'" "\<forall>u \<in> set ts. port_ok (t_port u)" for dst t' ts i
  proof -
    have "t_port t' = t_port t"
      using that(1) by (auto simp: mergeRichTargetValues_def Let_def split: if_splits)
    then show ?thesis using that(2) assms(3) set_update_subset_insert [of ts i t'] by auto
  qed
  show ?thesis
  proof (cases "map_of owner key")
    case None
    then show ?thesis
      using assms(1,3) ports_in_get [OF assms(2)]
      by (auto simp: insert_target_def Let_def intro!: ports_in_update [OF assms(2)])
  next
    case (Some p)
    then obtain t' where "mergeRichTargetValues (g_targets (get_group gs (fst p)) ! snd p) t = Inr t'"
      "gs' = AList.update (fst p) ((get_group gs (fst p))\<lparr>g_targets := (g_targets (get_group gs (fst p)))[snd p := t']\<rparr>) gs"
      using assms(1) by (cases p) (auto simp: insert_target_def Let_def try_bind_eq_Inr)
    then show ?thesis
      using merged [of _ t' "g_targets (get_group gs (fst p))"] ports_in_get [OF assms(2)]
      by (simp add: ports_in_update [OF assms(2)])
  qed
qed

lemma rich_record_step_cases:
  assumes "rich_record_step denied P (c, gs, owner, v) (i, r) = Inr (c', gs', owner', v')"
  obtains (skip) "gs' = gs"
  | (insert) cidr c4 c5 ts ts' c6 c7 where "IsRich r" "IsValid r" "richTargetsFromRecordContext c4 r = Inr (c5, ts)"
      "set ts' \<subseteq> set ts"
      "try_fold (rich_insert_step (RowNumber r) cidr) (c6, gs, owner) (enumerate 0 ts') = Inr (c7, gs', owner')"
proof (cases "IsRich r \<and> IsValid r \<and> \<not> richRecordDenied r")
  case False
  then have "gs' = gs" using assms by (auto simp: rich_record_step_def try_bind_eq_Inr split: if_splits)
  then show ?thesis by (rule skip)
next
  case True
  then obtain c4 cidr c5 ts c6 ts' c7 where "richTargetsFromRecordContext c4 r = Inr (c5, ts)"
    "filterScanTargetsContext c5 (filterAuthorizedRichTargets ts denied) P = Inr (c6, ts')"
    "try_fold (rich_insert_step (RowNumber r) cidr) (c6, gs, owner) (enumerate 0 ts') = Inr (c7, gs', owner')"
    using assms by (auto simp: rich_record_step_def try_bind_eq_Inr)
  moreover from this(2) have "set ts' \<subseteq> set ts"
    by (auto simp: filterScanTargetsContext_def filterAuthorizedRichTargets_def split: option.splits)
  ultimately show ?thesis using insert True by blast
qed

lemma rich_groups_ports:
  assumes "buildRichGroupsWithPredicateContext c records alive = Inr gs"
    and valid: "\<forall>r \<in> set records. IsRich r \<and> IsValid r \<longrightarrow> port_ok (Port r)"
  shows "ports_in gs"
  using assms(1)
proof (rule build_rich_cases)
  fix c' gs0 owner v
  assume f: "try_fold (rich_record_step (deniedRichExecutionKeys records) (normalizeReachablePredicate alive))
       (c, [], [], False) (enumerate 0 records) = Inr (c', gs0, owner, v)" and gs: "gs = sortRichGroups gs0"
  have inner: "ports_in gs2" if "try_fold (rich_insert_step n cidr) (c1, gs1, owner1) (enumerate 0 ts) = Inr (c2, gs2, owner2)"
    "ports_in gs1" "\<forall>t \<in> set ts. port_ok (t_port t)" for n cidr c1 gs1 owner1 ts c2 gs2 owner2
  proof -
    have "(\<lambda>s. ports_in (fst (snd s))) (c2, gs2, owner2)"
    proof (rule try_fold_invariant [OF that(1)])
      show "ports_in (fst (snd (c1, gs1, owner1)))" using that(2) by simp
      fix s it s' assume "it \<in> set (enumerate 0 ts)" "ports_in (fst (snd s))" "rich_insert_step n cidr s it = Inr s'"
      moreover obtain c3 gs3 owner3 i t where "s = (c3, gs3, owner3)" "it = (i, t)" by (metis prod_cases3 prod.exhaust)
      ultimately show "ports_in (fst (snd s'))"
        using that(3) insert_target_ports by (auto simp: in_set_enumerate_eq elim!: rich_insert_step_Inr)
    qed
    then show ?thesis by simp
  qed
  have "(\<lambda>s. ports_in (fst (snd s))) (c', gs0, owner, v)"
  proof (rule try_fold_invariant [OF f])
    show "ports_in (fst (snd (c, [], [], False)))" by (simp add: ports_in_def)
    fix s ir s'
    assume in_set: "ir \<in> set (enumerate 0 records)" and s: "ports_in (fst (snd s))"
      and step: "rich_record_step (deniedRichExecutionKeys records) (normalizeReachablePredicate alive) s ir = Inr s'"
    obtain c3 gs3 owner3 v3 i r where e: "s = (c3, gs3, owner3, v3)" "ir = (i, r)" by (metis prod_cases4 prod.exhaust)
    obtain c8 gs8 owner8 v8 where e': "s' = (c8, gs8, owner8, v8)" by (metis prod_cases4)
    have r: "r \<in> set records" using in_set e(2) by (auto simp: in_set_enumerate_eq)
    show "ports_in (fst (snd s'))"
      using step [unfolded e e']
    proof (cases rule: rich_record_step_cases)
      case skip
      then show ?thesis using s by (simp add: e e')
    next
      case (insert cidr c4 c5 ts ts' c6 c7)
      have "\<forall>t \<in> set ts'. port_ok (t_port t)"
        using insert(1-4) rich_targets_port valid r by (metis subsetD)
      then show ?thesis using inner [OF insert(5)] s by (simp add: e e')
    qed
  qed
  then show ?thesis unfolding gs by (fastforce simp: ports_in_def sortRichGroups_def)
qed

section \<open>The shape of a basic resolution\<close>

definition group_shape :: "string \<Rightarrow> cidrGroup \<Rightarrow> int list \<Rightarrow> bool" where
  "group_shape k g ports \<longleftrightarrow>
     ports \<noteq> [] \<and> (\<forall>p \<in> set ports. port_ok p) \<and> k = basicResolutionGroupKey (g_cidr g) ports \<and>
     g_ports g = formatPortRows ports \<and> (g_targets g = [] \<or> g_basicTargets g = []) \<and>
     (\<forall>t \<in> set (g_targets g). t_port t = 0)"

definition resolved_ok :: "resolved \<Rightarrow> bool" where
  "resolved_ok byCIDR \<longleftrightarrow> (\<forall>(c, m) \<in> set byCIDR. \<forall>(ip, res) \<in> set m.
     br_ports res \<noteq> [] \<and> (\<forall>p \<in> set (br_ports res). port_ok p) \<and> t_port (br_target res) = 0)"

lemma set_update_assoc: "set (AList.update k v xs) \<subseteq> insert (k, v) (set xs)"
  by (induction xs) auto

lemma BuildExecutionKey_port: "BuildExecutionKey ip p proto = Inr key \<Longrightarrow> port_ok p"
  by (auto simp: BuildExecutionKey_def port_ok_def Let_def split: if_splits option.splits)

lemma resolve_port_ok:
  assumes "resolve_port cidr target (byCIDR, seen) port = Inr (byCIDR', seen')"
    and "resolved_ok byCIDR" and "t_port target = 0"
  shows "resolved_ok byCIDR'"
proof -
  obtain key where key: "BuildExecutionKey (t_ip target) port ''tcp'' = Inr key"
    using assms(1) by (auto simp: resolve_port_def split: sum.splits)
  let ?m = "case map_of byCIDR cidr of None \<Rightarrow> [] | Some m \<Rightarrow> m"
  let ?r = "case map_of ?m (t_ip target) of None \<Rightarrow> \<lparr>br_target = target, br_ports = []\<rparr> | Some r \<Rightarrow> r"
  let ?r' = "if port \<in> set (br_ports ?r) then ?r else ?r\<lparr>br_ports := br_ports ?r @ [port]\<rparr>"
  let ?ok = "\<lambda>res. br_ports res \<noteq> [] \<and> (\<forall>p \<in> set (br_ports res). port_ok p) \<and> t_port (br_target res) = 0"
  have m: "\<forall>(ip, res) \<in> set ?m. ?ok res"
  proof (cases "map_of byCIDR cidr")
    case (Some m)
    then have "(cidr, m) \<in> set byCIDR" by (rule map_of_SomeD)
    then show ?thesis using assms(2) Some by (fastforce simp: resolved_ok_def)
  qed simp
  then have "\<forall>r. map_of ?m (t_ip target) = Some r \<longrightarrow> ?ok r"
    by (fastforce dest: map_of_SomeD)
  then have r': "?ok ?r'"
    using BuildExecutionKey_port [OF key] assms(3) by (cases "map_of ?m (t_ip target)") auto
  have "byCIDR' = byCIDR \<or> byCIDR' = AList.update cidr (AList.update (t_ip target) ?r' ?m) byCIDR"
    using assms(1) key by (auto simp: resolve_port_def Let_def split: if_splits)
  then show ?thesis
  proof
    assume u: "byCIDR' = AList.update cidr (AList.update (t_ip target) ?r' ?m) byCIDR"
    have "\<forall>(ip, res) \<in> set (AList.update (t_ip target) ?r' ?m). ?ok res"
      using m r' set_update_assoc [of "t_ip target" ?r' ?m] by blast
    then show ?thesis
      using assms(2) set_update_assoc [of cidr "AList.update (t_ip target) ?r' ?m" byCIDR] unfolding u resolved_ok_def by blast
  qed (use assms(2) in simp)
qed

lemma resolve_ports_ok:
  assumes "try_fold (resolve_port cidr target) (byCIDR, seen) ports = Inr (byCIDR', seen')"
    and "resolved_ok byCIDR" and "t_port target = 0"
  shows "resolved_ok byCIDR'"
proof -
  have "(\<lambda>s. resolved_ok (fst s)) (byCIDR', seen')"
    by (rule try_fold_invariant [OF assms(1)]) (use assms resolve_port_ok in auto)
  then show ?thesis by simp
qed

lemma try_bind_Inr_elim:
  assumes "try_bind r f = Inr b"
  obtains a where "r = Inr a" "f a = Inr b"
  using assms by (auto simp: try_bind_eq_Inr)

lemma resolve_record_ok:
  assumes "resolve_record_step ports P (c, byCIDR, seen) (i, r) = Inr (c', byCIDR', seen')" and "resolved_ok byCIDR"
  shows "resolved_ok byCIDR'"
proof -
  obtain c1 cidr c2 ts c3 ts' where ts: "basic_targetsContext c1 r = Inr (c2, ts)" "filterScanTargetsContext c2 ts P = Inr (c3, ts')"
    and rest: "(if ts' = [] then Inr (c3, byCIDR, seen)
       else let ps = (if 0 < Port r then [Port r] else ports) in
         if ps = [] then Inl (NoPortSource (RowNumber r))
         else try_bind (try_fold (\<lambda>s target. try_fold (resolve_port cidr target) s ps) (byCIDR, seen) ts')
           (\<lambda>(byCIDR', seen'). Inr (c3, byCIDR', seen'))) = Inr (c', byCIDR', seen')"
    using assms(1) unfolding resolve_record_step_def prod.case
    by (elim try_bind_Inr_elim) (auto simp del: Let_def split del: if_split elim!: try_bind_Inr_elim)
  have t: "basic_targetsContext c1 r = Inr (c2, ts)" "set ts' \<subseteq> set ts"
    using ts by (auto simp: filterScanTargetsContext_def split: option.splits)
  have "byCIDR' = byCIDR \<or>
      (\<exists>ps. try_fold (\<lambda>s target. try_fold (resolve_port cidr target) s ps) (byCIDR, seen) ts' = Inr (byCIDR', seen'))"
  proof (cases "ts' = []")
    case True
    then show ?thesis using rest by simp
  next
    case False
    define ps where "ps = (if 0 < Port r then [Port r] else ports)"
    have "try_fold (\<lambda>s target. try_fold (resolve_port cidr target) s ps) (byCIDR, seen) ts' = Inr (byCIDR', seen')"
      using rest False unfolding ps_def [symmetric] Let_def by (auto simp: try_bind_eq_Inr split: if_splits)
    then show ?thesis by blast
  qed
  then consider "byCIDR' = byCIDR" | ps where
    "try_fold (\<lambda>s target. try_fold (resolve_port cidr target) s ps) (byCIDR, seen) ts' = Inr (byCIDR', seen')" by blast
  note split = this
  have zero: "\<forall>t \<in> set ts'. t_port t = 0"
  proof -
    have "\<forall>t \<in> set ts. t_port t = 0"
      using t(1) by (auto simp: basic_targetsContext_def try_bind_eq_Inr split: option.splits)
    then show ?thesis using t(2) by blast
  qed
  from split show ?thesis
  proof cases
    case (2 ps)
    have "(\<lambda>s. resolved_ok (fst s)) (byCIDR', seen')"
      by (rule try_fold_invariant [OF 2]) (use assms(2) zero resolve_ports_ok in auto)
    then show ?thesis by simp
  qed (use assms(2) in simp)
qed

lemma group_resolved_shape:
  assumes "\<forall>(k, g) \<in> set gs. \<exists>ports. group_shape k g ports \<and> g_basicTargets g = []"
    and "br_ports res \<noteq> []" "\<forall>p \<in> set (br_ports res). port_ok p" "t_port (br_target res) = 0"
  shows "\<forall>(k, g) \<in> set (group_resolved cidr res gs). \<exists>ports. group_shape k g ports \<and> g_basicTargets g = []"
proof -
  let ?k = "basicResolutionGroupKey cidr (br_ports res)"
  have g: "g_basicTargets (get_group gs ?k) = [] \<and> (\<forall>t \<in> set (g_targets (get_group gs ?k)). t_port t = 0)"
    using assms(1) by (fastforce simp: get_group_def empty_group_def group_shape_def split: option.splits dest: map_of_SomeD)
  then have "group_shape ?k ((get_group gs ?k)\<lparr>g_cidr := cidr, g_ports := formatPortRows (br_ports res),
      g_targets := g_targets (get_group gs ?k) @ [br_target res]\<rparr>) (br_ports res)"
    using assms(2-4) by (auto simp: group_shape_def)
  then show ?thesis
    using assms(1) g set_update_assoc unfolding group_resolved_def Let_def by (fastforce dest!: subsetD [OF set_update_assoc])
qed

lemma groups_of_resolved_shape:
  assumes "resolved_ok byCIDR" and "(k, g) \<in> set (groups_of_resolved byCIDR)"
  shows "\<exists>ports. group_shape k g ports \<and> g_totalCount g = int (targetCount g) * int (length ports)"
proof -
  let ?I = "\<lambda>gs. \<forall>(k, g) \<in> set gs. \<exists>ports. group_shape k g ports \<and> g_basicTargets g = []"
  let ?f = "\<lambda>(cidr, byIP). fold (\<lambda>(ip, res). group_resolved cidr res) byIP"
  have inner: "?I (fold (\<lambda>(ip, res). group_resolved cidr res) byIP gs)"
    if "?I gs" "\<forall>(ip, res) \<in> set byIP. br_ports res \<noteq> [] \<and> (\<forall>p \<in> set (br_ports res). port_ok p) \<and> t_port (br_target res) = 0"
    for cidr byIP gs
    using that
  proof (induction byIP arbitrary: gs)
    case (Cons x xs)
    then show ?case using group_resolved_shape [of gs "snd x" cidr] by (cases x) auto
  qed simp
  have outer: "?I (fold ?f xs gs)" if "?I gs" "resolved_ok xs" for xs gs
    using that
  proof (induction xs arbitrary: gs)
    case (Cons x xs)
    obtain c m where x: "x = (c, m)" by fastforce
    have "\<forall>(ip, res) \<in> set m. br_ports res \<noteq> [] \<and> (\<forall>p \<in> set (br_ports res). port_ok p) \<and> t_port (br_target res) = 0"
      and xs: "resolved_ok xs" using Cons.prems(2) by (simp_all add: resolved_ok_def x)
    then have "?I (?f x gs)" unfolding x prod.case by (intro inner Cons.prems(1))
    then show ?case using Cons.IH [OF _ xs] by simp
  qed simp
  have I: "?I (fold ?f byCIDR [])" by (rule outer [OF _ assms(1)]) simp
  obtain g0 where g0: "(k, g0) \<in> set (fold ?f byCIDR [])"
    "g = g0\<lparr>g_targets := sort_key t_ipU32 (g_targets g0), g_totalCount := int (length (g_targets g0)) * int (length (g_ports g0))\<rparr>"
    using assms(2) unfolding groups_of_resolved_def by auto
  obtain ports where "group_shape k g0 ports" "g_basicTargets g0 = []" using I g0(1) by blast
  then show ?thesis
    unfolding g0(2) by (auto simp: group_shape_def targetCount_def formatPortRows_def)
qed

lemma fallback_numbers_props:
  "set (fallback_numbers specs) = Number ` set specs"
proof -
  have "set (fold (\<lambda>p acc. if Number p \<in> set acc then acc else acc @ [Number p]) specs acc) = set acc \<union> Number ` set specs" for acc
    by (induction specs arbitrary: acc) auto
  from this [of "[]"] show ?thesis by (simp add: fallback_numbers_def)
qed

lemma resolution_shape:
  assumes "resolveBasicTargetsContext None records specs alive = Inr gs"
    and "\<forall>s \<in> set specs. port_ok (Number s)" and "map_of gs k = Some g"
  shows "\<exists>ports. group_shape k g ports \<and> g_totalCount g = int (targetCount g) * int (length ports)"
proof (cases "\<not> hasBasicRowPorts records \<and> fallback_numbers specs \<noteq> []")
  case True
  then have res: "resolveBasicFallbackTargetsContext None records (fallback_numbers specs) alive = Inr gs"
    using assms(1) by (simp add: resolveBasicTargetsContext_def Let_def)
  obtain c where c: "k = basicResolutionGroupKey c (fallback_numbers specs)"
    using fallback_resolution(2) [OF res refl assms(3)] by blast
  then have "g = resolved_group (fallback_numbers specs) c (own_targets (normalizeReachablePredicate alive) records c)"
    using fallback_resolution(1) [OF res refl, of c] assms(3) by (simp split: if_splits)
  then show ?thesis
    using True c assms(2) fallback_numbers_props [of specs]
    by (intro exI [of _ "fallback_numbers specs"]) (auto simp: group_shape_def resolved_group_def targetCount_def)
next
  case False
  then obtain c' byCIDR seen where f: "try_fold (resolve_record_step (fallback_numbers specs) (normalizeReachablePredicate alive))
      (None, [], {}) (enumerate 0 records) = Inr (c', byCIDR, seen)" and gs: "gs = groups_of_resolved byCIDR"
    using assms(1) by (auto simp: resolveBasicTargetsContext_def Let_def try_bind_eq_Inr)
  have "(\<lambda>s. resolved_ok (fst (snd s))) (c', byCIDR, seen)"
  proof (rule try_fold_invariant [OF f])
    show "resolved_ok (fst (snd (None, [], {})))" by (simp add: resolved_ok_def)
    show "resolved_ok (fst (snd s'))" if "resolved_ok (fst (snd s))"
      "resolve_record_step (fallback_numbers specs) (normalizeReachablePredicate alive) s ir = Inr s'" for s ir s'
      using that resolve_record_ok by (cases s; cases ir; cases s') auto
  qed
  then show ?thesis
    using groups_of_resolved_shape [of byCIDR k g] assms(3) unfolding gs by (auto dest: map_of_SomeD)
qed

section \<open>One chunk\<close>

text \<open>A chunk of a scan that has not finished it\<close>

definition in_progress :: "Chunk \<Rightarrow> Chunk \<Rightarrow> bool" where
  "in_progress fresh ch \<longleftrightarrow> 0 \<le> NextIndex ch \<and> NextIndex ch < TotalCount fresh \<and>
     ch = fresh\<lparr>NextIndex := NextIndex ch, ScannedCount := ScannedCount ch, Status := Status ch\<rparr>"

lemma in_progress_fields:
  assumes "in_progress fresh ch"
  shows "chunkCIDR ch = chunkCIDR fresh" "Ports ch = Ports fresh" "TotalCount ch = TotalCount fresh"
    "0 \<le> NextIndex ch" "NextIndex ch < TotalCount ch" "\<not> chunkIsCompleted ch"
proof -
  have eq: "ch = fresh\<lparr>NextIndex := NextIndex ch, ScannedCount := ScannedCount ch, Status := Status ch\<rparr>"
    and n: "0 \<le> NextIndex ch" "NextIndex ch < TotalCount fresh"
    using assms by (simp_all add: in_progress_def)
  show "chunkCIDR ch = chunkCIDR fresh" "Ports ch = Ports fresh" and total: "TotalCount ch = TotalCount fresh"
    by (subst eq, simp)+
  show "0 \<le> NextIndex ch" "NextIndex ch < TotalCount ch" "\<not> chunkIsCompleted ch"
    using n total by (simp_all add: chunkIsCompleted_def)
qed

definition runtime_fits :: "Chunk \<Rightarrow> built_runtime \<Rightarrow> bool" where
  "runtime_fits ch rt \<longleftrightarrow>
     runtime_ok (br_runtime rt) \<and> TotalCount ch = int (length (runtime_plan (br_runtime rt))) \<and>
     br_chunk rt = ch\<lparr>Status := Status (br_chunk rt)\<rparr>"

lemma parse_formatted: "\<forall>p \<in> set ports. port_ok p \<Longrightarrow> parsePortRowsContext None (formatPortRows ports) = Inr (None, ports)"
proof -
  assume "\<forall>p \<in> set ports. port_ok p"
  then have "parsePortRowsContext None (map port_line ports) = Inr (None, ports)"
    by (intro parsePortRowsContext_print) (simp add: port_ok_def)
  then show ?thesis by (simp add: formatPortRows_def port_line_def [abs_def])
qed

lemma runtime_for_fits:
  assumes group: "chunk_group richMode gs specs ch = Inr (ch, g)" and rows: "Ports ch = formatPortRows ports"
    and ports: "ports \<noteq> []" "\<forall>p \<in> set ports. port_ok p"
    and store: "g_targets g = [] \<or> g_basicTargets g = []"
    and kind: "list_all (\<lambda>t. 0 < t_port t) (g_targets g) \<or> list_all (\<lambda>t. t_port t \<le> 0) (g_targets g)"
    and total: "TotalCount ch = int (targetCount g) * int (length ports)" "\<not> richMode \<longrightarrow> g_totalCount g = TotalCount ch"
    and next_index: "0 \<le> NextIndex ch" "NextIndex ch < TotalCount ch"
  shows "\<exists>rt. runtime_for None richMode gs specs policy ch = Inr (None, rt) \<and> runtime_fits ch rt"
proof -
  let ?rt = "\<lparr>rt_ipCidr = chunkCIDR ch, rt_ports = ports, rt_targets = g_targets g, rt_basicTargets = g_basicTargets g\<rparr>"
  let ?ch = "if Status ch = [] then ch\<lparr>Status := ''pending''\<rparr> else ch"
  have run: "runtime_for None richMode gs specs policy ch =
      Inr (None, \<lparr>br_runtime = ?rt, br_chunk = ?ch, br_bucket = newRuntimeBucket (TotalCount ch - NextIndex ch) policy\<rparr>)"
    using group store total next_index parse_formatted [OF ports(2)]
    by (auto simp: runtime_for_def rows lift_group_def validateTargetStorage_def Let_def)
  have ok: "runtime_ok ?rt"
    using store ports(1) kind by (auto simp: runtime_ok_def)
  have "runtime_fits ch \<lparr>br_runtime = ?rt, br_chunk = ?ch, br_bucket = newRuntimeBucket (TotalCount ch - NextIndex ch) policy\<rparr>"
    using ok length_runtime_plan [OF ok] total(1)
    by (simp add: runtime_fits_def runtime_targetCount_def targetCount_def)
  then show ?thesis using run by blast
qed

lemma rich_runtime_fits:
  assumes look: "map_of gs k = Some g" and g: "g_targets g \<noteq> []" "g_basicTargets g = []" "\<forall>t \<in> set (g_targets g). port_ok (t_port t)"
    and ch: "in_progress (richChunkFromGroup k g) ch"
  shows "\<exists>rt. runtime_for None True gs specs policy ch = Inr (None, rt) \<and> runtime_fits ch rt"
proof (rule runtime_for_fits [where ports = "[rich_port_of g]"])
  note f = in_progress_fields [OF ch]
  show "chunk_group True gs specs ch = Inr (ch, g)"
    using look by (simp add: chunk_group_def f(1,2) richChunkFromGroup_def)
  show "\<forall>p \<in> set [rich_port_of g]. port_ok p"
    using g(1,3) by (auto simp: rich_port_of_def port_ok_def)
  show "list_all (\<lambda>t. 0 < t_port t) (g_targets g) \<or> list_all (\<lambda>t. t_port t \<le> 0) (g_targets g)"
    using g(3) by (force simp: list_all_iff port_ok_def)
qed (use g in_progress_fields [OF ch] in \<open>auto simp: richChunkFromGroup_def formatPortRows_def targetCount_def\<close>)

lemma basic_runtime_fits:
  assumes look: "map_of gs k = Some g" and shape: "group_shape k g ports" "g_totalCount g = int (targetCount g) * int (length ports)"
    and ch: "in_progress (basicChunkFromGroup g) ch"
  shows "\<exists>rt. runtime_for None False gs specs policy ch = Inr (None, rt) \<and> runtime_fits ch rt"
proof (rule runtime_for_fits [where ports = ports])
  note f = in_progress_fields [OF ch]
  have s: "ports \<noteq> []" "\<forall>p \<in> set ports. port_ok p" "k = basicResolutionGroupKey (g_cidr g) ports" "g_ports g = formatPortRows ports"
    using shape(1) by (simp_all add: group_shape_def)
  have "formatPortRows ports \<noteq> []" using s(1) by (simp add: formatPortRows_def)
  then show "chunk_group False gs specs ch = Inr (ch, g)"
    using look s parse_formatted [OF s(2)]
    by (simp add: chunk_group_def groupForChunk_def lift_group_def f(1,2) basicChunkFromGroup_def)
  show "Ports ch = formatPortRows ports" using s(4) by (simp add: f(2) basicChunkFromGroup_def)
  show "list_all (\<lambda>t. 0 < t_port t) (g_targets g) \<or> list_all (\<lambda>t. t_port t \<le> 0) (g_targets g)"
    using shape(1) by (simp add: group_shape_def list_all_iff)
qed (use shape in_progress_fields [OF ch] in \<open>auto simp: group_shape_def basicChunkFromGroup_def\<close>)

section \<open>All chunks\<close>

lemma build_all:
  assumes "\<forall>ch \<in> set chunks. \<not> chunkIsCompleted ch \<and>
    (\<exists>rt. runtime_for None richMode gs specs policy ch = Inr (None, rt) \<and> runtime_fits ch rt)"
  shows "\<exists>rts. try_fold (build_step richMode gs specs policy) (None, acc) chunks = Inr (None, acc @ rts) \<and>
    list_all2 runtime_fits chunks rts"
  using assms
proof (induction chunks arbitrary: acc)
  case (Cons ch chunks)
  then obtain rt where rt: "runtime_for None richMode gs specs policy ch = Inr (None, rt)" "runtime_fits ch rt" by auto
  obtain rts where "try_fold (build_step richMode gs specs policy) (None, acc @ [rt]) chunks = Inr (None, (acc @ [rt]) @ rts)"
    "list_all2 runtime_fits chunks rts"
    using Cons.IH [of "acc @ [rt]"] Cons.prems by auto
  moreover have "build_step richMode gs specs policy (None, acc) ch = Inr (None, acc @ [rt])"
    using rt Cons.prems by (simp add: build_step_def)
  ultimately show ?case
    using rt(2) by (intro exI [of _ "rt # rts"]) simp
qed simp

lemma generated_chunk:
  assumes "generated_chunks None records specs alive = Inr fresh" and "ch \<in> set fresh"
    and valid_rich: "hasRichRecords records \<longrightarrow> (\<forall>r \<in> set records. IsRich r \<and> IsValid r \<longrightarrow> port_ok (Port r))"
    and valid_basic: "\<not> hasRichRecords records \<longrightarrow> (\<forall>s \<in> set specs. port_ok (Number s))"
  obtains (rich) gs k g where "hasRichRecords records" "buildRichGroupsWithPredicateContext None records (Some alive) = Inr gs"
      "map_of gs k = Some g" "g_targets g \<noteq> []" "g_basicTargets g = []" "\<forall>t \<in> set (g_targets g). port_ok (t_port t)"
      "ch = richChunkFromGroup k g"
  | (basic) gs k g ports where "\<not> hasRichRecords records" "resolveBasicTargetsContext None records specs (Some alive) = Inr gs"
      "map_of gs k = Some g" "group_shape k g ports" "g_totalCount g = int (targetCount g) * int (length ports)"
      "ch = basicChunkFromGroup g"
proof (cases "hasRichRecords records")
  case True
  then obtain gs where gs: "buildRichGroupsWithPredicateContext None records (Some alive) = Inr gs"
    and "ch \<in> set (fanOutGroupChunks (sort (map fst gs)) gs True)"
    using assms(1,2) by (auto simp: generated_chunks_def Let_def try_bind_eq_Inr)
  then obtain k where k: "k \<in> set (map fst gs)" "ch = richChunkFromGroup k (get_group gs k)"
    by (auto simp: fanOutGroupChunks_def)
  then obtain g where g: "map_of gs k = Some g"
    by (metis list.set_map map_of_eq_None_iff not_None_eq)
  obtain c' gs0 owner v where f: "try_fold (rich_record_step (deniedRichExecutionKeys records) (normalizeReachablePredicate (Some alive)))
       (None, [], [], False) (enumerate 0 records) = Inr (c', gs0, owner, v)" and sorted: "gs = sortRichGroups gs0"
    by (rule build_rich_cases [OF gs])
  note exact = build_rich_inv [OF f]
  obtain g0 where g0: "(k, g0) \<in> set gs0" "g_targets g = sort_rich_targets (g_targets g0)" "g_basicTargets g = g_basicTargets g0"
    using map_of_SomeD [OF g] unfolding sorted sortRichGroups_def by auto
  have "map_of gs0 k = Some g0"
    using g0(1) owners_exactD(1) [OF exact] by simp
  then have "g_targets g0 \<noteq> []" "g_basicTargets g0 = []"
    using owners_exactD(2) [OF exact] by blast+
  then have "g_targets g \<noteq> []" "g_basicTargets g = []"
    using g0(2,3) by (metis set_empty set_sort_rich, simp)
  moreover have "\<forall>t \<in> set (g_targets g). port_ok (t_port t)"
    using rich_groups_ports [OF gs] valid_rich True map_of_SomeD [OF g] by (fastforce simp: ports_in_def)
  ultimately show ?thesis
    using that(1) [OF True gs g] k(2) g by (simp add: get_group_def)
next
  case False
  then obtain gs where gs: "resolveBasicTargetsContext None records specs (Some alive) = Inr gs"
    and "ch \<in> set (fanOutGroupChunks (sort (map fst gs)) gs False)"
    using assms(1,2) by (auto simp: generated_chunks_def Let_def try_bind_eq_Inr)
  then obtain k where k: "k \<in> set (map fst gs)" "ch = basicChunkFromGroup (get_group gs k)"
    by (auto simp: fanOutGroupChunks_def)
  then obtain g where g: "map_of gs k = Some g"
    by (metis list.set_map map_of_eq_None_iff not_None_eq)
  then show ?thesis
    using that(2) [OF False gs g] resolution_shape [OF gs _ g] valid_basic False k(2) by (auto simp: get_group_def)
qed

lemma basicFallback_parses:
  assumes "\<forall>ch \<in> set chunks. \<exists>ports. parsePortRowsContext None (Ports ch) = Inr (None, ports)"
  shows "\<exists>dp. basicFallbackFromChunks chunks = Inr dp"
proof -
  let ?f = "\<lambda>numbers ch. try_bind (parsePortRowsContext None (Ports ch)) (\<lambda>(c, ports).
         Inr (fold (\<lambda>p acc. if p \<in> set acc then acc else acc @ [p]) ports numbers))"
  have "\<exists>numbers. try_fold ?f acc chunks = Inr numbers" for acc
    using assms by (induction chunks arbitrary: acc) force+
  from this [of "[]"] show ?thesis by (auto simp: basicFallbackFromChunks_def)
qed

lemma in_progress_list:
  assumes "list_all2 in_progress fresh chunks" and "ch \<in> set chunks"
  shows "\<exists>f \<in> set fresh. in_progress f ch"
proof -
  obtain i where "i < length chunks" "ch = chunks ! i" using assms(2) by (auto simp: in_set_conv_nth)
  then have "in_progress (fresh ! i) ch" "fresh ! i \<in> set fresh"
    using assms(1) by (simp_all add: list_all2_conv_all_nth)
  then show ?thesis by blast
qed

lemma fits_targets:
  assumes "list_all2 runtime_fits chunks rts" and "\<forall>ch \<in> set chunks. 0 \<le> NextIndex ch"
  shows "targets_fit (env\<lparr>env_runtimes := map br_runtime rts\<rparr>) (map br_chunk rts)"
proof -
  have len: "length chunks = length rts" using assms(1) by (rule list_all2_lengthD)
  have "runtime_ok (br_runtime (rts ! k)) \<and> 0 \<le> NextIndex (br_chunk (rts ! k)) \<and>
      TotalCount (br_chunk (rts ! k)) = int (length (runtime_plan (br_runtime (rts ! k))))" if k: "k < length rts" for k
  proof -
    have fit: "runtime_fits (chunks ! k) (rts ! k)" using list_all2_nthD [OF assms(1)] k len by simp
    then have eq: "br_chunk (rts ! k) = (chunks ! k)\<lparr>Status := Status (br_chunk (rts ! k))\<rparr>"
      by (simp add: runtime_fits_def)
    have "NextIndex (br_chunk (rts ! k)) = NextIndex (chunks ! k)" "TotalCount (br_chunk (rts ! k)) = TotalCount (chunks ! k)"
      by (subst eq, simp)+
    then show ?thesis using fit assms(2) k len by (simp add: runtime_fits_def)
  qed
  then show ?thesis by (simp add: targets_fit_def)
qed

lemma chunk_rows_parse:
  assumes "generated_chunks None records specs alive = Inr fresh" and "f \<in> set fresh"
    and "hasRichRecords records \<longrightarrow> (\<forall>r \<in> set records. IsRich r \<and> IsValid r \<longrightarrow> port_ok (Port r))"
    and "\<not> hasRichRecords records \<longrightarrow> (\<forall>s \<in> set specs. port_ok (Number s))"
  shows "\<exists>ports. parsePortRowsContext None (Ports f) = Inr (None, ports)"
  using assms
proof (cases rule: generated_chunk)
  case (rich gs k g)
  then have "port_ok (rich_port_of g)" by (auto simp: rich_port_of_def port_ok_def)
  then show ?thesis
    using parse_formatted [of "[rich_port_of g]"] rich(7) by (auto simp: richChunkFromGroup_def formatPortRows_def)
next
  case (basic gs k g ports)
  then show ?thesis
    using parse_formatted [of ports] by (auto simp: group_shape_def basicChunkFromGroup_def)
qed

lemma generated_resumes:
  assumes "generated_chunks None records specs alive = Inr fresh"
    and "list_all2 in_progress fresh chunks"
    and "hasRichRecords records \<longrightarrow> (\<forall>r \<in> set records. IsRich r \<and> IsValid r \<longrightarrow> port_ok (Port r))"
    and "\<not> hasRichRecords records \<longrightarrow> (\<forall>s \<in> set specs. port_ok (Number s)) \<and> (specs \<noteq> [] \<or> hasBasicRowPorts records)"
  shows "\<exists>rts. buildRuntimeWithPredicateContext None None None chunks records specs policy (Some alive) = Inr rts \<and>
    list_all2 runtime_fits chunks rts \<and> targets_fit (env\<lparr>env_runtimes := map br_runtime rts\<rparr>) (map br_chunk rts)"
proof -
  have valid_specs: "\<not> hasRichRecords records \<longrightarrow> (\<forall>s \<in> set specs. port_ok (Number s))" using assms(4) by blast
  have unfinished: "\<not> chunkIsCompleted ch \<and> 0 \<le> NextIndex ch" if "ch \<in> set chunks" for ch
    using in_progress_list [OF assms(2) that] in_progress_fields by blast
  then have inc: "filter (\<lambda>ch. \<not> chunkIsCompleted ch) chunks = chunks" and start: "\<forall>ch \<in> set chunks. 0 \<le> NextIndex ch"
    by auto
  have "\<exists>ports. parsePortRowsContext None (Ports ch) = Inr (None, ports)" if "ch \<in> set chunks" for ch
    using in_progress_list [OF assms(2) that] chunk_rows_parse [OF assms(1) _ assms(3) valid_specs] in_progress_fields(2) by metis
  then obtain dp0 where "basicFallbackFromChunks chunks = Inr dp0" using basicFallback_parses by blast
  then obtain dp where dp: "(if specs = [] \<and> \<not> hasBasicRowPorts records then lift_group (basicFallbackFromChunks chunks)
      else Inr specs) = Inr dp" "\<not> hasRichRecords records \<Longrightarrow> dp = specs"
    using assms(4) by (cases "specs = [] \<and> \<not> hasBasicRowPorts records") (auto simp: lift_group_def)
  obtain gs where gs: "(if hasRichRecords records then buildRichGroupsWithPredicateContext None records (Some alive)
      else resolveBasicTargetsContext None records specs (Some alive)) = Inr gs"
    using assms(1) by (auto simp: generated_chunks_def Let_def try_bind_eq_Inr)
  have "\<exists>rt. runtime_for None (hasRichRecords records) gs dp policy ch = Inr (None, rt) \<and> runtime_fits ch rt"
    if ch: "ch \<in> set chunks" for ch
  proof -
    obtain f where f: "f \<in> set fresh" "in_progress f ch" using in_progress_list [OF assms(2) ch] by blast
    show ?thesis
      using assms(1) f(1) assms(3) valid_specs
    proof (cases rule: generated_chunk)
      case (rich gs' k g)
      then have "gs' = gs" using gs by simp
      then show ?thesis using rich_runtime_fits [OF rich(3-6)] f(2) rich(1,7) by simp
    next
      case (basic gs' k g ports)
      then have "gs' = gs" using gs by simp
      then show ?thesis using basic_runtime_fits [OF basic(3-5)] f(2) basic(1,6) by simp
    qed
  qed
  then obtain rts where rts: "try_fold (build_step (hasRichRecords records) gs dp policy) (None, []) chunks = Inr (None, rts)"
    "list_all2 runtime_fits chunks rts"
    using build_all [of chunks "hasRichRecords records" gs dp policy "[]"] unfinished by auto
  have groups: "(if map chunkCIDR chunks = [] then Inr []
      else if hasRichRecords records then lift_group (buildRichGroupsWithPredicateContext None records (Some alive))
      else lift_group (resolveBasicTargetsContext None records dp (Some alive))) = Inr (if chunks = [] then [] else gs)"
    using gs dp(2) by (auto simp: lift_group_def split: if_splits)
  have empty: "try_fold (build_step (hasRichRecords records) (if chunks = [] then [] else gs) dp policy) (None, []) chunks = Inr (None, rts)"
    using rts(1) by (cases chunks) simp_all
  have "selectRuntimeRecords None records (map chunkCIDR chunks) allTotal (length chunks) (length chunks) = Inr records" for allTotal
    by (simp add: selectRuntimeRecords_def)
  then have "buildRuntimeWithPredicateContext None None None chunks records specs policy (Some alive) = Inr rts"
    using dp(1) groups empty by (simp add: buildRuntimeWithPredicateContext_def inc Let_def lift_group_def)
  then show ?thesis using rts(2) fits_targets [OF rts(2) start] by blast
qed


definition tcp_specs :: "int list \<Rightarrow> PortSpec list" where
  "tcp_specs ports = map (\<lambda>p. \<lparr>Number = p, Proto = ''tcp'', Raw = itoa p @ ''/tcp''\<rparr>) ports"

lemma sample_generated:
  "\<exists>fresh. generated_chunks None sample_basics (tcp_specs [80, 443]) (\<lambda>_. True) = Inr fresh \<and>
    map (\<lambda>ch. (chunkCIDR ch, TotalCount ch)) fresh = [(''10.0.0.0/24'', 2), (''10.0.0.0/8'', 2)]"
proof -
  have "case generated_chunks None sample_basics (tcp_specs [80, 443]) (\<lambda>_. True) of Inl e \<Rightarrow> False
    | Inr fresh \<Rightarrow> map (\<lambda>ch. (chunkCIDR ch, TotalCount ch)) fresh = [(''10.0.0.0/24'', 2), (''10.0.0.0/8'', 2)]"
    by code_simp
  then show ?thesis by (auto split: sum.splits)
qed


text \<open>Property C34. Two networks of which one lies inside the other make an input that
  generate-buckets accepts but whose scan cannot always be resumed: when the scan is interrupted
  after the inner network is done, the rebuild leaves out the rows of the inner network, counts
  its addresses for the outer one, and refuses the snapshot as incompatible, although the input
  has not changed.\<close>

theorem nested_networks_block_resume:
  "\<exists>inner outer. generated_chunks None sample_basics (tcp_specs [80, 443]) (\<lambda>_. True) = Inr [inner, outer] \<and>
    chunkIsCompleted (inner\<lparr>NextIndex := 2, ScannedCount := 2\<rparr>) \<and>
    buildRuntimeWithPredicateContext None None None [inner\<lparr>NextIndex := 2, ScannedCount := 2\<rparr>, outer]
      sample_basics (tcp_specs [80, 443]) \<lparr>bucketRate = 100, bucketCapacity = 100, disableRateLimit = False\<rparr>
      (Some (\<lambda>_. True)) = Inl (IncompatibleTotal ''10.0.0.0/8'' 2 4)"
proof -
  have "case generated_chunks None sample_basics (tcp_specs [80, 443]) (\<lambda>_. True) of Inr [inner, outer] \<Rightarrow>
    chunkIsCompleted (inner\<lparr>NextIndex := 2, ScannedCount := 2\<rparr>) \<and>
    (case buildRuntimeWithPredicateContext None None None [inner\<lparr>NextIndex := 2, ScannedCount := 2\<rparr>, outer]
      sample_basics (tcp_specs [80, 443]) \<lparr>bucketRate = 100, bucketCapacity = 100, disableRateLimit = False\<rparr>
      (Some (\<lambda>_. True)) of Inl (IncompatibleTotal c n m) \<Rightarrow> c = ''10.0.0.0/8'' \<and> n = 2 \<and> m = 4 | _ \<Rightarrow> False) | _ \<Rightarrow> False"
    by code_simp
  then show ?thesis by (auto split: sum.splits list.splits build_error.splits)
qed

section \<open>When no snapshot is saved\<close>

lemma persist_saves:
  "persistResumeSnapshot (trackers (final_committer flush_op s)) dispatchErr runErr = Some saved \<Longrightarrow>
   saved = saved_chunks flush_op s"
  by (auto simp: persistResumeSnapshot_def collectChunkStates_def saved_chunks_def final_committer_def Let_def split: if_splits)

lemma persist_none:
  assumes "persistResumeSnapshot (trackers (final_committer flush_op s)) dispatchErr runErr = None"
    and "k < length (saved_chunks flush_op s)"
  shows "TotalCount (saved_chunks flush_op s ! k) \<le> ScannedCount (saved_chunks flush_op s ! k)"
proof -
  let ?ts = "trackers (final_committer flush_op s)"
  have whole: "TotalCount (tr_chunk t) \<le> ScannedCount (tr_chunk t)" if "t \<in> set (map (\<lambda>t. snd (RewindUnwritten t)) ?ts)" for t
    using assms(1) that by (auto simp: persistResumeSnapshot_def hasIncomplete_def Let_def not_less split: if_splits)
  have k: "k < length ?ts" using assms(2) by (simp add: saved_chunks_def final_committer_def)
  then have "snd (RewindUnwritten (?ts ! k)) \<in> set (map (\<lambda>t. snd (RewindUnwritten t)) ?ts)" by simp
  from whole [OF this] show ?thesis by (simp only: saved_chunks_nth [OF k])
qed



end
