(* ===== verification/JsonText.thy ===== *)
theory JsonText
  imports GoBase
begin

text \<open>
  What \<open>pkg/state\<close> uses of \<open>encoding/json\<close>: how a string is written (\<open>json.Marshal\<close>), which byte
  sequences are JSON texts and what value they have (the scanner behind \<open>json.Unmarshal\<close>), and
  the fact that a written string is read back. A byte that is not part of a valid UTF-8 sequence
  is written as U+FFFD, so what is read back is the text with those bytes replaced.

  The decoder's nesting limit of 10,000 is left out: the types decoded here nest four deep, and a
  deeper text is refused by the decoding either way.
\<close>

abbreviation code :: "char \<Rightarrow> nat" where
  "code c \<equiv> of_char c"

abbreviation quote :: char where
  "quote \<equiv> CHR 0x22"

abbreviation backslash :: char where
  "backslash \<equiv> CHR 0x5C"

section \<open>UTF-8\<close>

definition cont_byte :: "char \<Rightarrow> bool" where
  "cont_byte c \<longleftrightarrow> 0x80 \<le> code c \<and> code c \<le> 0xBF"

text \<open>\<open>utf8.DecodeRune\<close> on a first byte that is not ASCII: the length of the sequence, 0 when it
  is not valid.\<close>

definition pair_lead :: "char \<Rightarrow> bool" where
  "pair_lead a \<longleftrightarrow> 0xC2 \<le> code a \<and> code a \<le> 0xDF"

definition triple_lead :: "char \<Rightarrow> bool" where
  "triple_lead a \<longleftrightarrow> 0xE0 \<le> code a \<and> code a \<le> 0xEF"

definition triple_second :: "char \<Rightarrow> char \<Rightarrow> bool" where
  "triple_second a b \<longleftrightarrow>
     (if code a = 0xE0 then 0xA0 \<le> code b \<and> code b \<le> 0xBF
      else if code a = 0xED then 0x80 \<le> code b \<and> code b \<le> 0x9F
      else cont_byte b)"

definition quad_second :: "char \<Rightarrow> char \<Rightarrow> bool" where
  "quad_second a b \<longleftrightarrow> 0xF0 \<le> code a \<and> code a \<le> 0xF4 \<and>
     (if code a = 0xF0 then 0x90 \<le> code b \<and> code b \<le> 0xBF
      else if code a = 0xF4 then 0x80 \<le> code b \<and> code b \<le> 0x8F
      else cont_byte b)"

fun rune_size :: "string \<Rightarrow> nat" where
  "rune_size (a # b # s) =
     (if pair_lead a then (if cont_byte b then 2 else 0)
      else (case s of [] \<Rightarrow> 0
        | c # s2 \<Rightarrow>
          if triple_lead a then (if triple_second a b \<and> cont_byte c then 3 else 0)
          else (case s2 of [] \<Rightarrow> 0 | d # _ \<Rightarrow> if quad_second a b \<and> cont_byte c \<and> cont_byte d then 4 else 0)))"
| "rune_size _ = 0"

declare rune_size.simps [simp del]

lemma rune_size_shape:
  assumes "rune_size s \<noteq> 0"
  obtains (Two) a b t where "s = a # b # t" "rune_size s = 2" "pair_lead a" "cont_byte b"
  | (Three) a b c t where "s = a # b # c # t" "rune_size s = 3" "\<not> pair_lead a" "triple_lead a" "triple_second a b" "cont_byte c"
  | (Four) a b c d t where "s = a # b # c # d # t" "rune_size s = 4" "\<not> pair_lead a" "\<not> triple_lead a" "quad_second a b" "cont_byte c" "cont_byte d"
  using assms by (cases s rule: rune_size.cases) (auto simp: rune_size.simps split: list.splits if_splits)

lemma rune_size_take: "rune_size s \<noteq> 0 \<Longrightarrow> rune_size (take (rune_size s) s @ t) = rune_size s"
  by (erule rune_size_shape) (simp_all add: rune_size.simps)

lemma rune_size_le: "rune_size s \<le> length s"
proof (cases "rune_size s = 0")
  case False
  then show ?thesis by (rule rune_size_shape) simp_all
qed simp

lemma lead_high: "pair_lead a \<Longrightarrow> 0x80 \<le> code a" "triple_lead a \<Longrightarrow> 0x80 \<le> code a" "quad_second a b \<Longrightarrow> 0x80 \<le> code a"
  "cont_byte b \<Longrightarrow> 0x80 \<le> code b" "triple_second a b \<Longrightarrow> 0x80 \<le> code b" "quad_second a b \<Longrightarrow> 0x80 \<le> code b"
  by (auto simp: pair_lead_def triple_lead_def quad_second_def triple_second_def cont_byte_def split: if_splits)

lemma rune_size_high:
  assumes "rune_size s \<noteq> 0"
  shows "\<forall>x \<in> set (take (rune_size s) s). 0x80 \<le> code x"
  using assms by (rule rune_size_shape) (auto dest: lead_high)

text \<open>The bytes of a code point (\<open>utf8.AppendRune\<close>)\<close>

definition utf8_encode :: "nat \<Rightarrow> string" where
  "utf8_encode n =
     (if n < 0x80 then [char_of n]
      else if n < 0x800 then [char_of (0xC0 + n div 64), char_of (0x80 + n mod 64)]
      else if n < 0x10000 then
        [char_of (0xE0 + n div 4096), char_of (0x80 + n div 64 mod 64), char_of (0x80 + n mod 64)]
      else [char_of (0xF0 + n div 262144), char_of (0x80 + n div 4096 mod 64),
            char_of (0x80 + n div 64 mod 64), char_of (0x80 + n mod 64)])"

definition replacement :: string where
  "replacement = [CHR 0xEF, CHR 0xBF, CHR 0xBD]"

text \<open>\<open>strings.ToValidUTF8\<close> byte by byte: what a reader gets for a written string\<close>

function to_valid :: "string \<Rightarrow> string" where
  "to_valid [] = []"
| "to_valid (c # s) =
     (if code c < 0x80 then c # to_valid s
      else let n = rune_size (c # s) in
        if n = 0 then replacement @ to_valid s else take n (c # s) @ to_valid (drop n (c # s)))"
  by pat_completeness auto
termination by (relation "measure length") auto

definition valid_utf8 :: "string \<Rightarrow> bool" where
  "valid_utf8 s \<longleftrightarrow> to_valid s = s"

section \<open>Writing strings\<close>

definition hex_low :: "nat \<Rightarrow> char" where
  "hex_low d = (if d < 10 then char_of (48 + d) else char_of (87 + d))"

definition html_safe :: "char \<Rightarrow> bool" where
  "html_safe c \<longleftrightarrow> 0x20 \<le> code c \<and> c \<notin> {quote, backslash, CHR ''<'', CHR ''>'', CHR ''&''}"

definition quote_ascii :: "char \<Rightarrow> string" where
  "quote_ascii c =
     (if html_safe c then [c]
      else if c = backslash \<or> c = quote then [backslash, c]
      else if code c = 8 then [backslash, CHR ''b'']
      else if code c = 12 then [backslash, CHR ''f'']
      else if code c = 10 then [backslash, CHR ''n'']
      else if code c = 13 then [backslash, CHR ''r'']
      else if code c = 9 then [backslash, CHR ''t'']
      else backslash # ''u00'' @ [hex_low (code c div 16), hex_low (code c mod 16)])"

definition line_separators :: "string list" where
  "line_separators = [[CHR 0xE2, CHR 0x80, CHR 0xA8], [CHR 0xE2, CHR 0x80, CHR 0xA9]]"

function quote_body :: "string \<Rightarrow> string" where
  "quote_body [] = []"
| "quote_body (c # s) =
     (if code c < 0x80 then quote_ascii c @ quote_body s
      else let n = rune_size (c # s) in
        if n = 0 then backslash # ''ufffd'' @ quote_body s
        else if take 3 (c # s) \<in> set line_separators
        then backslash # ''u202'' @ hex_low (code (s ! 1) mod 16) # quote_body (drop n (c # s))
        else take n (c # s) @ quote_body (drop n (c # s)))"
  by pat_completeness auto
termination by (relation "measure length") auto

definition json_quote :: "string \<Rightarrow> string" where
  "json_quote s = quote # quote_body s @ [quote]"

section \<open>Reading strings\<close>

definition hex_value :: "char \<Rightarrow> nat option" where
  "hex_value c =
     (let n = code c in
      if 48 \<le> n \<and> n \<le> 57 then Some (n - 48)
      else if 97 \<le> n \<and> n \<le> 102 then Some (n - 87)
      else if 65 \<le> n \<and> n \<le> 70 then Some (n - 55) else None)"

definition is_hex :: "char \<Rightarrow> bool" where
  "is_hex c \<longleftrightarrow> hex_value c \<noteq> None"

definition cons_fst :: "string \<Rightarrow> (string \<times> string) option \<Rightarrow> (string \<times> string) option" where
  "cons_fst w r = map_option (\<lambda>(a, b). (w @ a, b)) r"

definition simple_escape :: "char \<Rightarrow> bool" where
  "simple_escape e \<longleftrightarrow> e \<in> set [quote, backslash, CHR ''/'', CHR ''b'', CHR ''f'', CHR ''n'', CHR ''r'', CHR ''t'']"

text \<open>The text after an opening quote up to the closing one, and what follows it\<close>

fun scan_str :: "string \<Rightarrow> (string \<times> string) option" where
  "scan_str [] = None"
| "scan_str (c # s) =
     (if c = quote then Some ([], s)
      else if code c < 0x20 then None
      else if c = backslash then
        (case s of [] \<Rightarrow> None
         | e # s1 \<Rightarrow>
           if simple_escape e then cons_fst [c, e] (scan_str s1)
           else if e = CHR ''u'' then
             (case s1 of h1 # h2 # h3 # h4 # s2 \<Rightarrow>
                if is_hex h1 \<and> is_hex h2 \<and> is_hex h3 \<and> is_hex h4
                then cons_fst [c, e, h1, h2, h3, h4] (scan_str s2) else None
              | _ \<Rightarrow> None)
           else None)
      else cons_fst [c] (scan_str s))"

definition hex4 :: "char \<Rightarrow> char \<Rightarrow> char \<Rightarrow> char \<Rightarrow> nat" where
  "hex4 a b c d = ((the (hex_value a) * 16 + the (hex_value b)) * 16 + the (hex_value c)) * 16 + the (hex_value d)"

definition is_surrogate :: "nat \<Rightarrow> bool" where
  "is_surrogate n \<longleftrightarrow> 0xD800 \<le> n \<and> n < 0xE000"

text \<open>The second half of a surrogate pair, when the text goes on with one (\<open>getu4\<close>)\<close>

definition low_half :: "nat \<Rightarrow> string \<Rightarrow> nat option" where
  "low_half hi s =
     (case s of b # u # h1 # h2 # h3 # h4 # _ \<Rightarrow>
        if b = backslash \<and> u = CHR ''u'' \<and> is_hex h1 \<and> is_hex h2 \<and> is_hex h3 \<and> is_hex h4 \<and>
          hi < 0xDC00 \<and> 0xDC00 \<le> hex4 h1 h2 h3 h4 \<and> hex4 h1 h2 h3 h4 < 0xE000
        then Some (0x10000 + (hi - 0xD800) * 1024 + (hex4 h1 h2 h3 h4 - 0xDC00)) else None
      | _ \<Rightarrow> None)"

definition unescape :: "char \<Rightarrow> char" where
  "unescape e = (if e = CHR ''b'' then CHR 0x08 else if e = CHR ''f'' then CHR 0x0C
     else if e = CHR ''n'' then CHR 0x0A else if e = CHR ''r'' then CHR 0x0D
     else if e = CHR ''t'' then CHR 0x09 else e)"

function unquote :: "string \<Rightarrow> string" where
  "unquote [] = []"
| "unquote (c # s) =
     (if c = backslash then
        (case s of [] \<Rightarrow> []
         | e # s1 \<Rightarrow>
           if e = CHR ''u'' then
             (case s1 of h1 # h2 # h3 # h4 # s2 \<Rightarrow>
                let r = hex4 h1 h2 h3 h4 in
                if \<not> is_surrogate r then utf8_encode r @ unquote s2
                else (case low_half r s2 of
                    Some rune \<Rightarrow> utf8_encode rune @ unquote (drop 6 s2)
                  | None \<Rightarrow> replacement @ unquote s2)
              | _ \<Rightarrow> [])
           else unescape e # unquote s1)
      else if code c < 0x80 then c # unquote s
      else let n = rune_size (c # s) in
        if n = 0 then replacement @ unquote s else take n (c # s) @ unquote (drop n (c # s)))"
  by pat_completeness auto
termination by (relation "measure length") auto

section \<open>A written string is read back\<close>

lemma cons_fst_Some [simp]: "cons_fst w (Some (a, b)) = Some (w @ a, b)"
  by (simp add: cons_fst_def)

lemma cons_fst_append: "cons_fst v (cons_fst w r) = cons_fst (v @ w) r"
  by (cases r) (auto simp: cons_fst_def)

lemma code_inj: "code c = code d \<longleftrightarrow> c = d"
  by simp

lemma code_less: "code c < 256"
  by simp

lemma scan_str_high: "\<forall>x \<in> set w. 0x80 \<le> code x \<Longrightarrow> scan_str (w @ t) = cons_fst w (scan_str t)"
proof (induction w)
  case Nil
  show ?case by (cases "scan_str t") (simp_all add: cons_fst_def)
next
  case (Cons c w)
  then have "c \<noteq> quote" "c \<noteq> backslash" "\<not> code c < 0x20" by auto
  then show ?case using Cons by (simp add: cons_fst_append)
qed

lemma hex_value_hex_low: "d < 16 \<Longrightarrow> hex_value (hex_low d) = Some d"
  by (auto simp: hex_value_def hex_low_def Let_def)

lemma is_hex_hex_low: "d < 16 \<Longrightarrow> is_hex (hex_low d)"
  by (simp add: is_hex_def hex_value_hex_low)

lemma hex_value_zero: "hex_value CHR ''0'' = Some 0" "is_hex CHR ''0''"
  by code_simp+

lemma scan_quote_ascii:
  assumes "code c < 0x80"
  shows "scan_str (quote_ascii c @ t) = cons_fst (quote_ascii c) (scan_str t)"
proof -
  have h: "is_hex (hex_low (code c div 16))" "is_hex (hex_low (code c mod 16))"
    using assms by (auto intro!: is_hex_hex_low)
  show ?thesis
    using h by (auto simp: quote_ascii_def html_safe_def hex_value_zero simple_escape_def)
qed

lemma unquote_quote_ascii:
  assumes "code c < 0x80"
  shows "unquote (quote_ascii c @ t) = c # unquote t"
proof -
  have v: "hex_value (hex_low (code c div 16)) = Some (code c div 16)" "hex_value (hex_low (code c mod 16)) = Some (code c mod 16)"
    using assms by (auto intro!: hex_value_hex_low)
  have "hex4 CHR ''0'' CHR ''0'' (hex_low (code c div 16)) (hex_low (code c mod 16)) = code c"
    by (simp add: hex4_def v hex_value_zero)
  then show ?thesis
    using assms
    by (auto simp: quote_ascii_def html_safe_def is_surrogate_def utf8_encode_def unescape_def Let_def
        simp flip: code_inj)
qed

lemma unquote_rune:
  assumes "rune_size s \<noteq> 0"
  shows "unquote (take (rune_size s) s @ t) = take (rune_size s) s @ unquote t"
proof -
  obtain c w where w: "take (rune_size s) s = c # w"
    using assms rune_size_le [of s] by (cases "take (rune_size s) s") auto
  have high: "0x80 \<le> code c" using rune_size_high [OF assms] by (simp add: w)
  then have c: "c \<noteq> backslash" "\<not> code c < 0x80" by auto
  have n: "rune_size (c # w @ t) = rune_size s" using rune_size_take [OF assms, of t] by (simp add: w)
  have len: "length (c # w) = rune_size s" using rune_size_le [of s] by (simp flip: w)
  have "unquote (c # w @ t) = take (rune_size s) (c # w @ t) @ unquote (drop (rune_size s) (c # w @ t))"
    using c assms by (simp add: n Let_def)
  moreover have "take (rune_size s) (c # w @ t) = c # w" "drop (rune_size s) (c # w @ t) = t"
    by (simp_all flip: len)
  ultimately show ?thesis by (simp add: w)
qed

lemma line_separator_shape:
  assumes "take 3 s \<in> set line_separators"
  obtains d t where "s = CHR 0xE2 # CHR 0x80 # d # t" "d = CHR 0xA8 \<or> d = CHR 0xA9" "rune_size s = 3"
proof -
  obtain d t where s: "s = CHR 0xE2 # CHR 0x80 # d # t" "d = CHR 0xA8 \<or> d = CHR 0xA9"
    using assms by (cases s; cases "tl s"; cases "tl (tl s)") (auto simp: line_separators_def)
  then have "rune_size s = 3"
    by (auto simp: rune_size.simps pair_lead_def triple_lead_def triple_second_def cont_byte_def)
  with s show ?thesis by (rule that)
qed

lemma line_separator_hex:
  assumes "d = CHR 0xA8 \<or> d = CHR 0xA9"
  shows "hex_value (hex_low (code d mod 16)) = Some (code d - 160)"
    "utf8_encode (hex4 CHR ''2'' CHR ''0'' CHR ''2'' (hex_low (code d mod 16))) = [CHR 0xE2, CHR 0x80, d]"
    "\<not> is_surrogate (hex4 CHR ''2'' CHR ''0'' CHR ''2'' (hex_low (code d mod 16)))"
proof -
  show v: "hex_value (hex_low (code d mod 16)) = Some (code d - 160)"
    using assms by (elim disjE) (simp_all add: hex_value_hex_low)
  have "hex_value CHR ''2'' = Some 2" by code_simp
  then have h: "hex4 CHR ''2'' CHR ''0'' CHR ''2'' (hex_low (code d mod 16)) = 0x2020 + (code d - 160)"
    using v hex_value_zero by (simp add: hex4_def)
  show "utf8_encode (hex4 CHR ''2'' CHR ''0'' CHR ''2'' (hex_low (code d mod 16))) = [CHR 0xE2, CHR 0x80, d]"
    unfolding h using assms by (elim disjE) (simp_all add: utf8_encode_def flip: code_inj)
  show "\<not> is_surrogate (hex4 CHR ''2'' CHR ''0'' CHR ''2'' (hex_low (code d mod 16)))"
    unfolding h using assms by (elim disjE) (simp_all add: is_surrogate_def)
qed

lemma unquote_u:
  "\<not> is_surrogate (hex4 a b c d) \<Longrightarrow>
   unquote (backslash # CHR ''u'' # a # b # c # d # t) = utf8_encode (hex4 a b c d) @ unquote t"
  by (simp add: Let_def)

lemma scan_quote_body: "scan_str (quote_body s @ t) = cons_fst (quote_body s) (scan_str t)"
proof (induction s rule: quote_body.induct)
  case 1
  show ?case by (cases "scan_str t") (simp_all add: cons_fst_def)
next
  case (2 c s)
  let ?n = "rune_size (c # s)"
  consider (ascii) "code c < 0x80" | (bad) "\<not> code c < 0x80" "?n = 0"
    | (sep) "\<not> code c < 0x80" "?n \<noteq> 0" "take 3 (c # s) \<in> set line_separators"
    | (rune) "\<not> code c < 0x80" "?n \<noteq> 0" "take 3 (c # s) \<notin> set line_separators"
    by blast
  then show ?case
  proof cases
    case ascii
    then show ?thesis using 2(1) by (simp add: scan_quote_ascii cons_fst_append)
  next
    case bad
    have "is_hex CHR ''f''" "is_hex CHR ''d''" by code_simp+
    then show ?thesis using bad 2(2) [OF bad(1) refl bad(2)] by (simp add: cons_fst_append simple_escape_def)
  next
    case sep
    have two: "hex_value CHR ''2'' = Some 2" by code_simp
    obtain d w where "c # s = CHR 0xE2 # CHR 0x80 # d # w" "d = CHR 0xA8 \<or> d = CHR 0xA9" "?n = 3"
      using sep(3) by (rule line_separator_shape)
    then show ?thesis
      using sep 2(3) [OF sep(1) refl sep(2,3)] line_separator_hex(1) [of d] hex_value_zero two
      by (simp add: cons_fst_append is_hex_def simple_escape_def)
  next
    case rune
    have "scan_str (take ?n (c # s) @ quote_body (drop ?n (c # s)) @ t) =
        cons_fst (take ?n (c # s)) (scan_str (quote_body (drop ?n (c # s)) @ t))"
      by (rule scan_str_high [OF rune_size_high [OF rune(2)]])
    then show ?thesis using rune 2(4) [OF rune(1) refl rune(2,3)] by (simp add: cons_fst_append Let_def del: take_Cons' drop_Cons')
  qed
qed

lemma unquote_quote_body: "unquote (quote_body s) = to_valid s"
proof (induction s rule: quote_body.induct)
  case (2 c s)
  let ?n = "rune_size (c # s)"
  consider (ascii) "code c < 0x80" | (bad) "\<not> code c < 0x80" "?n = 0"
    | (sep) "\<not> code c < 0x80" "?n \<noteq> 0" "take 3 (c # s) \<in> set line_separators"
    | (rune) "\<not> code c < 0x80" "?n \<noteq> 0" "take 3 (c # s) \<notin> set line_separators"
    by blast
  then show ?case
  proof cases
    case ascii
    then show ?thesis using 2(1) by (simp add: unquote_quote_ascii)
  next
    case bad
    have h: "hex4 CHR ''f'' CHR ''f'' CHR ''f'' CHR ''d'' = 0xFFFD" by (simp add: hex4_def hex_value_def)
    moreover have "utf8_encode 0xFFFD = replacement" by (simp add: utf8_encode_def replacement_def flip: code_inj)
    moreover have "quote_body (c # s) = backslash # ''ufffd'' @ quote_body s" "to_valid (c # s) = replacement @ to_valid s"
      using bad by simp_all
    ultimately show ?thesis
      using unquote_u [of "CHR ''f''" "CHR ''f''" "CHR ''f''" "CHR ''d''" "quote_body s"] 2(2) [OF bad(1) refl bad(2)]
      by (simp add: is_surrogate_def del: unquote.simps to_valid.simps quote_body.simps)
  next
    case sep
    obtain d w where d: "c # s = CHR 0xE2 # CHR 0x80 # d # w" "d = CHR 0xA8 \<or> d = CHR 0xA9" "?n = 3"
      using sep(3) by (rule line_separator_shape)
    have "quote_body (c # s) = backslash # ''u202'' @ hex_low (code d mod 16) # quote_body w"
      using sep d by (simp add: Let_def)
    moreover have "to_valid (c # s) = [CHR 0xE2, CHR 0x80, d] @ to_valid w" using sep d by (simp add: Let_def)
    moreover have "unquote (quote_body w) = to_valid w" using 2(3) [OF sep(1) refl sep(2,3)] d by simp
    ultimately show ?thesis
      using unquote_u [OF line_separator_hex(3) [OF d(2)], of "quote_body w"] line_separator_hex(2) [OF d(2)]
      by (simp del: unquote.simps to_valid.simps quote_body.simps)
  next
    case rune
    then have "quote_body (c # s) = take ?n (c # s) @ quote_body (drop ?n (c # s))" by (simp only: quote_body.simps Let_def if_False)
    moreover have "to_valid (c # s) = take ?n (c # s) @ to_valid (drop ?n (c # s))"
      using rune(1,2) by (simp only: to_valid.simps Let_def if_False)
    ultimately show ?thesis using unquote_rune [OF rune(2)] 2(4) [OF rune(1) refl rune(2,3)] by simp
  qed
qed simp

theorem quoted_string_read: "scan_str (quote_body s @ quote # t) = Some (quote_body s, t)"
  by (simp add: scan_quote_body)

section \<open>JSON texts\<close>

datatype json =
    JNull
  | JBool bool
  | JNum string
  | JStr string
  | JArr "json list"
  | JObj "(string \<times> json) list"

definition json_space :: "char \<Rightarrow> bool" where
  "json_space c \<longleftrightarrow> c \<in> set [CHR 0x20, CHR 0x09, CHR 0x0D, CHR 0x0A]"

abbreviation skip_space :: "string \<Rightarrow> string" where
  "skip_space s \<equiv> dropWhile json_space s"

text \<open>A number: what it consists of is kept as text, since the decoder parses it again.\<close>

definition number_sign :: "string \<Rightarrow> string" where
  "number_sign s = (case s of c # _ \<Rightarrow> if c = CHR ''-'' then [c] else [] | [] \<Rightarrow> [])"

definition number_fraction :: "string \<Rightarrow> string option" where
  "number_fraction s = (case s of c # r \<Rightarrow>
       if c = CHR ''.'' then (if takeWhile is_digit r = [] then None else Some (c # takeWhile is_digit r)) else Some []
     | [] \<Rightarrow> Some [])"

definition number_exponent :: "string \<Rightarrow> string option" where
  "number_exponent s = (case s of c # r \<Rightarrow>
       if c = CHR ''e'' \<or> c = CHR ''E'' then
         (let sg = (case r of d # _ \<Rightarrow> if d = CHR ''+'' \<or> d = CHR ''-'' then [d] else [] | [] \<Rightarrow> []);
              ds = takeWhile is_digit (drop (length sg) r) in
          if ds = [] then None else Some (c # sg @ ds))
       else Some []
     | [] \<Rightarrow> Some [])"

definition json_number :: "string \<Rightarrow> (string \<times> string) option" where
  "json_number s =
     (let sg = number_sign s; ds = takeWhile is_digit (drop (length sg) s);
          r = drop (length sg + length ds) s in
      if ds = [] \<or> (hd ds = CHR ''0'' \<and> tl ds \<noteq> []) then None
      else (case number_fraction r of None \<Rightarrow> None
        | Some f \<Rightarrow> (case number_exponent (drop (length f) r) of None \<Rightarrow> None
          | Some e \<Rightarrow> Some (sg @ ds @ f @ e, drop (length f + length e) r))))"

text \<open>The recursion is bounded by fuel; \<open>json_fuel\<close> below shows that twice the length is enough.\<close>

fun json_value :: "nat \<Rightarrow> string \<Rightarrow> (json \<times> string) option"
  and json_elems :: "nat \<Rightarrow> string \<Rightarrow> (json list \<times> string) option"
  and json_members :: "nat \<Rightarrow> string \<Rightarrow> ((string \<times> json) list \<times> string) option" where
  "json_value 0 s = None"
| "json_value (Suc n) s = (case s of [] \<Rightarrow> None | c # r \<Rightarrow>
     if c = quote then map_option (\<lambda>(b, q). (JStr (unquote b), q)) (scan_str r)
     else if c = CHR ''['' then
       (case skip_space r of [] \<Rightarrow> None
        | d # q \<Rightarrow> if d = CHR '']'' then Some (JArr [], q)
            else map_option (\<lambda>(vs, q). (JArr vs, q)) (json_elems n (skip_space r)))
     else if c = CHR ''{'' then
       (case skip_space r of [] \<Rightarrow> None
        | d # q \<Rightarrow> if d = CHR ''}'' then Some (JObj [], q)
            else map_option (\<lambda>(ms, q). (JObj ms, q)) (json_members n (skip_space r)))
     else if prefix ''null'' s then Some (JNull, drop 4 s)
     else if prefix ''true'' s then Some (JBool True, drop 4 s)
     else if prefix ''false'' s then Some (JBool False, drop 5 s)
     else map_option (\<lambda>(t, q). (JNum t, q)) (json_number s))"
| "json_elems 0 s = None"
| "json_elems (Suc n) s = (case json_value n s of None \<Rightarrow> None
     | Some (v, r) \<Rightarrow> (case skip_space r of [] \<Rightarrow> None
       | d # q \<Rightarrow> if d = CHR '']'' then Some ([v], q)
           else if d = CHR '','' then map_option (\<lambda>(vs, q). (v # vs, q)) (json_elems n (skip_space q))
           else None))"
| "json_members 0 s = None"
| "json_members (Suc n) s = (case s of [] \<Rightarrow> None
     | c # r \<Rightarrow> if c \<noteq> quote then None
       else (case scan_str r of None \<Rightarrow> None
         | Some (k, r1) \<Rightarrow> (case skip_space r1 of [] \<Rightarrow> None
           | d # r2 \<Rightarrow> if d \<noteq> CHR '':'' then None
             else (case json_value n (skip_space r2) of None \<Rightarrow> None
               | Some (v, r3) \<Rightarrow> (case skip_space r3 of [] \<Rightarrow> None
                 | d # q \<Rightarrow> if d = CHR ''}'' then Some ([(unquote k, v)], q)
                     else if d = CHR '','' then
                       map_option (\<lambda>(ms, q). ((unquote k, v) # ms, q)) (json_members n (skip_space q))
                     else None)))))"

declare json_value.simps [simp del] json_elems.simps [simp del] json_members.simps [simp del]

definition json_text :: "string \<Rightarrow> json option" where
  "json_text s = (case json_value (2 * length s + 1) (skip_space s) of None \<Rightarrow> None
     | Some (v, r) \<Rightarrow> if skip_space r = [] then Some v else None)"

section \<open>The fuel is enough\<close>

lemma length_skip: "length (skip_space s) \<le> length s"
  by (rule length_dropWhile_le)

lemma scan_str_split: "scan_str s = Some (b, r) \<Longrightarrow> s = b @ quote # r"
proof (induction s arbitrary: b rule: scan_str.induct)
  case (2 c s)
  show ?case
  proof (cases "c = backslash")
    case True
    then obtain e s1 where s: "s = e # s1" using 2(4) by (cases s) auto
    show ?thesis
    proof (cases "simple_escape e")
      case True
      with \<open>c = backslash\<close> s 2(4) obtain b1 where "scan_str s1 = Some (b1, r)" "b = [c, e] @ b1"
        by (auto simp: cons_fst_def)
      then show ?thesis using 2(1) [OF _ _ \<open>c = backslash\<close> s True] \<open>c = backslash\<close> s by simp
    next
      case False
      with \<open>c = backslash\<close> s 2(4) obtain h1 h2 h3 h4 s2 b1 where h: "e = CHR ''u''" "s1 = h1 # h2 # h3 # h4 # s2"
        "is_hex h1 \<and> is_hex h2 \<and> is_hex h3 \<and> is_hex h4" "scan_str s2 = Some (b1, r)" "b = [c, e, h1, h2, h3, h4] @ b1"
        by (auto simp: cons_fst_def split: list.splits if_splits)
      then show ?thesis using 2(2) [OF _ _ \<open>c = backslash\<close> s False h(1) h(2) refl refl refl h(3)] \<open>c = backslash\<close> s by simp
    qed
  next
    case False
    show ?thesis
    proof (cases "c = quote")
      case True
      with 2(4) show ?thesis by simp
    next
      case c: False
      with False 2(4) obtain b1 where "\<not> code c < 0x20" "scan_str s = Some (b1, r)" "b = c # b1"
        by (auto simp: cons_fst_def split: if_splits)
      then show ?thesis using 2(3) [OF c _ False] by simp
    qed
  qed
qed simp

lemma scan_str_length: "scan_str s = Some (b, r) \<Longrightarrow> length r < length s"
  by (drule scan_str_split) simp

definition number_char :: "char \<Rightarrow> bool" where
  "number_char c \<longleftrightarrow> is_digit c \<or> c \<in> set ''+-.eE''"

lemma number_fraction_split:
  assumes "number_fraction s = Some f"
  shows "s = f @ drop (length f) s \<and> list_all number_char f"
proof (cases s)
  case Nil
  with assms show ?thesis by (simp add: number_fraction_def)
next
  case (Cons c r)
  have "drop (length (takeWhile is_digit r)) r = dropWhile is_digit r" by (rule dropWhile_eq_drop [symmetric])
  with assms Cons show ?thesis
    by (auto simp: number_fraction_def number_char_def list_all_iff dest: set_takeWhileD split: if_splits)
qed

lemma number_exponent_split:
  assumes "number_exponent s = Some e"
  shows "s = e @ drop (length e) s \<and> list_all number_char e"
proof (cases s)
  case Nil
  with assms show ?thesis by (simp add: number_exponent_def)
next
  case (Cons c r)
  define sg where "sg = (case r of d # _ \<Rightarrow> if d = CHR ''+'' \<or> d = CHR ''-'' then [d] else [] | [] \<Rightarrow> [])"
  have sg: "r = sg @ drop (length sg) r" "list_all number_char sg"
    by (auto simp: sg_def number_char_def split: list.splits)
  have ds: "drop (length sg) r = takeWhile is_digit (drop (length sg) r) @ dropWhile is_digit (drop (length sg) r)"
    "list_all number_char (takeWhile is_digit (drop (length sg) r))"
    by (auto simp: number_char_def list_all_iff dest: set_takeWhileD)
  show ?thesis
  proof (cases "c = CHR ''e'' \<or> c = CHR ''E''")
    case True
    then have "number_char c" by (auto simp: number_char_def)
    moreover have e: "e = c # sg @ takeWhile is_digit (drop (length sg) r)"
      using assms Cons True by (auto simp: number_exponent_def sg_def Let_def split: if_splits)
    moreover have "s = e @ dropWhile is_digit (drop (length sg) r)"
      using sg(1) ds(1) by (simp add: e Cons)
    moreover have "list_all number_char e" using \<open>number_char c\<close> sg(2) ds(2) by (simp add: e)
    ultimately show ?thesis by (metis append_eq_conv_conj)
  next
    case False
    then have "e = []" using assms Cons by (simp add: number_exponent_def)
    then show ?thesis by simp
  qed
qed

lemma json_number_split:
  assumes "json_number s = Some (w, r)"
  shows "s = w @ r \<and> w \<noteq> [] \<and> list_all number_char w"
proof -
  define sg where "sg = number_sign s"
  define ds where "ds = takeWhile is_digit (drop (length sg) s)"
  define q where "q = drop (length sg + length ds) s"
  obtain f e where fe: "ds \<noteq> []" "number_fraction q = Some f" "number_exponent (drop (length f) q) = Some e"
    "w = sg @ ds @ f @ e" "r = drop (length f + length e) q"
    using assms by (auto simp: json_number_def Let_def sg_def ds_def q_def split: if_splits option.splits)
  have sg: "s = sg @ drop (length sg) s" "list_all number_char sg"
    by (auto simp: sg_def number_sign_def number_char_def split: list.splits)
  have "drop (length sg) s = ds @ drop (length ds) (drop (length sg) s)"
    unfolding ds_def dropWhile_eq_drop [symmetric] by simp
  then have s: "s = sg @ ds @ q" using sg(1) by (simp add: q_def add.commute)
  have "list_all number_char ds" by (auto simp: ds_def number_char_def list_all_iff dest: set_takeWhileD)
  moreover have "q = f @ e @ r"
    using number_fraction_split [OF fe(2)] number_exponent_split [OF fe(3)] fe(5) by (metis drop_drop add.commute)
  ultimately show ?thesis
    using s sg(2) fe(1,4) number_fraction_split [OF fe(2)] number_exponent_split [OF fe(3)] by simp
qed

text \<open>How each parser consumes its text\<close>

lemma json_valueE:
  assumes "json_value n s = Some (v, r)"
  obtains (Str) m t b where "n = Suc m" "s = quote # t" "scan_str t = Some (b, r)" "v = JStr (unquote b)"
  | (Empty) m c d t where "n = Suc m" "s = c # t" "skip_space t = d # r"
      "c = CHR ''['' \<and> d = CHR '']'' \<and> v = JArr [] \<or> c = CHR ''{'' \<and> d = CHR ''}'' \<and> v = JObj []"
  | (Arr) m t vs where "n = Suc m" "s = CHR ''['' # t" "skip_space t \<noteq> []" "hd (skip_space t) \<noteq> CHR '']''"
      "json_elems m (skip_space t) = Some (vs, r)" "v = JArr vs"
  | (Obj) m t ms where "n = Suc m" "s = CHR ''{'' # t" "skip_space t \<noteq> []" "hd (skip_space t) \<noteq> CHR ''}''"
      "json_members m (skip_space t) = Some (ms, r)" "v = JObj ms"
  | (Lit) m w where "n = Suc m" "s = w @ r" "(w, v) \<in> set [(''null'', JNull), (''true'', JBool True), (''false'', JBool False)]"
  | (Num) m w where "n = Suc m" "json_number s = Some (w, r)" "v = JNum w" "hd s \<notin> set [quote, CHR ''['', CHR ''{'']"
      "\<not> prefix ''null'' s" "\<not> prefix ''true'' s" "\<not> prefix ''false'' s"
proof -
  obtain m where n: "n = Suc m" using assms by (cases n) (auto simp: json_value.simps)
  obtain c t where s: "s = c # t" using assms by (cases s) (auto simp: json_value.simps n)
  note j = assms [unfolded n json_value.simps s list.case]
  consider "c = quote" | "c = CHR ''[''" | "c = CHR ''{''" | "c \<notin> set [quote, CHR ''['', CHR ''{'']" by auto
  then show thesis
  proof cases
    case 1
    then show thesis using j s n by (auto intro: Str)
  next
    case 2
    show thesis
    proof (cases "skip_space t")
      case Nil
      with 2 j show thesis by simp
    next
      case (Cons d q)
      show thesis
      proof (cases "d = CHR '']''")
        case True
        with 2 j Cons s n show thesis by (intro Empty) auto
      next
        case False
        with 2 j Cons s n show thesis by (auto intro: Arr)
      qed
    qed
  next
    case 3
    show thesis
    proof (cases "skip_space t")
      case Nil
      with 3 j show thesis by simp
    next
      case (Cons d q)
      show thesis
      proof (cases "d = CHR ''}''")
        case True
        with 3 j Cons s n show thesis by (intro Empty) auto
      next
        case False
        with 3 j Cons s n show thesis by (auto intro: Obj)
      qed
    qed
  next
    case 4
    then have c: "c \<noteq> quote" "c \<noteq> CHR ''[''" "c \<noteq> CHR ''{''" by simp_all
    note j = j [unfolded if_not_P [OF c(1)] if_not_P [OF c(2)] if_not_P [OF c(3)]]
    show thesis
    proof (cases "prefix ''null'' s \<or> prefix ''true'' s \<or> prefix ''false'' s")
      case True
      then obtain w where "w \<in> set [''null'', ''true'', ''false'']" "prefix w s" by auto
      then obtain q where "s = w @ q" by (auto elim: prefixE)
      then show thesis using j n \<open>w \<in> _\<close> s by (intro Lit [of m w]) auto
    next
      case False
      then obtain w where "json_number s = Some (w, r)" "v = JNum w"
        using j s by (auto simp del: prefix_code)
      then show thesis using 4 s n False by (intro Num [of m w]) simp_all
    qed
  qed
qed

lemma json_elemsE:
  assumes "json_elems n s = Some (vs, r)"
  obtains m v q p vs' where "n = Suc m" "json_value m s = Some (v, q)"
    "skip_space q = CHR '']'' # r \<and> vs = [v] \<or>
     skip_space q = CHR '','' # p \<and> json_elems m (skip_space p) = Some (vs', r) \<and> vs = v # vs'"
proof -
  obtain m where n: "n = Suc m" using assms by (cases n) (auto simp: json_elems.simps)
  show thesis
    using assms by (auto simp: n json_elems.simps intro: that [OF n] split: option.splits list.splits if_splits)
qed

lemma json_membersE:
  assumes "json_members n s = Some (ms, r)"
  obtains m t k r1 r2 v q p ms' where "n = Suc m" "s = quote # t" "scan_str t = Some (k, r1)" "skip_space r1 = CHR '':'' # r2"
    "json_value m (skip_space r2) = Some (v, q)"
    "skip_space q = CHR ''}'' # r \<and> ms = [(unquote k, v)] \<or>
     skip_space q = CHR '','' # p \<and> json_members m (skip_space p) = Some (ms', r) \<and> ms = (unquote k, v) # ms'"
proof -
  obtain m where n: "n = Suc m" using assms by (cases n) (auto simp: json_members.simps)
  obtain t k r1 where k: "s = quote # t" "scan_str t = Some (k, r1)"
    using assms by (auto simp: n json_members.simps split: option.splits list.splits if_splits)
  note j = assms [unfolded n json_members.simps k list.case option.case prod.case]
  obtain r2 v q where v: "skip_space r1 = CHR '':'' # r2" "json_value m (skip_space r2) = Some (v, q)"
    using j by (auto split: option.splits list.splits if_splits)
  note j = j [unfolded v list.case option.case prod.case, simplified]
  show thesis
    using j by (auto intro: that [OF n k v] split: option.splits list.splits if_splits)
qed

lemma skip_Cons_length: "skip_space t = d # q \<Longrightarrow> length q < length t"
  using length_skip [of t] by simp

lemma json_consumes:
  "(\<forall>v. json_value n s = Some (v, r) \<longrightarrow> length r < length s) \<and>
   (\<forall>vs. json_elems n s = Some (vs, r) \<longrightarrow> length r < length s) \<and>
   (\<forall>ms. json_members n s = Some (ms, r) \<longrightarrow> length r < length s)"
proof (induction n arbitrary: s r rule: less_induct)
  case (less n)
  note val = less.IH [THEN conjunct1, rule_format]
    and elems = less.IH [THEN conjunct2, THEN conjunct1, rule_format]
    and members = less.IH [THEN conjunct2, THEN conjunct2, rule_format]
  have "length r < length s" if "json_value n s = Some (v, r)" for v
    using that
  proof (cases rule: json_valueE)
    case (Str m t b)
    then show ?thesis using scan_str_length by fastforce
  next
    case (Empty m c d t)
    then show ?thesis using skip_Cons_length by fastforce
  next
    case (Arr m t vs)
    then have "length r < length (skip_space t)" by (intro elems) auto
    then show ?thesis using Arr length_skip [of t] by simp
  next
    case (Obj m t ms)
    then have "length r < length (skip_space t)" by (intro members) auto
    then show ?thesis using Obj length_skip [of t] by simp
  next
    case (Num m w)
    then show ?thesis using json_number_split [OF Num(2)] by auto
  qed auto
  moreover have "length r < length s" if "json_elems n s = Some (vs, r)" for vs
    using that
  proof (cases rule: json_elemsE)
    case (1 m v q p vs')
    have q: "length q < length s" using 1 by (intro val [of m]) auto
    show ?thesis
    proof (cases "skip_space q = CHR '']'' # r")
      case True
      then show ?thesis using q skip_Cons_length by fastforce
    next
      case False
      then have "length r < length (skip_space p)" using 1 by (intro elems [of m]) auto
      then show ?thesis using False 1 q skip_Cons_length [of q] length_skip [of p] by fastforce
    qed
  qed
  moreover have "length r < length s" if "json_members n s = Some (ms, r)" for ms
    using that
  proof (cases rule: json_membersE)
    case (1 m t k r1 r2 v q p ms')
    have "length q < length (skip_space r2)" using 1 by (intro val [of m]) auto
    then have q: "length q < length s"
      using 1 scan_str_length [OF 1(3)] skip_Cons_length [OF 1(4)] length_skip [of r2] by simp
    show ?thesis
    proof (cases "skip_space q = CHR ''}'' # r")
      case True
      then show ?thesis using q skip_Cons_length by fastforce
    next
      case False
      then have "length r < length (skip_space p)" using 1 by (intro members [of m]) auto
      then show ?thesis using False 1 q skip_Cons_length [of q] length_skip [of p] by fastforce
    qed
  qed
  ultimately show ?case by blast
qed

lemma json_more_fuel:
  "(\<forall>v r. json_value n s = Some (v, r) \<longrightarrow> json_value (Suc n) s = Some (v, r)) \<and>
   (\<forall>vs r. json_elems n s = Some (vs, r) \<longrightarrow> json_elems (Suc n) s = Some (vs, r)) \<and>
   (\<forall>ms r. json_members n s = Some (ms, r) \<longrightarrow> json_members (Suc n) s = Some (ms, r))"
proof (induction n arbitrary: s)
  case 0
  show ?case by (simp add: json_value.simps json_elems.simps json_members.simps)
next
  case (Suc n)
  note val = Suc.IH [THEN conjunct1, rule_format]
    and elems = Suc.IH [THEN conjunct2, THEN conjunct1, rule_format]
    and members = Suc.IH [THEN conjunct2, THEN conjunct2, rule_format]
  have "json_value (Suc (Suc n)) s = Some (v, r)" if "json_value (Suc n) s = Some (v, r)" for v r
    using that
  proof (cases rule: json_valueE)
    case (Arr m t vs)
    then have "json_elems (Suc n) (skip_space t) = Some (vs, r)" using elems by simp
    then show ?thesis using Arr by (cases "skip_space t") (simp_all add: json_value.simps(2))
  next
    case (Obj m t ms)
    then have "json_members (Suc n) (skip_space t) = Some (ms, r)" using members by simp
    then show ?thesis using Obj by (cases "skip_space t") (simp_all add: json_value.simps(2))
  next
    case (Lit m w)
    then show ?thesis by (auto simp: json_value.simps(2))
  next
    case (Num m w)
    moreover have "s \<noteq> []" using json_number_split [OF Num(2)] by auto
    ultimately show ?thesis by (cases s) (simp_all add: json_value.simps(2) del: prefix_code)
  qed (auto simp: json_value.simps(2))
  moreover have "json_elems (Suc (Suc n)) s = Some (vs, r)" if "json_elems (Suc n) s = Some (vs, r)" for vs r
    using that
  proof (cases rule: json_elemsE)
    case (1 m v q p vs')
    then have "json_value (Suc n) s = Some (v, q)" using val by simp
    then show ?thesis using 1 elems by (auto simp: json_elems.simps(2) [of "Suc m"])
  qed
  moreover have "json_members (Suc (Suc n)) s = Some (ms, r)" if "json_members (Suc n) s = Some (ms, r)" for ms r
    using that
  proof (cases rule: json_membersE)
    case (1 m t k r1 r2 v q p ms')
    then have "json_value (Suc n) (skip_space r2) = Some (v, q)" using val by simp
    then show ?thesis using 1 members by (auto simp: json_members.simps(2) [of "Suc m"])
  qed
  ultimately show ?case by blast
qed

lemma json_value_more:
  assumes "json_value n s = Some (v, r)" and "n \<le> m"
  shows "json_value m s = Some (v, r)"
  using assms(2) by (induction rule: dec_induct) (use assms(1) json_more_fuel in blast)+

text \<open>Fuel beyond twice the length of the text changes nothing.\<close>

lemma json_fuel:
  "(2 * length s < n \<longrightarrow> json_value (Suc n) s = json_value n s) \<and>
   (2 * length s + 1 < n \<longrightarrow> json_elems (Suc n) s = json_elems n s) \<and>
   (2 * length s + 1 < n \<longrightarrow> json_members (Suc n) s = json_members n s)"
proof (induction n arbitrary: s)
  case (Suc n)
  note val = Suc.IH [THEN conjunct1, rule_format]
    and elems = Suc.IH [THEN conjunct2, THEN conjunct1, rule_format]
    and members = Suc.IH [THEN conjunct2, THEN conjunct2, rule_format]
  have "json_value (Suc (Suc n)) s = json_value (Suc n) s" if "2 * length s < Suc n"
  proof (cases s)
    case (Cons c t)
    then have "json_elems (Suc n) (skip_space t) = json_elems n (skip_space t)"
      "json_members (Suc n) (skip_space t) = json_members n (skip_space t)"
      if "t \<noteq> []" using that \<open>2 * length s < Suc n\<close> length_skip [of t] by (auto intro!: elems members)
    then show ?thesis by (cases "t = []"; cases "skip_space t") (simp_all add: Cons json_value.simps(2) del: dropWhile_eq_Nil_conv)
  qed (simp add: json_value.simps)
  moreover have "json_elems (Suc (Suc n)) s = json_elems (Suc n) s" if "2 * length s + 1 < Suc n"
  proof -
    have v: "json_value (Suc n) s = json_value n s" using that by (intro val) simp
    have "json_elems (Suc n) (skip_space q) = json_elems n (skip_space q)"
      if "json_value n s = Some (w, r)" "skip_space r = d # q" for w r d q
    proof -
      have "length r < length s" using json_consumes that(1) by blast
      then show ?thesis
        using skip_Cons_length [OF that(2)] length_skip [of q] \<open>2 * length s + 1 < Suc n\<close> by (intro elems) linarith
    qed
    note more = this
    show ?thesis
    proof (cases "json_value n s")
      case (Some wr)
      obtain w r where "wr = (w, r)" by (cases wr)
      with Some more [of w r] show ?thesis
        by (cases "skip_space r") (simp_all add: json_elems.simps(2) [of "Suc n"] json_elems.simps(2) [of n] v del: dropWhile_eq_Nil_conv)
    qed (simp add: json_elems.simps(2) v)
  qed
  moreover have "json_members (Suc (Suc n)) s = json_members (Suc n) s" if "2 * length s + 1 < Suc n"
  proof -
    have v: "json_value (Suc n) (skip_space r2) = json_value n (skip_space r2)"
      and more: "json_value n (skip_space r2) = Some (w, r) \<Longrightarrow> skip_space r = d # q \<Longrightarrow>
        json_members (Suc n) (skip_space q) = json_members n (skip_space q)"
      if "s = c # t" "scan_str t = Some (k, r1)" "skip_space r1 = e # r2" for c t k r1 e r2 w r d q
    proof -
      have short: "length (skip_space r2) + 2 < length s"
        using that(1) scan_str_length [OF that(2)] skip_Cons_length [OF that(3)] length_skip [of r2] by simp
      show "json_value (Suc n) (skip_space r2) = json_value n (skip_space r2)"
        using short \<open>2 * length s + 1 < Suc n\<close> by (intro val) linarith
      show "json_members (Suc n) (skip_space q) = json_members n (skip_space q)"
        if "json_value n (skip_space r2) = Some (w, r)" "skip_space r = d # q"
      proof -
        have "length r < length (skip_space r2)" using json_consumes that(1) by blast
        then show ?thesis
          using short skip_Cons_length [OF that(2)] length_skip [of q] \<open>2 * length s + 1 < Suc n\<close> by (intro members) linarith
      qed
    qed
    show ?thesis
    proof (cases "\<exists>t k r1 r2. s = quote # t \<and> scan_str t = Some (k, r1) \<and> skip_space r1 = CHR '':'' # r2")
      case True
      then obtain t k r1 r2 where s: "s = quote # t" "scan_str t = Some (k, r1)" "skip_space r1 = CHR '':'' # r2" by blast
      show ?thesis
      proof (cases "json_value n (skip_space r2)")
        case (Some wr)
        obtain w r where "wr = (w, r)" by (cases wr)
        with Some more [OF s, of w r] v [OF s] show ?thesis
          by (cases "skip_space r")
            (simp_all add: json_members.simps(2) [of "Suc n"] json_members.simps(2) [of n] s del: dropWhile_eq_Nil_conv)
      qed (simp add: json_members.simps(2) s v [OF s])
    next
      case False
      have "json_members m s = None" for m
      proof (rule ccontr)
        assume "json_members m s \<noteq> None"
        then obtain ms r where "json_members m s = Some (ms, r)" by auto
        then show False by (rule json_membersE) (use False in blast)
      qed
      then show ?thesis by simp
    qed
  qed
  ultimately show ?case by blast
qed simp

lemma json_fuel_enough:
  assumes "2 * length s < n" and "n \<le> m"
  shows "json_value m s = json_value n s"
  using assms(2) by (induction rule: dec_induct) (use assms(1) json_fuel in \<open>auto simp: less_le_trans\<close>)

end
