(* ===== verification/SnapshotSchema.thy ===== *)
theory SnapshotSchema
  imports JsonText
begin

text \<open>
  \<open>pkg/state/snapshot\_schema.go\<close>: the scan that looks for unknown fields in a snapshot before it
  is decoded, and counts the chunks so that the decoder can allocate once. The scan does not
  check the JSON syntax: it stops without an error at what it cannot follow, and leaves the
  error to the decoder. The theorem at the end says that on a well-formed text it reports exactly
  the unknown fields of the parsed document.

  A position in the data is modelled by the text from there on; a scan that returns the end of
  what it read returns the text read and the text after it.
\<close>

section \<open>Skipping one value\<close>

fun string_end :: "bool \<Rightarrow> string \<Rightarrow> (string \<times> string) option" where
  "string_end escaped [] = None"
| "string_end escaped (c # s) =
     (if escaped then cons_fst [c] (string_end False s)
      else if c = backslash then cons_fst [c] (string_end True s)
      else if c = quote then Some ([c], s)
      else cons_fst [c] (string_end False s))"

definition scanJSONString :: "string \<Rightarrow> (string \<times> string) option" where
  "scanJSONString s = (case s of [] \<Rightarrow> None
     | c # r \<Rightarrow> if c \<noteq> quote then None else cons_fst [c] (string_end False r))"

lemma string_end_length: "string_end e s = Some (w, r) \<Longrightarrow> length r < length s"
  by (induction e s arbitrary: w rule: string_end.induct) (fastforce simp: cons_fst_def split: if_splits)+

lemma scanJSONString_length: "scanJSONString s = Some (w, r) \<Longrightarrow> length r < length s"
  by (cases s) (auto simp: scanJSONString_def cons_fst_def split: if_splits dest!: string_end_length)

text \<open>The loop of scanJSONValue inside \<open>depth\<close> open brackets\<close>

function nested_end :: "nat \<Rightarrow> string \<Rightarrow> (string \<times> string) option" where
  "nested_end 0 s = Some ([], s)"
| "nested_end (Suc d) [] = None"
| "nested_end (Suc d) (c # s) =
     (if c = quote then
        (case scanJSONString (c # s) of None \<Rightarrow> None | Some (w, r) \<Rightarrow> cons_fst w (nested_end (Suc d) r))
      else if c = CHR ''{'' \<or> c = CHR ''['' then cons_fst [c] (nested_end (Suc (Suc d)) s)
      else if c = CHR ''}'' \<or> c = CHR '']'' then cons_fst [c] (nested_end d s)
      else cons_fst [c] (nested_end (Suc d) s))"
  by pat_completeness auto
termination
  by (relation "measure (\<lambda>(d, s). length s)") (auto dest: scanJSONString_length)

definition value_delimiter :: "char \<Rightarrow> bool" where
  "value_delimiter c \<longleftrightarrow> c \<in> set [CHR '','', CHR ''}'', CHR '']'', CHR 0x20, CHR 0x09, CHR 0x0D, CHR 0x0A]"

definition scanJSONValue :: "string \<Rightarrow> (string \<times> string) option" where
  "scanJSONValue s = (case s of [] \<Rightarrow> None
     | c # r \<Rightarrow> if c = quote then scanJSONString s
       else if c \<noteq> CHR ''{'' \<and> c \<noteq> CHR ''['' then
         (let w = takeWhile (\<lambda>c. \<not> value_delimiter c) s in
          if w = [] then None else Some (w, dropWhile (\<lambda>c. \<not> value_delimiter c) s))
       else cons_fst [c] (nested_end 1 r))"

lemma nested_end_length: "nested_end d s = Some (w, r) \<Longrightarrow> length r \<le> length s"
proof (induction d s arbitrary: w rule: nested_end.induct)
  case (3 d c s)
  show ?case
  proof (cases "c = quote")
    case True
    with "3.prems" obtain v q w' where q: "scanJSONString (c # s) = Some (v, q)" "nested_end (Suc d) q = Some (w', r)"
      by (auto simp: cons_fst_def split: option.splits)
    then have "length r \<le> length q" using 3(1) [OF True q(1) refl] by simp
    then show ?thesis using scanJSONString_length [OF q(1)] by simp
  qed (use 3 in \<open>force simp: cons_fst_def split: if_splits\<close>)
qed auto

lemma scanJSONValue_length: "scanJSONValue s = Some (w, r) \<Longrightarrow> length r < length s"
proof -
  assume a: "scanJSONValue s = Some (w, r)"
  then obtain c t where s: "s = c # t" by (cases s) (auto simp: scanJSONValue_def)
  show ?thesis
  proof (cases "c = quote")
    case True
    then show ?thesis using a scanJSONString_length [of "quote # t"] by (simp add: scanJSONValue_def s)
  next
    case q: False
    show ?thesis
    proof (cases "c = CHR ''{'' \<or> c = CHR ''[''")
      case True
      then show ?thesis using a nested_end_length [of 1 t] q
        by (auto simp: scanJSONValue_def s cons_fst_def le_imp_less_Suc split: if_splits)
    next
      case False
      then have "\<not> value_delimiter c" "r = dropWhile (\<lambda>c. \<not> value_delimiter c) s"
        using a q by (auto simp: scanJSONValue_def s Let_def split: if_splits)
      then show ?thesis using length_dropWhile_le [of _ t] by (simp add: s le_imp_less_Suc)
    qed
  qed
qed

section \<open>Visiting objects and arrays\<close>

text \<open>The name of a field: its bytes, unquoted when they hold an escape; \<open>None\<close> when that fails.\<close>

definition field_name :: "string \<Rightarrow> string option" where
  "field_name w =
     (let nameBytes = butlast (tl w) in
      if backslash \<in> set nameBytes then
        (case json_text w of Some (JStr name) \<Rightarrow> Some name | _ \<Rightarrow> None)
      else Some nameBytes)"

function visit_members :: "('s \<Rightarrow> string \<Rightarrow> string \<Rightarrow> 'e + 's) \<Rightarrow> 's \<Rightarrow> string \<Rightarrow> 'e + 's" where
  "visit_members visit st data =
     (let s = skip_space data in
      if s = [] \<or> hd s = CHR ''}'' then Inr st
      else (case scanJSONString s of None \<Rightarrow> Inr st
        | Some (w, r) \<Rightarrow> (case field_name w of None \<Rightarrow> Inr st
          | Some name \<Rightarrow>
            (let r1 = skip_space r in
             if r1 = [] \<or> hd r1 \<noteq> CHR '':'' then Inr st
             else (case scanJSONValue (skip_space (tl r1)) of None \<Rightarrow> Inr st
               | Some (val, r2) \<Rightarrow> (case visit st name val of Inl e \<Rightarrow> Inl e
                 | Inr st' \<Rightarrow>
                   (let r3 = skip_space r2 in
                    if r3 = [] \<or> hd r3 \<noteq> CHR '','' then Inr st'
                    else visit_members visit st' (tl r3))))))))"
  by pat_completeness auto
termination
proof (relation "measure (\<lambda>(visit, st, data). length data)", goal_cases)
  case (2 visit st data s p w r name r1 q val r2 st' r3)
  have "length r < length data" using scanJSONString_length [of s] length_skip [of data] 2 by fastforce
  moreover have "length r2 < length (skip_space (tl r1))" using scanJSONValue_length 2 by blast
  moreover have "length (skip_space (tl r1)) \<le> length r"
    using length_skip [of "tl r1"] length_skip [of r] 2 by fastforce
  moreover have "length (tl r3) \<le> length r2" using length_skip [of r2] 2 by fastforce
  ultimately show ?case by simp
qed simp

definition visitJSONObject :: "('s \<Rightarrow> string \<Rightarrow> string \<Rightarrow> 'e + 's) \<Rightarrow> 's \<Rightarrow> string \<Rightarrow> 'e + 's" where
  "visitJSONObject visit st data =
     (let s = skip_space data in
      if s = [] \<or> hd s \<noteq> CHR ''{'' then Inr st else visit_members visit st (tl s))"

function visit_items :: "('s \<Rightarrow> string \<Rightarrow> 'e + 's) \<Rightarrow> 's \<Rightarrow> string \<Rightarrow> 'e + 's" where
  "visit_items visit st data =
     (let s = skip_space data in
      if s = [] \<or> hd s = CHR '']'' then Inr st
      else (case scanJSONValue s of None \<Rightarrow> Inr st
        | Some (val, r) \<Rightarrow> (case visit st val of Inl e \<Rightarrow> Inl e
          | Inr st' \<Rightarrow>
            (let r1 = skip_space r in
             if r1 = [] \<or> hd r1 \<noteq> CHR '','' then Inr st'
             else visit_items visit st' (tl r1)))))"
  by pat_completeness auto
termination
proof (relation "measure (\<lambda>(visit, st, data). length data)", goal_cases)
  case (2 visit st data s p val r st' r1)
  have "length r < length data" using scanJSONValue_length [of s] length_skip [of data] 2 by fastforce
  moreover have "length (tl r1) \<le> length r" using length_skip [of r] 2 by fastforce
  ultimately show ?case by simp
qed simp

definition visitJSONArray :: "('s \<Rightarrow> string \<Rightarrow> 'e + 's) \<Rightarrow> 's \<Rightarrow> string \<Rightarrow> 'e + 's" where
  "visitJSONArray visit st data =
     (let s = skip_space data in
      if s = [] \<or> hd s \<noteq> CHR ''['' then Inr st else visit_items visit st (tl s))"

section \<open>The fields of a snapshot\<close>

datatype snapshotSchema = SnapshotTop | SnapshotChunk | SnapshotPreScan | SnapshotOutput | SnapshotExpansion

fun snapshotFieldAllowed :: "snapshotSchema \<Rightarrow> string \<Rightarrow> bool" where
  "snapshotFieldAllowed SnapshotChunk name \<longleftrightarrow>
     name \<in> set [''cidr'', ''cidr_name'', ''ports'', ''next_index'', ''scanned_count'', ''total_count'', ''status'']"
| "snapshotFieldAllowed SnapshotPreScan name \<longleftrightarrow> name \<in> set [''enabled'', ''timeout_ms'', ''unreachable_ipv4_u32'']"
| "snapshotFieldAllowed SnapshotOutput name \<longleftrightarrow> name \<in> set [''scan_path'', ''open_path'']"
| "snapshotFieldAllowed SnapshotExpansion name \<longleftrightarrow> name \<in> set [''candidate_count'', ''candidate_limit'', ''memory_limit_gb'']"
| "snapshotFieldAllowed SnapshotTop name \<longleftrightarrow> False"

datatype schema_error = UnknownField string

definition validateSnapshotObject :: "string \<Rightarrow> snapshotSchema \<Rightarrow> schema_error + unit" where
  "validateSnapshotObject data schema =
     (let data = trim_space data in
      if data = ''null'' then Inr ()
      else visitJSONObject (\<lambda>_ name _. if snapshotFieldAllowed schema name then Inr () else Inl (UnknownField name)) () data)"

record snapshotSchemaShape =
  preScanPresent :: bool
  chunksPresent :: bool
  chunkCount :: nat

definition schema_visit :: "snapshotSchemaShape \<Rightarrow> string \<Rightarrow> string \<Rightarrow> schema_error + snapshotSchemaShape" where
  "schema_visit shape name val =
     (if name = ''chunks'' then
        try_bind (visitJSONArray (\<lambda>n item. try_bind (validateSnapshotObject item SnapshotChunk) (\<lambda>_. Inr (n + 1))) 0 val)
          (\<lambda>n. Inr (shape\<lparr>chunksPresent := True, chunkCount := n\<rparr>))
      else if name = ''pre_scan_ping'' then
        try_bind (validateSnapshotObject val SnapshotPreScan) (\<lambda>_. Inr (shape\<lparr>preScanPresent := True\<rparr>))
      else if name = ''output'' then try_bind (validateSnapshotObject val SnapshotOutput) (\<lambda>_. Inr shape)
      else if name = ''target_expansion'' then try_bind (validateSnapshotObject val SnapshotExpansion) (\<lambda>_. Inr shape)
      else if name \<in> set [''rich_deny_excluded'', ''target_semantics_version'', ''basic_port_fallback''] then Inr shape
      else Inl (UnknownField name))"

definition validateSnapshotSchema :: "string \<Rightarrow> schema_error + snapshotSchemaShape" where
  "validateSnapshotSchema data =
     visitJSONObject schema_visit \<lparr>preScanPresent = False, chunksPresent = False, chunkCount = 0\<rparr> data"

section \<open>The scan follows the parser\<close>

lemma string_end_scan_str: "scan_str s = Some (b, r) \<Longrightarrow> string_end False (b @ quote # t) = Some (b @ [quote], t)"
proof (induction s arbitrary: b rule: scan_str.induct)
  case (2 c s)
  show ?case
  proof (cases "c = backslash")
    case True
    then obtain e s1 where s: "s = e # s1" using 2(4) by (cases s) auto
    show ?thesis
    proof (cases "simple_escape e")
      case True
      with \<open>c = backslash\<close> s 2(4) obtain b1 where "scan_str s1 = Some (b1, r)" "b = [c, e] @ b1"
        by (auto simp: cons_fst_def)
      then show ?thesis using 2(1) [OF _ _ \<open>c = backslash\<close> s True] \<open>c = backslash\<close> s by simp
    next
      case False
      with \<open>c = backslash\<close> s 2(4) obtain h1 h2 h3 h4 s2 b1 where h: "e = CHR ''u''" "s1 = h1 # h2 # h3 # h4 # s2"
        "is_hex h1 \<and> is_hex h2 \<and> is_hex h3 \<and> is_hex h4" "scan_str s2 = Some (b1, r)" "b = [c, e, h1, h2, h3, h4] @ b1"
        by (auto simp: cons_fst_def split: list.splits if_splits)
      have plain: "h \<noteq> quote \<and> h \<noteq> backslash" if "is_hex h" for h
        using that by (auto simp: is_hex_def hex_value_def)
      show ?thesis
        using 2(2) [OF _ _ \<open>c = backslash\<close> s False h(1) h(2) refl refl refl h(3) h(4)] \<open>c = backslash\<close> s h plain
        by simp
    qed
  next
    case False
    show ?thesis
    proof (cases "c = quote")
      case True
      with 2(4) show ?thesis by simp
    next
      case c: False
      with False 2(4) obtain b1 where "\<not> code c < 0x20" "scan_str s = Some (b1, r)" "b = c # b1"
        by (auto simp: cons_fst_def split: if_splits)
      then show ?thesis using 2(3) [OF c _ False] c False by simp
    qed
  qed
qed simp

lemma scanJSONString_quoted:
  "scan_str s = Some (b, r) \<Longrightarrow> scanJSONString (quote # b @ quote # t) = Some (quote # b @ [quote], t)"
  by (simp add: scanJSONString_def string_end_scan_str)

definition plain_char :: "char \<Rightarrow> bool" where
  "plain_char c \<longleftrightarrow> c \<notin> set [quote, CHR ''{'', CHR ''['', CHR ''}'', CHR '']'']"

lemma nested_end_plain: "list_all plain_char w \<Longrightarrow> nested_end (Suc d) (w @ t) = cons_fst w (nested_end (Suc d) t)"
proof (induction w)
  case Nil
  show ?case by (cases "nested_end (Suc d) t") (auto simp: cons_fst_def)
next
  case (Cons c w)
  then show ?case by (simp add: plain_char_def cons_fst_append)
qed

lemma space_plain: "json_space c \<Longrightarrow> plain_char c" "json_space c \<Longrightarrow> value_delimiter c"
  by (auto simp: json_space_def plain_char_def value_delimiter_def)

lemma spaces_plain: "list_all plain_char (takeWhile json_space s)"
  by (auto simp: list_all_iff space_plain dest: set_takeWhileD)

lemma skip_split: "takeWhile json_space s @ skip_space s = s"
  by (rule takeWhile_dropWhile_id)

lemma number_char_plain:
  assumes "number_char c"
  shows "plain_char c" "\<not> value_delimiter c" "is_print c"
proof -
  have digit: "is_digit c \<Longrightarrow> plain_char c \<and> \<not> value_delimiter c \<and> is_print c"
    by (auto simp: is_digit_def is_print_def plain_char_def value_delimiter_def)
  have "list_all (\<lambda>c. plain_char c \<and> \<not> value_delimiter c \<and> is_print c) ''+-.eE''" by code_simp
  then show "plain_char c" "\<not> value_delimiter c" "is_print c"
    using assms digit unfolding number_char_def list_all_iff by blast+
qed

text \<open>How a value's text behaves under the scan, whatever follows it\<close>

definition scanned :: "string \<Rightarrow> bool" where
  "scanned w \<longleftrightarrow> w \<noteq> [] \<and> is_print (hd w) \<and> is_print (last w) \<and>
     (\<forall>d t. nested_end (Suc d) (w @ t) = cons_fst w (nested_end (Suc d) t)) \<and>
     (\<forall>t. t = [] \<or> value_delimiter (hd t) \<longrightarrow> scanJSONValue (w @ t) = Some (w, t))"

lemma scanned_scan: "scanned w \<Longrightarrow> t = [] \<or> value_delimiter (hd t) \<Longrightarrow> scanJSONValue (w @ t) = Some (w, t)"
  unfolding scanned_def by blast

lemma scanned_word:
  assumes "w \<noteq> []" and "list_all plain_char w" and "\<forall>c \<in> set w. \<not> value_delimiter c \<and> is_print c"
  shows "scanned w"
proof -
  obtain c u where w: "w = c # u" using assms(1) by (cases w) auto
  have "takeWhile (\<lambda>c. \<not> value_delimiter c) (w @ t) = w @ takeWhile (\<lambda>c. \<not> value_delimiter c) t"
    "dropWhile (\<lambda>c. \<not> value_delimiter c) (w @ t) = dropWhile (\<lambda>c. \<not> value_delimiter c) t" for t
    using assms(3) by (simp_all add: takeWhile_append dropWhile_append)
  moreover have "takeWhile (\<lambda>c. \<not> value_delimiter c) t = []" "dropWhile (\<lambda>c. \<not> value_delimiter c) t = t"
    if "t = [] \<or> value_delimiter (hd t)" for t
    using that by (cases t; simp)+
  moreover have "c \<noteq> quote" "c \<noteq> CHR ''{''" "c \<noteq> CHR ''[''" using assms(2) by (simp_all add: w plain_char_def)
  ultimately have scan: "scanJSONValue (w @ t) = Some (w, t)" if "t = [] \<or> value_delimiter (hd t)" for t
    using that unfolding scanJSONValue_def Let_def by (simp add: w)
  have ends: "is_print (hd w)" "is_print (last w)" using assms(1,3) by simp_all
  show ?thesis
    unfolding scanned_def
  proof (intro conjI allI impI)
    show "nested_end (Suc d) (w @ t) = cons_fst w (nested_end (Suc d) t)" for d t
      by (rule nested_end_plain [OF assms(2)])
  qed (use assms(1) ends scan in auto)
qed

text \<open>The rest of an array or object, up to and with its closing bracket\<close>

definition closes :: "string \<Rightarrow> bool" where
  "closes u \<longleftrightarrow> u \<noteq> [] \<and> is_print (last u) \<and> (\<forall>d t. nested_end (Suc d) (u @ t) = cons_fst u (nested_end d t))"

lemma closes_bracket: "c = CHR '']'' \<or> c = CHR ''}'' \<Longrightarrow> list_all plain_char sp \<Longrightarrow> closes (sp @ [c])"
proof -
  assume c: "c = CHR '']'' \<or> c = CHR ''}''" and sp: "list_all plain_char sp"
  have "nested_end (Suc d) ((sp @ [c]) @ t) = cons_fst (sp @ [c]) (nested_end d t)" for d t
    using nested_end_plain [OF sp, of d "c # t"] c by (auto simp: cons_fst_append)
  moreover have "is_print c" using c by (auto simp: is_print_def)
  ultimately show ?thesis by (simp add: closes_def)
qed

lemma closes_prepend:
  assumes "closes u" and "\<And>d t. nested_end (Suc d) (w @ t) = cons_fst w (nested_end (Suc d) t)"
  shows "closes (w @ u)"
  using assms by (simp add: closes_def cons_fst_append)

lemma scanned_closes: "scanned w \<Longrightarrow> closes u \<Longrightarrow> closes (w @ u)"
  by (rule closes_prepend) (simp_all add: scanned_def)

lemma plain_closes: "list_all plain_char w \<Longrightarrow> closes u \<Longrightarrow> closes (w @ u)"
  by (rule closes_prepend) (simp_all add: nested_end_plain)

lemma quoted_closes: "scan_str x = Some (b, r) \<Longrightarrow> closes u \<Longrightarrow> closes ((quote # b @ [quote]) @ u)"
  by (rule closes_prepend) (simp_all add: scanJSONString_quoted)

lemma scanned_open:
  assumes "c = CHR ''['' \<or> c = CHR ''{''" and "closes u"
  shows "scanned (c # u)"
proof -
  have close: "nested_end (Suc d) (u @ t) = cons_fst u (nested_end d t)" for d t
    using assms(2) by (simp add: closes_def)
  have c: "c \<noteq> quote" "c \<noteq> CHR ''}''" "c \<noteq> CHR '']''" "is_print c" using assms(1) by (auto simp: is_print_def)
  have "nested_end (Suc d) ((c # u) @ t) = cons_fst (c # u) (nested_end (Suc d) t)" for d t
    using assms(1) c by (auto simp: close cons_fst_append)
  moreover have "scanJSONValue ((c # u) @ t) = Some (c # u, t)" for t
    using assms(1) c close [of 0 t] by (auto simp: scanJSONValue_def)
  ultimately show ?thesis
    using assms(2) c(4) by (simp add: scanned_def closes_def del: append_Cons)
qed

lemma scanned_quoted: "scan_str x = Some (b, r) \<Longrightarrow> scanned (quote # b @ [quote])"
  using scanJSONString_quoted [of x b r]
  by (simp add: scanned_def scanJSONValue_def is_print_def)

lemma scanned_literal: "w \<in> set [''null'', ''true'', ''false''] \<Longrightarrow> scanned w"
proof (rule scanned_word)
  have "list_all (\<lambda>w. list_all plain_char w \<and> list_all (\<lambda>c. \<not> value_delimiter c \<and> is_print c) w) [''null'', ''true'', ''false'']"
    by code_simp
  then show "w \<in> set [''null'', ''true'', ''false''] \<Longrightarrow> list_all plain_char w"
    "w \<in> set [''null'', ''true'', ''false''] \<Longrightarrow> \<forall>c \<in> set w. \<not> value_delimiter c \<and> is_print c"
    unfolding list_all_iff by blast+
qed auto

lemma scanned_number: "w \<noteq> [] \<Longrightarrow> list_all number_char w \<Longrightarrow> scanned w"
  by (rule scanned_word) (auto simp: list_all_iff number_char_plain)

lemma skip_parts: "skip_space q = c # p \<Longrightarrow> q = takeWhile json_space q @ c # p"
  by (metis skip_split)

lemma json_scanned:
  "(\<forall>v. json_value n s = Some (v, r) \<longrightarrow> (\<exists>w. s = w @ r \<and> scanned w)) \<and>
   (\<forall>vs. json_elems n s = Some (vs, r) \<longrightarrow> (\<exists>u. s = u @ r \<and> closes u)) \<and>
   (\<forall>ms. json_members n s = Some (ms, r) \<longrightarrow> (\<exists>u. s = u @ r \<and> closes u))"
proof (induction n arbitrary: s r rule: less_induct)
  case (less n)
  note val = less.IH [THEN conjunct1, rule_format]
    and elems = less.IH [THEN conjunct2, THEN conjunct1, rule_format]
    and members = less.IH [THEN conjunct2, THEN conjunct2, rule_format]
  note sp = spaces_plain
  have "\<exists>w. s = w @ r \<and> scanned w" if "json_value n s = Some (v, r)" for v
    using that
  proof (cases rule: json_valueE)
    case (Str m t b)
    then have "s = (quote # b @ [quote]) @ r" using scan_str_split [OF Str(3)] by simp
    then show ?thesis using scanned_quoted [OF Str(3)] by blast
  next
    case (Empty m c d t)
    then have d: "d = CHR '']'' \<or> d = CHR ''}''" and c: "c = CHR ''['' \<or> c = CHR ''{''" by auto
    have "s = (c # takeWhile json_space t @ [d]) @ r" using skip_parts [OF Empty(3)] Empty(2) by simp
    then show ?thesis using scanned_open [OF c closes_bracket [OF d sp]] by blast
  next
    case (Arr m t vs)
    then obtain u where u: "skip_space t = u @ r" "closes u" using elems [of m] by blast
    have "s = (CHR ''['' # takeWhile json_space t @ u) @ r" using Arr(2) skip_split [of t] u(1) by simp
    then show ?thesis using scanned_open [OF _ plain_closes [OF sp u(2)]] by blast
  next
    case (Obj m t ms)
    then obtain u where u: "skip_space t = u @ r" "closes u" using members [of m] by blast
    have "s = (CHR ''{'' # takeWhile json_space t @ u) @ r" using Obj(2) skip_split [of t] u(1) by simp
    then show ?thesis using scanned_open [OF _ plain_closes [OF sp u(2)]] by blast
  next
    case (Lit m w)
    then have "scanned w" by (intro scanned_literal) auto
    then show ?thesis using Lit(2) by blast
  next
    case (Num m w)
    then show ?thesis using json_number_split [OF Num(2)] scanned_number by blast
  qed
  moreover have "\<exists>u. s = u @ r \<and> closes u" if "json_elems n s = Some (vs, r)" for vs
    using that
  proof (cases rule: json_elemsE)
    case (1 m v q p vs')
    then obtain w where w: "s = w @ q" "scanned w" using val [of m] by blast
    show ?thesis
    proof (cases "skip_space q = CHR '']'' # r")
      case True
      then have "s = (w @ takeWhile json_space q @ [CHR '']'']) @ r" using w(1) skip_parts [OF True] by simp
      then show ?thesis using scanned_closes [OF w(2) closes_bracket [OF _ sp]] by blast
    next
      case False
      then obtain u where u: "skip_space q = CHR '','' # p" "skip_space p = u @ r" "closes u" using 1 elems [of m] by blast
      have comma: "list_all plain_char (takeWhile json_space q @ CHR '','' # takeWhile json_space p)"
        using sp by (simp add: plain_char_def)
      have "s = (w @ (takeWhile json_space q @ CHR '','' # takeWhile json_space p) @ u) @ r"
        using w(1) skip_parts [OF u(1)] skip_split [of p] u(2) by simp
      then show ?thesis using scanned_closes [OF w(2) plain_closes [OF comma u(3)]] by blast
    qed
  qed
  moreover have "\<exists>u. s = u @ r \<and> closes u" if "json_members n s = Some (ms, r)" for ms
    using that
  proof (cases rule: json_membersE)
    case (1 m t k r1 r2 v q p ms')
    then obtain w where w: "skip_space r2 = w @ q" "scanned w" using val [of m] by blast
    have colon: "list_all plain_char (takeWhile json_space r1 @ CHR '':'' # takeWhile json_space r2)"
      using sp by (simp add: plain_char_def)
    have head: "s = (quote # k @ [quote]) @ (takeWhile json_space r1 @ CHR '':'' # takeWhile json_space r2) @ w @ q"
      using 1(2) scan_str_split [OF 1(3)] skip_parts [OF 1(4)] skip_split [of r2] w(1) by simp
    have "\<exists>u. q = u @ r \<and> closes u"
    proof (cases "skip_space q = CHR ''}'' # r")
      case True
      then have "q = (takeWhile json_space q @ [CHR ''}'']) @ r" using skip_parts [OF True] by simp
      then show ?thesis using closes_bracket [OF _ sp] by blast
    next
      case False
      then obtain u where u: "skip_space q = CHR '','' # p" "skip_space p = u @ r" "closes u" using 1 members [of m] by blast
      have comma: "list_all plain_char (takeWhile json_space q @ CHR '','' # takeWhile json_space p)"
        using sp by (simp add: plain_char_def)
      have "q = ((takeWhile json_space q @ CHR '','' # takeWhile json_space p) @ u) @ r"
        using skip_parts [OF u(1)] skip_split [of p] u(2) by simp
      then show ?thesis using plain_closes [OF comma u(3)] by blast
    qed
    then obtain u where u: "q = u @ r" "closes u" by blast
    then have "s = ((quote # k @ [quote]) @ (takeWhile json_space r1 @ CHR '':'' # takeWhile json_space r2) @ w @ u) @ r"
      using head by simp
    then show ?thesis
      using quoted_closes [OF 1(3) plain_closes [OF colon scanned_closes [OF w(2) u(2)]]] by blast
  qed
  ultimately show ?case by blast
qed

lemma json_value_scanned: "json_value n s = Some (v, r) \<Longrightarrow> \<exists>w. s = w @ r \<and> scanned w"
  using json_scanned by blast

section \<open>What the visits see\<close>

lemma scan_str_again: "scan_str s = Some (b, r) \<Longrightarrow> scan_str (b @ quote # t) = Some (b, t)"
proof (induction s arbitrary: b rule: scan_str.induct)
  case (2 c s)
  show ?case
  proof (cases "c = backslash")
    case True
    then obtain e s1 where s: "s = e # s1" using 2(4) by (cases s) auto
    show ?thesis
    proof (cases "simple_escape e")
      case True
      with \<open>c = backslash\<close> s 2(4) obtain b1 where "scan_str s1 = Some (b1, r)" "b = [c, e] @ b1"
        by (auto simp: cons_fst_def)
      then show ?thesis using 2(1) [OF _ _ \<open>c = backslash\<close> s True] \<open>c = backslash\<close> s True by simp
    next
      case False
      with \<open>c = backslash\<close> s 2(4) obtain h1 h2 h3 h4 s2 b1 where h: "e = CHR ''u''" "s1 = h1 # h2 # h3 # h4 # s2"
        "is_hex h1 \<and> is_hex h2 \<and> is_hex h3 \<and> is_hex h4" "scan_str s2 = Some (b1, r)" "b = [c, e, h1, h2, h3, h4] @ b1"
        by (auto simp: cons_fst_def split: list.splits if_splits)
      then show ?thesis
        using 2(2) [OF _ _ \<open>c = backslash\<close> s False h(1) h(2) refl refl refl h(3) h(4)] \<open>c = backslash\<close> False by simp
    qed
  next
    case False
    show ?thesis
    proof (cases "c = quote")
      case True
      with 2(4) show ?thesis by simp
    next
      case c: False
      with False 2(4) obtain b1 where "\<not> code c < 0x20" "scan_str s = Some (b1, r)" "b = c # b1"
        by (auto simp: cons_fst_def split: if_splits)
      then show ?thesis using 2(3) [OF c _ False] c False by simp
    qed
  qed
qed simp

text \<open>The field names of the schema are ASCII. Raw and decoded name agree on those.\<close>

definition ascii :: "string \<Rightarrow> bool" where
  "ascii a \<longleftrightarrow> list_all (\<lambda>c. code c < 0x80) a"

definition same_name :: "string \<Rightarrow> string \<Rightarrow> bool" where
  "same_name n k \<longleftrightarrow> (\<forall>a. ascii a \<longrightarrow> (n = a \<longleftrightarrow> k = a))"

lemma unquote_ascii: "backslash \<notin> set b \<Longrightarrow> ascii b \<Longrightarrow> unquote b = b"
  by (induction b) (auto simp: ascii_def)

lemma unquote_not_ascii: "backslash \<notin> set b \<Longrightarrow> \<not> ascii b \<Longrightarrow> \<not> ascii (unquote b)"
proof (induction b rule: unquote.induct)
  case (2 c s)
  have c: "c \<noteq> backslash" "backslash \<notin> set s" using "2.prems"(1) by auto
  let ?n = "rune_size (c # s)"
  show ?case
  proof (cases "code c < 0x80")
    case True
    then show ?thesis using "2.IH" "2.prems"(2) c by (simp add: ascii_def)
  next
    case high: False
    show ?thesis
    proof (cases "?n = 0")
      case True
      then show ?thesis using high c(1) by (simp add: ascii_def replacement_def)
    next
      case False
      then have "\<forall>x \<in> set (take ?n (c # s)). 0x80 \<le> code x" "take ?n (c # s) \<noteq> []"
        using rune_size_high [of "c # s"] by auto
      then have "\<not> ascii (take ?n (c # s))" by (cases "take ?n (c # s)") (auto simp: ascii_def)
      moreover have "unquote (c # s) = take ?n (c # s) @ unquote (drop ?n (c # s))"
        using high c(1) False by (simp only: unquote.simps Let_def if_False)
      ultimately show ?thesis by (simp add: ascii_def)
    qed
  qed
qed (simp add: ascii_def)

lemma field_name_reads:
  assumes "scan_str x = Some (b, r)"
  shows "\<exists>n. field_name (quote # b @ [quote]) = Some n \<and> same_name n (unquote b)"
proof (cases "backslash \<in> set b")
  case True
  have "scan_str (b @ [quote]) = Some (b, [])" by (rule scan_str_again [OF assms])
  moreover have "skip_space (quote # b @ [quote]) = quote # b @ [quote]" by (simp add: json_space_def)
  ultimately have "json_text (quote # b @ [quote]) = Some (JStr (unquote b))"
    by (simp add: json_text_def json_value.simps)
  then show ?thesis using True by (simp add: field_name_def same_name_def)
next
  case False
  have "same_name b (unquote b)"
    using unquote_ascii [OF False] unquote_not_ascii [OF False] unfolding same_name_def by metis
  then show ?thesis using False by (simp add: field_name_def)
qed

definition denotes :: "string \<Rightarrow> json \<Rightarrow> bool" where
  "denotes w v \<longleftrightarrow> scanned w \<and> (\<exists>n r. json_value n (w @ r) = Some (v, r))"

lemma json_value_denotes: "json_value n s = Some (v, r) \<Longrightarrow> \<exists>w. s = w @ r \<and> denotes w v"
  using json_value_scanned unfolding denotes_def by blast

lemma scanned_not_space: "scanned w \<Longrightarrow> skip_space (w @ t) = w @ t"
  by (cases w) (auto simp: scanned_def is_print_def json_space_def)

lemma skip_spaces_append: "list_all json_space sp \<Longrightarrow> skip_space (sp @ t) = skip_space t"
  by (induction sp) auto

lemma takeWhile_spaces: "list_all json_space (takeWhile json_space s)"
  by (auto simp: list_all_iff dest: set_takeWhileD)

lemma spaces_delimit:
  assumes "list_all json_space sp" and "value_delimiter c"
  shows "value_delimiter (hd (sp @ c # t))"
  using assms space_plain by (cases sp) auto

lemma visit_members_skip: "list_all json_space sp \<Longrightarrow> visit_members visit st (sp @ t) = visit_members visit st t"
  by (simp only: visit_members.simps [of _ _ "sp @ t"] visit_members.simps [of _ _ t] skip_spaces_append)

lemma visit_items_skip: "list_all json_space sp \<Longrightarrow> visit_items visit st (sp @ t) = visit_items visit st t"
  by (simp only: visit_items.simps [of _ _ "sp @ t"] visit_items.simps [of _ _ t] skip_spaces_append)

declare visit_members.simps [simp del] visit_items.simps [simp del]

lemma visit_one_member:
  assumes "scan_str x = Some (b, q)" and "field_name (quote # b @ [quote]) = Some name"
    and "list_all json_space sp1" and "list_all json_space sp2" and "scanned w" and "t = [] \<or> value_delimiter (hd t)"
  shows "visit_members visit st ((quote # b @ [quote]) @ sp1 @ CHR '':'' # sp2 @ w @ t) =
    (case visit st name w of Inl e \<Rightarrow> Inl e
     | Inr st' \<Rightarrow> if skip_space t = [] \<or> hd (skip_space t) \<noteq> CHR '','' then Inr st'
         else visit_members visit st' (tl (skip_space t)))"
proof -
  have "skip_space (sp2 @ w @ t) = w @ t"
    using skip_spaces_append [OF assms(4)] scanned_not_space [OF assms(5)] by simp
  moreover have "scanJSONValue (w @ t) = Some (w, t)" by (rule scanned_scan [OF assms(5,6)])
  moreover have "skip_space (sp1 @ CHR '':'' # sp2 @ w @ t) = CHR '':'' # sp2 @ w @ t"
    using skip_spaces_append [OF assms(3)] by (simp add: json_space_def)
  moreover have "\<not> json_space quote" by (simp add: json_space_def)
  ultimately show ?thesis
    using assms(2) by (subst visit_members.simps)
      (simp add: Let_def scanJSONString_quoted [OF assms(1)] del: dropWhile_eq_Nil_conv split: sum.split)
qed

lemma scanned_head:
  assumes "scanned w"
  shows "w \<noteq> []" "hd w \<noteq> CHR '']''" "hd w \<noteq> CHR ''}''"
proof -
  show "w \<noteq> []" using assms by (simp add: scanned_def)
  then obtain c u where w: "w = c # u" by (cases w) auto
  have "nested_end (Suc 0) (w @ []) = cons_fst w (nested_end (Suc 0) [])" using assms unfolding scanned_def by blast
  then have "nested_end (Suc 0) (c # u) = None" by (simp add: w cons_fst_def)
  then show "hd w \<noteq> CHR '']''" "hd w \<noteq> CHR ''}''" by (auto simp: w)
qed

lemma visit_one_item:
  assumes "scanned w" and "t = [] \<or> value_delimiter (hd t)"
  shows "visit_items visit st (w @ t) =
    (case visit st w of Inl e \<Rightarrow> Inl e
     | Inr st' \<Rightarrow> if skip_space t = [] \<or> hd (skip_space t) \<noteq> CHR '','' then Inr st'
         else visit_items visit st' (tl (skip_space t)))"
  using scanned_scan [OF assms] scanned_not_space [OF assms(1)] scanned_head [OF assms(1)]
  by (subst visit_items.simps) (simp add: Let_def del: dropWhile_eq_Nil_conv split: sum.split)

text \<open>The members a visit is called with, for the members of the parsed object\<close>

definition member_read :: "string \<times> json \<Rightarrow> string \<times> string \<Rightarrow> bool" where
  "member_read m p \<longleftrightarrow> same_name (fst p) (fst m) \<and> denotes (snd p) (snd m)"

lemma visit_members_reads:
  "json_members n s = Some (ms, r) \<Longrightarrow>
   \<exists>u ps. s = u @ r \<and> list_all2 member_read ms ps \<and>
     (\<forall>(visit :: 's \<Rightarrow> string \<Rightarrow> string \<Rightarrow> 'e + 's) st t. visit_members visit st (u @ t) = try_fold (\<lambda>st (name, w). visit st name w) st ps)"
proof (induction n arbitrary: s ms)
  case 0
  then show ?case by (simp add: json_members.simps)
next
  case (Suc n)
  from Suc.prems show ?case
  proof (cases rule: json_membersE)
    case (1 m t k r1 r2 v q p ms')
    obtain w where w: "skip_space r2 = w @ q" "denotes w v" using json_value_denotes [OF 1(5)] by blast
    then have sc: "scanned w" by (simp add: denotes_def)
    obtain name where name: "field_name (quote # k @ [quote]) = Some name" "same_name name (unquote k)"
      using field_name_reads [OF 1(3)] by blast
    let ?sp1 = "takeWhile json_space r1" and ?sp2 = "takeWhile json_space r2" and ?sp3 = "takeWhile json_space q"
    let ?head = "(quote # k @ [quote]) @ ?sp1 @ CHR '':'' # ?sp2 @ w"
    have s: "s = ?head @ q"
      using 1(2) scan_str_split [OF 1(3)] skip_parts [OF 1(4)] skip_split [of r2] w(1) by simp
    have step: "visit_members visit st (?head @ ?sp3 @ c # t) =
        (case visit st name w of Inl e \<Rightarrow> Inl e | Inr st' \<Rightarrow> if c \<noteq> CHR '','' then Inr st' else visit_members visit st' t)"
      if "c = CHR '','' \<or> c = CHR ''}''" for visit :: "'s \<Rightarrow> string \<Rightarrow> string \<Rightarrow> 'e + 's" and st t c
    proof -
      have "value_delimiter c" "\<not> json_space c" using that by (auto simp: value_delimiter_def json_space_def)
      then have "value_delimiter (hd (?sp3 @ c # t))" "skip_space (?sp3 @ c # t) = c # t"
        using spaces_delimit [OF takeWhile_spaces] skip_spaces_append [OF takeWhile_spaces] by simp_all
      moreover from this have "visit_members visit st ((quote # k @ [quote]) @ ?sp1 @ CHR '':'' # ?sp2 @ w @ ?sp3 @ c # t) =
          (case visit st name w of Inl e \<Rightarrow> Inl e
           | Inr st' \<Rightarrow> if skip_space (?sp3 @ c # t) = [] \<or> hd (skip_space (?sp3 @ c # t)) \<noteq> CHR '','' then Inr st'
               else visit_members visit st' (tl (skip_space (?sp3 @ c # t))))"
        by (intro visit_one_member [OF 1(3) name(1) takeWhile_spaces takeWhile_spaces sc]) simp
      ultimately show ?thesis by (simp only: append_assoc append_Cons append_Nil list.sel list.distinct simp_thms)
    qed
    show ?thesis
    proof (cases "skip_space q = CHR ''}'' # r")
      case True
      have "s = (?head @ ?sp3 @ [CHR ''}'']) @ r" using s skip_parts [OF True] by simp
      moreover have "list_all2 member_read ms [(name, w)]"
        using 1 True name(2) w(2) by (auto simp: member_read_def)
      moreover have "visit_members visit st ((?head @ ?sp3 @ [CHR ''}'']) @ t) =
          try_fold (\<lambda>st (name, w). visit st name w) st [(name, w)]" for visit :: "'s \<Rightarrow> string \<Rightarrow> string \<Rightarrow> 'e + 's" and st t
        using step [of "CHR ''}''" visit st t] by (simp add: try_bind_def split: sum.split)
      ultimately show ?thesis by blast
    next
      case False
      then have c: "skip_space q = CHR '','' # p" "json_members n (skip_space p) = Some (ms', r)" "ms = (unquote k, v) # ms'"
        using 1 by auto
      obtain u ps where u: "skip_space p = u @ r" "list_all2 member_read ms' ps"
        "\<forall>(visit :: 's \<Rightarrow> string \<Rightarrow> string \<Rightarrow> 'e + 's) st t. visit_members visit st (u @ t) = try_fold (\<lambda>st (name, w). visit st name w) st ps"
        using Suc.IH [OF c(2)] by blast
      let ?sp4 = "takeWhile json_space p"
      have "s = (?head @ ?sp3 @ CHR '','' # ?sp4 @ u) @ r" using s skip_parts [OF c(1)] skip_split [of p] u(1) by simp
      moreover have "list_all2 member_read ms ((name, w) # ps)"
        using c(3) u(2) name(2) w(2) by (simp add: member_read_def)
      moreover have "visit_members visit st ((?head @ ?sp3 @ CHR '','' # ?sp4 @ u) @ t) =
          try_fold (\<lambda>st (name, w). visit st name w) st ((name, w) # ps)" for visit :: "'s \<Rightarrow> string \<Rightarrow> string \<Rightarrow> 'e + 's" and st t
        using step [of "CHR '',''" visit st "?sp4 @ u @ t"] u(3) visit_members_skip [OF takeWhile_spaces, of visit _ p "u @ t"]
        by (simp add: try_bind_def split: sum.split)
      ultimately show ?thesis by blast
    qed
  qed
qed

lemma visit_items_reads:
  "json_elems n s = Some (vs, r) \<Longrightarrow>
   \<exists>u ws. s = u @ r \<and> list_all2 (\<lambda>v w. denotes w v) vs ws \<and>
     (\<forall>(visit :: 's \<Rightarrow> string \<Rightarrow> 'e + 's) st t. visit_items visit st (u @ t) = try_fold visit st ws)"
proof (induction n arbitrary: s vs)
  case 0
  then show ?case by (simp add: json_elems.simps)
next
  case (Suc n)
  from Suc.prems show ?case
  proof (cases rule: json_elemsE)
    case (1 m v q p vs')
    obtain w where w: "s = w @ q" "denotes w v" using json_value_denotes [OF 1(2)] by blast
    then have sc: "scanned w" by (simp add: denotes_def)
    let ?sp3 = "takeWhile json_space q"
    have step: "visit_items visit st (w @ ?sp3 @ c # t) =
        (case visit st w of Inl e \<Rightarrow> Inl e | Inr st' \<Rightarrow> if c \<noteq> CHR '','' then Inr st' else visit_items visit st' t)"
      if "c = CHR '','' \<or> c = CHR '']''" for visit :: "'s \<Rightarrow> string \<Rightarrow> 'e + 's" and st t c
    proof -
      have "value_delimiter c" "\<not> json_space c" using that by (auto simp: value_delimiter_def json_space_def)
      then have d: "value_delimiter (hd (?sp3 @ c # t))" and "skip_space (?sp3 @ c # t) = c # t"
        using spaces_delimit [OF takeWhile_spaces] skip_spaces_append [OF takeWhile_spaces] by simp_all
      then show ?thesis
        using visit_one_item [OF sc disjI2 [OF d], of visit st] by (simp only: list.sel list.distinct simp_thms)
    qed
    show ?thesis
    proof (cases "skip_space q = CHR '']'' # r")
      case True
      have "s = (w @ ?sp3 @ [CHR '']'']) @ r" using w(1) skip_parts [OF True] by simp
      moreover have "list_all2 (\<lambda>v w. denotes w v) vs [w]" using 1 True w(2) by auto
      moreover have "visit_items visit st ((w @ ?sp3 @ [CHR '']'']) @ t) = try_fold visit st [w]"
        for visit :: "'s \<Rightarrow> string \<Rightarrow> 'e + 's" and st t
        using step [of "CHR '']''" visit st t] by (simp add: try_bind_def split: sum.split)
      ultimately show ?thesis by blast
    next
      case False
      then have c: "skip_space q = CHR '','' # p" "json_elems n (skip_space p) = Some (vs', r)" "vs = v # vs'"
        using 1 by auto
      obtain u ws where u: "skip_space p = u @ r" "list_all2 (\<lambda>v w. denotes w v) vs' ws"
        "\<forall>(visit :: 's \<Rightarrow> string \<Rightarrow> 'e + 's) st t. visit_items visit st (u @ t) = try_fold visit st ws"
        using Suc.IH [OF c(2)] by blast
      let ?sp4 = "takeWhile json_space p"
      have "s = (w @ ?sp3 @ CHR '','' # ?sp4 @ u) @ r" using w(1) skip_parts [OF c(1)] skip_split [of p] u(1) by simp
      moreover have "list_all2 (\<lambda>v w. denotes w v) vs (w # ws)" using c(3) u(2) w(2) by simp
      moreover have "visit_items visit st ((w @ ?sp3 @ CHR '','' # ?sp4 @ u) @ t) = try_fold visit st (w # ws)"
        for visit :: "'s \<Rightarrow> string \<Rightarrow> 'e + 's" and st t
        using step [of "CHR '',''" visit st "?sp4 @ u @ t"] u(3) visit_items_skip [OF takeWhile_spaces, of visit _ p "u @ t"]
        by (simp add: try_bind_def split: sum.split)
      ultimately show ?thesis by blast
    qed
  qed
qed

text \<open>A value that is no object is not visited, an object once per member; likewise for arrays.\<close>

definition is_object :: "json \<Rightarrow> bool" where
  "is_object v \<longleftrightarrow> (case v of JObj _ \<Rightarrow> True | _ \<Rightarrow> False)"

definition members_of :: "json \<Rightarrow> (string \<times> json) list" where
  "members_of v = (case v of JObj ms \<Rightarrow> ms | _ \<Rightarrow> [])"

definition items_of :: "json \<Rightarrow> json list" where
  "items_of v = (case v of JArr vs \<Rightarrow> vs | _ \<Rightarrow> [])"

lemma empty_visits [simp]:
  "visit_members visit st (sp @ CHR ''}'' # t) = Inr st" if "list_all json_space sp"
  using that by (subst visit_members.simps) (simp add: skip_spaces_append json_space_def Let_def)

lemma empty_visit_items [simp]:
  "visit_items visit st (sp @ CHR '']'' # t) = Inr st" if "list_all json_space sp"
  using that by (subst visit_items.simps) (simp add: skip_spaces_append json_space_def Let_def)

lemma visitJSONObject_reads:
  assumes "denotes w v"
  shows "\<exists>ps. list_all2 member_read (members_of v) ps \<and>
     (\<forall>(visit :: 's \<Rightarrow> string \<Rightarrow> string \<Rightarrow> 'e + 's) st. visitJSONObject visit st w = try_fold (\<lambda>st (name, w). visit st name w) st ps)"
proof -
  obtain n r where j: "json_value n (w @ r) = Some (v, r)" and sc: "scanned w"
    using assms by (auto simp: denotes_def)
  have self: "skip_space w = w" "w \<noteq> []" using scanned_not_space [OF sc, of "[]"] scanned_head [OF sc] by simp_all
  note obj = visitJSONObject_def Let_def
  have other: ?thesis if "hd w \<noteq> CHR ''{''" "members_of v = []"
    using that self by (intro exI [of _ "[]"]) (simp add: obj)
  from j show ?thesis
  proof (cases rule: json_valueE)
    case (Str m t b)
    then show ?thesis using self by (intro other) (cases w; auto simp: members_of_def)+
  next
    case (Empty m c d t)
    show ?thesis
    proof (cases "c = CHR ''{''")
      case True
      have "w @ r = (c # takeWhile json_space t @ [d]) @ r" using Empty(2) skip_parts [OF Empty(3)] by simp
      then have w: "w = c # takeWhile json_space t @ [d]" "d = CHR ''}''" "v = JObj []"
        using Empty(4) True by auto
      then have "visitJSONObject visit st w = Inr st" for visit :: "'s \<Rightarrow> string \<Rightarrow> string \<Rightarrow> 'e + 's" and st
        using self True empty_visits [OF takeWhile_spaces, of visit st t "[]"] by (simp add: obj)
      then show ?thesis using w by (intro exI [of _ "[]"]) (simp add: members_of_def)
    next
      case False
      then show ?thesis using Empty self by (intro other) (cases w; auto simp: members_of_def)+
    qed
  next
    case (Arr m t vs)
    then show ?thesis using self by (intro other) (cases w; auto simp: members_of_def)+
  next
    case (Obj m t ms)
    obtain u ps where u: "skip_space t = u @ r" "list_all2 member_read ms ps"
      "\<forall>(visit :: 's \<Rightarrow> string \<Rightarrow> string \<Rightarrow> 'e + 's) st q. visit_members visit st (u @ q) = try_fold (\<lambda>st (name, w). visit st name w) st ps"
      using visit_members_reads [OF Obj(5)] by blast
    have "t = takeWhile json_space t @ u @ r" using skip_split [of t] u(1) by simp
    then have "w = CHR ''{'' # takeWhile json_space t @ u" using Obj(2) by (metis append_assoc append_Cons append_same_eq)
    then have "visitJSONObject visit st w = try_fold (\<lambda>st (name, w). visit st name w) st ps"
      for visit :: "'s \<Rightarrow> string \<Rightarrow> string \<Rightarrow> 'e + 's" and st
      using self visit_members_skip [OF takeWhile_spaces, of visit st t u] u(3) [rule_format, of visit st "[]"] by (simp add: obj)
    then show ?thesis using u(2) Obj(6) by (auto simp: members_of_def)
  next
    case (Lit m l)
    then show ?thesis using self by (intro other) (cases w; auto simp: members_of_def)+
  next
    case (Num m l)
    then show ?thesis using self by (intro other) (cases w; auto simp: members_of_def)+
  qed
qed

lemma visitJSONArray_reads:
  assumes "denotes w v"
  shows "\<exists>ws. list_all2 (\<lambda>v w. denotes w v) (items_of v) ws \<and>
     (\<forall>(visit :: 's \<Rightarrow> string \<Rightarrow> 'e + 's) st. visitJSONArray visit st w = try_fold visit st ws)"
proof -
  obtain n r where j: "json_value n (w @ r) = Some (v, r)" and sc: "scanned w"
    using assms by (auto simp: denotes_def)
  have self: "skip_space w = w" "w \<noteq> []" using scanned_not_space [OF sc, of "[]"] scanned_head [OF sc] by simp_all
  note arr = visitJSONArray_def Let_def
  have other: ?thesis if "hd w \<noteq> CHR ''[''" "items_of v = []"
    using that self by (intro exI [of _ "[]"]) (simp add: arr)
  from j show ?thesis
  proof (cases rule: json_valueE)
    case (Str m t b)
    then show ?thesis using self by (intro other) (cases w; auto simp: items_of_def)+
  next
    case (Empty m c d t)
    show ?thesis
    proof (cases "c = CHR ''[''")
      case True
      have "w @ r = (c # takeWhile json_space t @ [d]) @ r" using Empty(2) skip_parts [OF Empty(3)] by simp
      then have w: "w = c # takeWhile json_space t @ [d]" "d = CHR '']''" "v = JArr []"
        using Empty(4) True by auto
      then have "visitJSONArray visit st w = Inr st" for visit :: "'s \<Rightarrow> string \<Rightarrow> 'e + 's" and st
        using self True empty_visit_items [OF takeWhile_spaces, of visit st t "[]"] by (simp add: arr)
      then show ?thesis using w by (intro exI [of _ "[]"]) (simp add: items_of_def)
    next
      case False
      then show ?thesis using Empty self by (intro other) (cases w; auto simp: items_of_def)+
    qed
  next
    case (Obj m t ms)
    then show ?thesis using self by (intro other) (cases w; auto simp: items_of_def)+
  next
    case (Arr m t vs)
    obtain u ws where u: "skip_space t = u @ r" "list_all2 (\<lambda>v w. denotes w v) vs ws"
      "\<forall>(visit :: 's \<Rightarrow> string \<Rightarrow> 'e + 's) st q. visit_items visit st (u @ q) = try_fold visit st ws"
      using visit_items_reads [OF Arr(5)] by blast
    have "t = takeWhile json_space t @ u @ r" using skip_split [of t] u(1) by simp
    then have "w = CHR ''['' # takeWhile json_space t @ u" using Arr(2) by (metis append_assoc append_Cons append_same_eq)
    then have "visitJSONArray visit st w = try_fold visit st ws" for visit :: "'s \<Rightarrow> string \<Rightarrow> 'e + 's" and st
      using self visit_items_skip [OF takeWhile_spaces, of visit st t u] u(3) [rule_format, of visit st "[]"] by (simp add: arr)
    then show ?thesis using u(2) Arr(6) by (auto simp: items_of_def)
  next
    case (Lit m l)
    then show ?thesis using self by (intro other) (cases w; auto simp: items_of_def)+
  next
    case (Num m l)
    then show ?thesis using self by (intro other) (cases w; auto simp: items_of_def)+
  qed
qed

section \<open>The schema of the parsed document\<close>

definition object_known :: "snapshotSchema \<Rightarrow> json \<Rightarrow> bool" where
  "object_known schema v \<longleftrightarrow> (\<forall>m \<in> set (members_of v). snapshotFieldAllowed schema (fst m))"

definition member_known :: "string \<times> json \<Rightarrow> bool" where
  "member_known m = (case m of (k, v) \<Rightarrow>
     if k = ''chunks'' then \<forall>item \<in> set (items_of v). object_known SnapshotChunk item
     else if k = ''pre_scan_ping'' then object_known SnapshotPreScan v
     else if k = ''output'' then object_known SnapshotOutput v
     else if k = ''target_expansion'' then object_known SnapshotExpansion v
     else k \<in> set [''rich_deny_excluded'', ''target_semantics_version'', ''basic_port_fallback''])"

definition document_shape :: "(string \<times> json) list \<Rightarrow> snapshotSchemaShape" where
  "document_shape ms =
     \<lparr>preScanPresent = (''pre_scan_ping'' \<in> fst ` set ms), chunksPresent = (''chunks'' \<in> fst ` set ms),
      chunkCount = (case map_of (rev ms) ''chunks'' of None \<Rightarrow> 0 | Some v \<Rightarrow> length (items_of v))\<rparr>"

lemma same_name_eq: "same_name n k \<Longrightarrow> ascii a \<Longrightarrow> n = a \<longleftrightarrow> k = a"
  by (simp add: same_name_def)

lemma schema_names_ascii:
  "list_all ascii [''chunks'', ''pre_scan_ping'', ''output'', ''target_expansion'', ''rich_deny_excluded'',
     ''target_semantics_version'', ''basic_port_fallback'', ''cidr'', ''cidr_name'', ''ports'', ''next_index'',
     ''scanned_count'', ''total_count'', ''status'', ''enabled'', ''timeout_ms'', ''unreachable_ipv4_u32'',
     ''scan_path'', ''open_path'', ''candidate_count'', ''candidate_limit'', ''memory_limit_gb'']"
  by (simp add: ascii_def)

lemma same_name_allowed: "same_name n k \<Longrightarrow> snapshotFieldAllowed schema n \<longleftrightarrow> snapshotFieldAllowed schema k"
  using schema_names_ascii by (cases schema) (simp_all add: same_name_eq)

lemma trim_space_ends:
  assumes "w \<noteq> []" and "is_print (hd w)" and "is_print (last w)"
  shows "trim_space w = w"
proof -
  have strip: "strip_front ps s = s" if "\<forall>p \<in> set ps. p \<noteq> [] \<and> \<not> is_print (hd p)" "is_print (hd s)" "s \<noteq> []" for ps s
  proof -
    have "strip_seq ps s = None" using that
    proof (induction ps)
      case (Cons p ps)
      moreover from Cons.prems have "\<not> prefix p s" by (cases p; cases s) auto
      ultimately show ?case by simp
    qed simp
    then show ?thesis by (cases "length s") (simp_all add: strip_front_def)
  qed
  have "strip_front space_seqs w = w" by (rule strip [OF space_seqs_not_print(1) assms(2,1)])
  moreover have "strip_front (map rev space_seqs) (rev w) = rev w"
    using assms by (intro strip [OF space_seqs_not_print(2)]) (simp_all add: hd_rev)
  ultimately show ?thesis by (simp add: trim_space_def)
qed

definition accepted :: "'e + 'a \<Rightarrow> 'a option" where
  "accepted r = (case r of Inl e \<Rightarrow> None | Inr a \<Rightarrow> Some a)"

lemma accepted_simps [simp]: "accepted (Inl e) = None" "accepted (Inr a) = Some a"
  by (simp_all add: accepted_def)

lemma accepted_bind: "accepted (try_bind r f) = Option.bind (accepted r) (\<lambda>a. accepted (f a))"
  by (cases r) simp_all

lemma accepted_object_fold:
  "list_all2 member_read ms ps \<Longrightarrow>
   accepted (try_fold (\<lambda>_ (name, _). if snapshotFieldAllowed schema name then Inr () else Inl (UnknownField name)) () ps) =
   (if \<forall>m \<in> set ms. snapshotFieldAllowed schema (fst m) then Some () else None)"
proof (induction ms ps rule: list_all2_induct)
  case (Cons m ms p ps)
  then have "snapshotFieldAllowed schema (fst p) \<longleftrightarrow> snapshotFieldAllowed schema (fst m)"
    by (intro same_name_allowed) (simp add: member_read_def)
  then show ?case using Cons by (cases p) auto
qed simp

lemma accepted_validateSnapshotObject:
  assumes "denotes w v"
  shows "accepted (validateSnapshotObject w schema) = (if object_known schema v then Some () else None)"
proof -
  have sc: "scanned w" using assms by (simp add: denotes_def)
  then have trim: "trim_space w = w" by (intro trim_space_ends) (simp_all add: scanned_def)
  obtain ps where ps: "list_all2 member_read (members_of v) ps"
    "\<forall>(visit :: unit \<Rightarrow> string \<Rightarrow> string \<Rightarrow> schema_error + unit) st.
       visitJSONObject visit st w = try_fold (\<lambda>st (name, w). visit st name w) st ps"
    using visitJSONObject_reads [OF assms] by blast
  have "accepted (visitJSONObject (\<lambda>_ name _. if snapshotFieldAllowed schema name then Inr () else Inl (UnknownField name)) () w) =
      (if object_known schema v then Some () else None)"
    using accepted_object_fold [OF ps(1), of schema] by (simp add: ps(2) object_known_def)
  moreover have "members_of v = []" if "w = ''null''"
  proof -
    have "visitJSONObject (\<lambda>_ _ _. Inl (UnknownField [])) () w = Inr ()"
      using that by (simp add: visitJSONObject_def json_space_def)
    then have "ps = []" using ps(2) by (cases ps) auto
    then show ?thesis using ps(1) by simp
  qed
  ultimately show ?thesis by (auto simp: validateSnapshotObject_def trim Let_def object_known_def)
qed

lemma accepted_items:
  "list_all2 (\<lambda>v w. denotes w v) vs ws \<Longrightarrow>
   accepted (try_fold (\<lambda>n item. try_bind (validateSnapshotObject item SnapshotChunk) (\<lambda>_. Inr (n + 1))) n ws) =
   (if \<forall>v \<in> set vs. object_known SnapshotChunk v then Some (n + length vs) else None)"
proof (induction vs ws arbitrary: n rule: list_all2_induct)
  case (Cons v vs w ws)
  then show ?case by (simp add: accepted_bind accepted_validateSnapshotObject del: One_nat_def)
qed simp

lemma accepted_schema_visit:
  assumes "same_name n k" and "denotes w v"
  shows "accepted (schema_visit sh n w) = (if member_known (k, v) then
     Some (if k = ''chunks'' then sh\<lparr>chunksPresent := True, chunkCount := length (items_of v)\<rparr>
           else if k = ''pre_scan_ping'' then sh\<lparr>preScanPresent := True\<rparr> else sh) else None)"
proof -
  obtain ws where ws: "list_all2 (\<lambda>v w. denotes w v) (items_of v) ws"
    "\<forall>(visit :: nat \<Rightarrow> string \<Rightarrow> schema_error + nat) st. visitJSONArray visit st w = try_fold visit st ws"
    using visitJSONArray_reads [OF assms(2)] by blast
  show ?thesis
    using schema_names_ascii
    by (simp add: schema_visit_def member_known_def same_name_eq [OF assms(1)] accepted_bind
        accepted_validateSnapshotObject [OF assms(2)] ws(2) accepted_items [OF ws(1), of 0, simplified])
qed

definition shape_step :: "string \<times> json \<Rightarrow> snapshotSchemaShape \<Rightarrow> snapshotSchemaShape" where
  "shape_step m sh = (case m of (k, v) \<Rightarrow>
     if k = ''chunks'' then sh\<lparr>chunksPresent := True, chunkCount := length (items_of v)\<rparr>
     else if k = ''pre_scan_ping'' then sh\<lparr>preScanPresent := True\<rparr> else sh)"

lemma accepted_members:
  "list_all2 member_read ms ps \<Longrightarrow>
   accepted (try_fold (\<lambda>st (name, w). schema_visit st name w) sh ps) =
   (if \<forall>m \<in> set ms. member_known m then Some (fold shape_step ms sh) else None)"
proof (induction ms ps arbitrary: sh rule: list_all2_induct)
  case (Cons m ms p ps)
  obtain k v where m: "m = (k, v)" by (cases m)
  obtain n w where p: "p = (n, w)" by (cases p)
  have "same_name n k" "denotes w v" using Cons(1) by (simp_all add: member_read_def m p)
  from accepted_schema_visit [OF this, of sh]
  have "accepted (schema_visit sh n w) = (if member_known (k, v) then Some (shape_step (k, v) sh) else None)"
    by (simp add: shape_step_def)
  then show ?case using Cons.IH by (simp add: m p accepted_bind)
qed simp

lemma fold_shape_step:
  "fold shape_step ms \<lparr>preScanPresent = False, chunksPresent = False, chunkCount = 0\<rparr> = document_shape ms"
proof (induction ms rule: rev_induct)
  case (snoc m ms)
  obtain k v where m: "m = (k, v)" by (cases m)
  have "fold shape_step (ms @ [m]) \<lparr>preScanPresent = False, chunksPresent = False, chunkCount = 0\<rparr> =
      shape_step m (document_shape ms)" by (simp add: snoc)
  also have "\<dots> = document_shape (ms @ [m])" by (simp add: m shape_step_def document_shape_def)
  finally show ?case .
qed (simp add: document_shape_def)

lemma schema_scan_document:
  assumes "json_text s = Some (JObj ms)"
  shows "accepted (validateSnapshotSchema s) = (if \<forall>m \<in> set ms. member_known m then Some (document_shape ms) else None)"
proof -
  obtain r where j: "json_value (2 * length s + 1) (skip_space s) = Some (JObj ms, r)"
    using assms by (auto simp: json_text_def split: option.splits prod.splits if_splits)
  obtain w where w: "skip_space s = w @ r" "denotes w (JObj ms)" using json_value_denotes [OF j] by blast
  from j obtain m t where t: "skip_space s = CHR ''{'' # t"
    "json_members m (skip_space t) = Some (ms, r) \<or> skip_space t = CHR ''}'' # r \<and> ms = []"
    by (cases rule: json_valueE) auto
  show ?thesis
  proof (cases "skip_space t = CHR ''}'' # r \<and> ms = []")
    case True
    have "visit_members visit st t = Inr st" for visit :: "snapshotSchemaShape \<Rightarrow> string \<Rightarrow> string \<Rightarrow> schema_error + snapshotSchemaShape" and st
      using empty_visits [OF takeWhile_spaces, of visit st t r] skip_parts [of t "CHR ''}''" r] True by simp
    then show ?thesis
      using t(1) True fold_shape_step [of "[]"] by (simp add: validateSnapshotSchema_def visitJSONObject_def)
  next
    case False
    then have "json_members m (skip_space t) = Some (ms, r)" using t(2) by blast
    then obtain u ps where u: "skip_space t = u @ r" "list_all2 member_read ms ps"
      "\<forall>(visit :: snapshotSchemaShape \<Rightarrow> string \<Rightarrow> string \<Rightarrow> schema_error + snapshotSchemaShape) st q.
         visit_members visit st (u @ q) = try_fold (\<lambda>st (name, w). visit st name w) st ps"
      using visit_members_reads by blast
    have "visit_members visit st t = try_fold (\<lambda>st (name, w). visit st name w) st ps"
      for visit :: "snapshotSchemaShape \<Rightarrow> string \<Rightarrow> string \<Rightarrow> schema_error + snapshotSchemaShape" and st
      using visit_members_skip [OF takeWhile_spaces, of visit st t "u @ r"] skip_split [of t] u(1,3) by simp
    then show ?thesis
      using t(1) accepted_members [OF u(2)] by (simp add: validateSnapshotSchema_def visitJSONObject_def fold_shape_step)
  qed
qed

text \<open>Property C12. On every well-formed JSON object the byte scan for unknown fields gives the same
  verdict as a check of the parsed document: it refuses a snapshot exactly when a field of the
  envelope, of a chunk or of a nested section is unknown, and otherwise reports which sections
  are present and the number of items of the last \<open>chunks\<close> array, for any spacing, order,
  escaping, nesting or repetition of fields.\<close>

theorem schema_scan_exact:
  assumes "json_text s = Some (JObj ms)"
  shows "accepted (validateSnapshotSchema s) = (if \<forall>m \<in> set ms. member_known m then Some (document_shape ms) else None)"
  by (rule schema_scan_document [OF assms])

definition sample_snapshot_text :: string where
  "sample_snapshot_text = ''{ '' @ json_quote ''chunks'' @ '' : [ {'' @ json_quote ''cidr'' @ '' : '' @ json_quote ''}{,]'' @
     ''} , null ] , '' @ json_quote ''output'' @ '':null}''"

theorem schema_scan_exact_witness:
  "\<exists>ms. json_text sample_snapshot_text = Some (JObj ms) \<and>
    accepted (validateSnapshotSchema sample_snapshot_text) = Some \<lparr>preScanPresent = False, chunksPresent = True, chunkCount = 2\<rparr>"
proof -
  have parsed: "json_text sample_snapshot_text =
      Some (JObj [(''chunks'', JArr [JObj [(''cidr'', JStr ''}{,]'')], JNull]), (''output'', JNull)])"
    by code_simp
  have "accepted (validateSnapshotSchema sample_snapshot_text) = Some \<lparr>preScanPresent = False, chunksPresent = True, chunkCount = 2\<rparr>"
    using schema_scan_exact [OF parsed]
    by (simp add: member_known_def object_known_def document_shape_def items_of_def members_of_def)
  then show ?thesis using parsed by blast
qed

end
