(* ===== verification/SnapshotCodec.thy ===== *)
theory SnapshotCodec
  imports SnapshotSchema TaskExpand
begin

text \<open>
  \<open>pkg/state/snapshot\_encode.go\<close> and the reading half of \<open>state.go\<close>: the resume snapshot as JSON.

  A slice is a list; whether an empty \<open>Ports\<close> slice is nil only shows in the text (\<open>null\<close> or
  \<open>[]\<close>), so the encoder takes it as a parameter (\<open>nil\_ports\<close>). The slice \<open>Chunks\<close> is an option, since
  a nil one is written as \<open>null\<close> and refused on reading. \<open>json.Unmarshal\<close> into a struct sets the
  fields in the order of the text, a repeated field over the value it already has.
\<close>

section \<open>The snapshot\<close>

record SnapshotLimits =
  MaxBytes :: int
  MaxChunks :: int
  MaxPortEntries :: int
  MaxUnreachableIPs :: int

definition DefaultSnapshotLimits :: SnapshotLimits where
  "DefaultSnapshotLimits =
     \<lparr>MaxBytes = 2000000000, MaxChunks = 10000000, MaxPortEntries = 10000000, MaxUnreachableIPs = 10000000\<rparr>"

record PreScanPingState =
  ps_Enabled :: bool
  ps_TimeoutMS :: int
  ps_UnreachableIPv4U32 :: "32 word list"

record OutputState =
  ScanPath :: string
  OpenPath :: string

record TargetExpansionState =
  te_CandidateCount :: int
  te_CandidateLimit :: int
  te_MemoryLimitGB :: int

record Snapshot =
  sn_Chunks :: "Chunk list option"
  sn_PreScanPing :: PreScanPingState
  sn_Output :: "OutputState option"
  sn_RichDenyExcluded :: bool
  sn_TargetExpansion :: "TargetExpansionState option"
  sn_TargetSemanticsVersion :: int
  sn_BasicPortFallback :: "string list"

record preScanPingEnvelope =
  pe_Enabled :: "bool option"
  pe_TimeoutMS :: "int option"
  pe_UnreachableIPv4U32 :: "32 word list"

record snapshotEnvelope =
  env_Chunks :: "Chunk list option"
  env_PreScanPing :: "preScanPingEnvelope option"
  env_Output :: "OutputState option"
  env_RichDenyExcluded :: bool
  env_TargetExpansion :: "TargetExpansionState option"
  env_TargetSemanticsVersion :: int
  env_BasicPortFallback :: "string list"

definition hasPreScanPingState :: "PreScanPingState \<Rightarrow> bool" where
  "hasPreScanPingState st \<longleftrightarrow> ps_Enabled st \<or> ps_TimeoutMS st \<noteq> 0 \<or> 0 < length (ps_UnreachableIPv4U32 st)"

definition snapshotEnvelopeFromSnapshot :: "Snapshot \<Rightarrow> snapshotEnvelope" where
  "snapshotEnvelopeFromSnapshot snap =
     \<lparr>env_Chunks = sn_Chunks snap,
      env_PreScanPing = (let p = sn_PreScanPing snap in
        if hasPreScanPingState p then
          Some \<lparr>pe_Enabled = Some (ps_Enabled p), pe_TimeoutMS = Some (ps_TimeoutMS p),
                pe_UnreachableIPv4U32 = ps_UnreachableIPv4U32 p\<rparr>
        else None),
      env_Output = sn_Output snap, env_RichDenyExcluded = sn_RichDenyExcluded snap,
      env_TargetExpansion = sn_TargetExpansion snap,
      env_TargetSemanticsVersion = sn_TargetSemanticsVersion snap,
      env_BasicPortFallback = sn_BasicPortFallback snap\<rparr>"

section \<open>Writing\<close>

abbreviation newline :: char where
  "newline \<equiv> CHR 0x0A"

definition line :: "nat \<Rightarrow> string" where
  "line n = newline # replicate n (CHR '' '')"

definition named :: "string \<Rightarrow> string" where
  "named k = quote # k @ quote # '': ''"

definition stringArray :: "string \<Rightarrow> string list option \<Rightarrow> nat \<Rightarrow> string" where
  "stringArray start vals indentation = start @
     (case vals of None \<Rightarrow> ''null''
      | Some [] \<Rightarrow> ''[]''
      | Some (v # vs) \<Rightarrow> ''['' @ line indentation @ json_quote v @
          concat (map (\<lambda>v. '','' @ line indentation @ json_quote v) vs) @ line (indentation - 2) @ '']'')"

definition encode_chunk :: "(Chunk \<Rightarrow> bool) \<Rightarrow> Chunk \<Rightarrow> string" where
  "encode_chunk nil_ports ch =
     line 4 @ ''{'' @ line 6 @ named ''cidr'' @ json_quote (chunkCIDR ch) @
     '','' @ line 6 @ named ''cidr_name'' @ json_quote (chunkCIDRName ch) @
     stringArray ('','' @ line 6 @ named ''ports'') (if Ports ch = [] \<and> nil_ports ch then None else Some (Ports ch)) 8 @
     '','' @ line 6 @ named ''next_index'' @ itoa (NextIndex ch) @
     '','' @ line 6 @ named ''scanned_count'' @ itoa (ScannedCount ch) @
     '','' @ line 6 @ named ''total_count'' @ itoa (TotalCount ch) @
     '','' @ line 6 @ named ''status'' @ json_quote (Status ch) @ line 4 @ ''}''"

definition encode_chunks :: "(Chunk \<Rightarrow> bool) \<Rightarrow> Chunk list option \<Rightarrow> string" where
  "encode_chunks nil_ports chunks = (case chunks of None \<Rightarrow> ''null''
     | Some [] \<Rightarrow> ''[]''
     | Some (ch # chs) \<Rightarrow> ''['' @ encode_chunk nil_ports ch @
         concat (map (\<lambda>ch. '','' @ encode_chunk nil_ports ch) chs) @ line 2 @ '']'')"

definition format_bool :: "bool \<Rightarrow> string" where
  "format_bool b = (if b then ''true'' else ''false'')"

definition encode_preScanPing :: "preScanPingEnvelope \<Rightarrow> string" where
  "encode_preScanPing st =
     '','' @ line 2 @ named ''pre_scan_ping'' @ ''{'' @ line 4 @ named ''enabled'' @ format_bool (the (pe_Enabled st)) @
     '','' @ line 4 @ named ''timeout_ms'' @ itoa (the (pe_TimeoutMS st)) @
     (case pe_UnreachableIPv4U32 st of [] \<Rightarrow> []
      | v # vs \<Rightarrow> '','' @ line 4 @ named ''unreachable_ipv4_u32'' @ ''['' @ line 6 @ itoa (uint v) @
          concat (map (\<lambda>v. '','' @ line 6 @ itoa (uint v)) vs) @ line 4 @ '']'') @
     line 2 @ ''}''"

definition encode_output :: "OutputState \<Rightarrow> string" where
  "encode_output out =
     '','' @ line 2 @ named ''output'' @ ''{'' @ line 4 @ named ''scan_path'' @ json_quote (ScanPath out) @
     '','' @ line 4 @ named ''open_path'' @ json_quote (OpenPath out) @ line 2 @ ''}''"

definition encode_targetExpansion :: "TargetExpansionState \<Rightarrow> string" where
  "encode_targetExpansion e =
     '','' @ line 2 @ named ''target_expansion'' @ ''{'' @ line 4 @ named ''candidate_count'' @ itoa (te_CandidateCount e) @
     '','' @ line 4 @ named ''candidate_limit'' @ itoa (te_CandidateLimit e) @
     '','' @ line 4 @ named ''memory_limit_gb'' @ itoa (te_MemoryLimitGB e) @ line 2 @ ''}''"

definition encodeSnapshot :: "(Chunk \<Rightarrow> bool) \<Rightarrow> snapshotEnvelope \<Rightarrow> string" where
  "encodeSnapshot nil_ports env =
     ''{'' @ line 2 @ named ''chunks'' @ encode_chunks nil_ports (env_Chunks env) @
     (case env_PreScanPing env of None \<Rightarrow> [] | Some p \<Rightarrow> encode_preScanPing p) @
     (case env_Output env of None \<Rightarrow> [] | Some out \<Rightarrow> encode_output out) @
     (if env_RichDenyExcluded env then '','' @ line 2 @ named ''rich_deny_excluded'' @ ''true'' else []) @
     (case env_TargetExpansion env of None \<Rightarrow> [] | Some e \<Rightarrow> encode_targetExpansion e) @
     (if env_TargetSemanticsVersion env \<noteq> 0
      then '','' @ line 2 @ named ''target_semantics_version'' @ itoa (env_TargetSemanticsVersion env) else []) @
     (if 0 < length (env_BasicPortFallback env)
      then stringArray ('','' @ line 2 @ named ''basic_port_fallback'') (Some (env_BasicPortFallback env)) 4 else []) @
     line 0 @ ''}''"

section \<open>Limits\<close>

datatype limit_kind = SerializedBytes | InputBytes | LimitChunks | LimitPortEntries | LimitUnreachable

datatype load_error =
    SizeUnfit int
  | OverLimit limit_kind int int
  | PortEntriesOverflow
  | SizeChanged
  | EmptyInput
  | BadSchema schema_error
  | DecodeFailed
  | TrailingContent
  | MissingChunks
  | MissingEnabled
  | MissingTimeout
  | BadRoot char

definition port_limit_step :: "int \<Rightarrow> int \<Rightarrow> Chunk \<Rightarrow> load_error + int" where
  "port_limit_step limit portCount ch =
     (let entryCount = int (length (Ports ch)) in
      if portCount > (2 ^ 64 - 1) - entryCount then Inl PortEntriesOverflow
      else if limit > 0 \<and> portCount + entryCount > limit then Inl (OverLimit LimitPortEntries (portCount + entryCount) limit)
      else Inr (portCount + entryCount))"

definition validateSnapshotLimits :: "Snapshot \<Rightarrow> SnapshotLimits \<Rightarrow> load_error + unit" where
  "validateSnapshotLimits snap limits =
     (let chunks = (case sn_Chunks snap of None \<Rightarrow> [] | Some cs \<Rightarrow> cs);
          chunk_count = int (length chunks);
          unreachable = int (length (ps_UnreachableIPv4U32 (sn_PreScanPing snap))) in
      if MaxChunks limits > 0 \<and> chunk_count > MaxChunks limits
      then Inl (OverLimit LimitChunks chunk_count (MaxChunks limits))
      else try_bind (try_fold (port_limit_step (MaxPortEntries limits)) 0 chunks) (\<lambda>_.
        if MaxUnreachableIPs limits > 0 \<and> unreachable > MaxUnreachableIPs limits
        then Inl (OverLimit LimitUnreachable unreachable (MaxUnreachableIPs limits)) else Inr ()))"

definition unreachableCapacityHint :: "int \<Rightarrow> int \<Rightarrow> int" where
  "unreachableCapacityHint byteHint countHintLimit =
     (let hint = byteHint div 6;
          hint = (if countHintLimit > 0 \<and> hint > countHintLimit then countHintLimit else hint) in
      if hint > 2 ^ 63 - 1 then 2 ^ 63 - 1 else hint)"

section \<open>Decoding\<close>

text \<open>One field over the value it has; \<open>null\<close> leaves a value that is no pointer, slice or map.\<close>

definition dec_string :: "string \<Rightarrow> json \<Rightarrow> string option" where
  "dec_string old v = (case v of JStr s \<Rightarrow> Some s | JNull \<Rightarrow> Some old | _ \<Rightarrow> None)"

definition dec_int :: "int \<Rightarrow> json \<Rightarrow> int option" where
  "dec_int old v = (case v of JNum t \<Rightarrow> atoi t | JNull \<Rightarrow> Some old | _ \<Rightarrow> None)"

definition dec_uint :: "nat \<Rightarrow> int \<Rightarrow> json \<Rightarrow> int option" where
  "dec_uint width old v = (case v of
       JNum t \<Rightarrow> (case digits_value t of Some n \<Rightarrow> if int n < 2 ^ width then Some (int n) else None | None \<Rightarrow> None)
     | JNull \<Rightarrow> Some old | _ \<Rightarrow> None)"

definition dec_bool :: "bool \<Rightarrow> json \<Rightarrow> bool option" where
  "dec_bool old v = (case v of JBool b \<Rightarrow> Some b | JNull \<Rightarrow> Some old | _ \<Rightarrow> None)"

text \<open>A pointer: \<open>null\<close> makes it nil, anything else is decoded into what it points to.\<close>

definition dec_pointer :: "('a \<Rightarrow> json \<Rightarrow> 'a option) \<Rightarrow> 'a \<Rightarrow> 'a option \<Rightarrow> json \<Rightarrow> 'a option option" where
  "dec_pointer dec zero old v =
     (if v = JNull then Some None
      else map_option Some (dec (case old of None \<Rightarrow> zero | Some a \<Rightarrow> a) v))"

text \<open>A slice: element \<open>i\<close> is decoded over the element the slice has at \<open>i\<close>.\<close>

primrec dec_elems :: "('a \<Rightarrow> json \<Rightarrow> 'a option) \<Rightarrow> 'a \<Rightarrow> 'a list \<Rightarrow> json list \<Rightarrow> 'a list option" where
  "dec_elems dec zero old [] = Some []"
| "dec_elems dec zero old (v # vs) =
     (case dec (case old of [] \<Rightarrow> zero | a # _ \<Rightarrow> a) v of None \<Rightarrow> None
      | Some b \<Rightarrow> map_option ((#) b) (dec_elems dec zero (tl old) vs))"

definition dec_slice :: "('a \<Rightarrow> json \<Rightarrow> 'a option) \<Rightarrow> 'a \<Rightarrow> 'a list \<Rightarrow> json \<Rightarrow> 'a list option" where
  "dec_slice dec zero old v = (case v of JArr vs \<Rightarrow> dec_elems dec zero old vs | JNull \<Rightarrow> Some [] | _ \<Rightarrow> None)"

text \<open>The field a name stands for: by its exact name, else by its folded name.\<close>

definition field_of :: "string list \<Rightarrow> string \<Rightarrow> string option" where
  "field_of names k = (if k \<in> set names then Some k else find (\<lambda>f. equal_fold k f) names)"

primrec dec_fields :: "(string \<Rightarrow> json \<Rightarrow> 's \<Rightarrow> 's option) \<Rightarrow> string list \<Rightarrow> bool \<Rightarrow> (string \<times> json) list \<Rightarrow> 's \<Rightarrow> 's option" where
  "dec_fields set_field names strict [] st = Some st"
| "dec_fields set_field names strict (m # ms) st =
     (case field_of names (fst m) of
        None \<Rightarrow> if strict then None else dec_fields set_field names strict ms st
      | Some f \<Rightarrow> (case set_field f (snd m) st of None \<Rightarrow> None | Some st' \<Rightarrow> dec_fields set_field names strict ms st'))"

definition dec_struct :: "(string \<Rightarrow> json \<Rightarrow> 's \<Rightarrow> 's option) \<Rightarrow> string list \<Rightarrow> bool \<Rightarrow> 's \<Rightarrow> json \<Rightarrow> 's option" where
  "dec_struct set_field names strict st v =
     (case v of JObj ms \<Rightarrow> dec_fields set_field names strict ms st | JNull \<Rightarrow> Some st | _ \<Rightarrow> None)"

definition zero_chunk :: Chunk where
  "zero_chunk = \<lparr>chunkCIDR = [], chunkCIDRName = [], Ports = [], NextIndex = 0, ScannedCount = 0, TotalCount = 0, Status = []\<rparr>"

definition set_chunk_field :: "string \<Rightarrow> json \<Rightarrow> Chunk \<Rightarrow> Chunk option" where
  "set_chunk_field f v ch =
     (if f = ''cidr'' then map_option (\<lambda>x. ch\<lparr>chunkCIDR := x\<rparr>) (dec_string (chunkCIDR ch) v)
      else if f = ''cidr_name'' then map_option (\<lambda>x. ch\<lparr>chunkCIDRName := x\<rparr>) (dec_string (chunkCIDRName ch) v)
      else if f = ''ports'' then map_option (\<lambda>x. ch\<lparr>Ports := x\<rparr>) (dec_slice dec_string [] (Ports ch) v)
      else if f = ''next_index'' then map_option (\<lambda>x. ch\<lparr>NextIndex := x\<rparr>) (dec_int (NextIndex ch) v)
      else if f = ''scanned_count'' then map_option (\<lambda>x. ch\<lparr>ScannedCount := x\<rparr>) (dec_int (ScannedCount ch) v)
      else if f = ''total_count'' then map_option (\<lambda>x. ch\<lparr>TotalCount := x\<rparr>) (dec_int (TotalCount ch) v)
      else map_option (\<lambda>x. ch\<lparr>Status := x\<rparr>) (dec_string (Status ch) v))"

definition chunk_fields :: "string list" where
  "chunk_fields = [''cidr'', ''cidr_name'', ''ports'', ''next_index'', ''scanned_count'', ''total_count'', ''status'']"

definition dec_chunk :: "bool \<Rightarrow> Chunk \<Rightarrow> json \<Rightarrow> Chunk option" where
  "dec_chunk strict = dec_struct set_chunk_field chunk_fields strict"

definition set_prescan_field :: "string \<Rightarrow> json \<Rightarrow> preScanPingEnvelope \<Rightarrow> preScanPingEnvelope option" where
  "set_prescan_field f v p =
     (if f = ''enabled'' then map_option (\<lambda>x. p\<lparr>pe_Enabled := x\<rparr>) (dec_pointer dec_bool False (pe_Enabled p) v)
      else if f = ''timeout_ms'' then map_option (\<lambda>x. p\<lparr>pe_TimeoutMS := x\<rparr>) (dec_pointer dec_int 0 (pe_TimeoutMS p) v)
      else map_option (\<lambda>x. p\<lparr>pe_UnreachableIPv4U32 := x\<rparr>)
        (dec_slice (\<lambda>old v. map_option word_of_int (dec_uint 32 (uint old) v)) 0 (pe_UnreachableIPv4U32 p) v))"

definition set_output_field :: "string \<Rightarrow> json \<Rightarrow> OutputState \<Rightarrow> OutputState option" where
  "set_output_field f v out =
     (if f = ''scan_path'' then map_option (\<lambda>x. out\<lparr>ScanPath := x\<rparr>) (dec_string (ScanPath out) v)
      else map_option (\<lambda>x. out\<lparr>OpenPath := x\<rparr>) (dec_string (OpenPath out) v))"

definition set_expansion_field :: "string \<Rightarrow> json \<Rightarrow> TargetExpansionState \<Rightarrow> TargetExpansionState option" where
  "set_expansion_field f v e =
     (if f = ''candidate_count'' then map_option (\<lambda>x. e\<lparr>te_CandidateCount := x\<rparr>) (dec_uint 64 (te_CandidateCount e) v)
      else if f = ''candidate_limit'' then map_option (\<lambda>x. e\<lparr>te_CandidateLimit := x\<rparr>) (dec_int (te_CandidateLimit e) v)
      else map_option (\<lambda>x. e\<lparr>te_MemoryLimitGB := x\<rparr>) (dec_int (te_MemoryLimitGB e) v))"

definition empty_prescan :: preScanPingEnvelope where
  "empty_prescan = \<lparr>pe_Enabled = None, pe_TimeoutMS = None, pe_UnreachableIPv4U32 = []\<rparr>"

definition set_snapshot_field :: "string \<Rightarrow> json \<Rightarrow> snapshotEnvelope \<Rightarrow> snapshotEnvelope option" where
  "set_snapshot_field f v env =
     (if f = ''chunks'' then map_option (\<lambda>x. env\<lparr>env_Chunks := x\<rparr>)
        (dec_pointer (dec_slice (dec_chunk False) zero_chunk) [] (env_Chunks env) v)
      else if f = ''pre_scan_ping'' then map_option (\<lambda>x. env\<lparr>env_PreScanPing := x\<rparr>)
        (dec_pointer (dec_struct set_prescan_field [''enabled'', ''timeout_ms'', ''unreachable_ipv4_u32''] False)
          empty_prescan (env_PreScanPing env) v)
      else if f = ''output'' then map_option (\<lambda>x. env\<lparr>env_Output := x\<rparr>)
        (dec_pointer (dec_struct set_output_field [''scan_path'', ''open_path''] False)
          \<lparr>ScanPath = [], OpenPath = []\<rparr> (env_Output env) v)
      else if f = ''rich_deny_excluded'' then map_option (\<lambda>x. env\<lparr>env_RichDenyExcluded := x\<rparr>) (dec_bool (env_RichDenyExcluded env) v)
      else if f = ''target_expansion'' then map_option (\<lambda>x. env\<lparr>env_TargetExpansion := x\<rparr>)
        (dec_pointer (dec_struct set_expansion_field [''candidate_count'', ''candidate_limit'', ''memory_limit_gb''] False)
          \<lparr>te_CandidateCount = 0, te_CandidateLimit = 0, te_MemoryLimitGB = 0\<rparr> (env_TargetExpansion env) v)
      else if f = ''target_semantics_version'' then
        map_option (\<lambda>x. env\<lparr>env_TargetSemanticsVersion := x\<rparr>) (dec_int (env_TargetSemanticsVersion env) v)
      else map_option (\<lambda>x. env\<lparr>env_BasicPortFallback := x\<rparr>) (dec_slice dec_string [] (env_BasicPortFallback env) v))"

definition snapshot_fields :: "string list" where
  "snapshot_fields = [''chunks'', ''pre_scan_ping'', ''output'', ''rich_deny_excluded'', ''target_expansion'',
     ''target_semantics_version'', ''basic_port_fallback'']"

definition dec_snapshot :: "snapshotEnvelope \<Rightarrow> json \<Rightarrow> snapshotEnvelope option" where
  "dec_snapshot = dec_struct set_snapshot_field snapshot_fields False"

section \<open>LoadSnapshotWithLimits\<close>

definition no_prescan :: PreScanPingState where
  "no_prescan = \<lparr>ps_Enabled = False, ps_TimeoutMS = 0, ps_UnreachableIPv4U32 = []\<rparr>"

text \<open>The legacy form: an array of chunks\<close>

definition load_chunk_array :: "string \<Rightarrow> SnapshotLimits \<Rightarrow> load_error + Snapshot" where
  "load_chunk_array trimmed limits =
     (case json_value (2 * length trimmed + 1) trimmed of
        None \<Rightarrow> Inl DecodeFailed
      | Some (v, r) \<Rightarrow> (case dec_slice (dec_chunk True) zero_chunk [] v of
          None \<Rightarrow> Inl DecodeFailed
        | Some chunks \<Rightarrow>
            if skip_space r \<noteq> [] then Inl TrailingContent
            else
              let snap = \<lparr>sn_Chunks = Some chunks, sn_PreScanPing = no_prescan, sn_Output = None, sn_RichDenyExcluded = False,
                    sn_TargetExpansion = None, sn_TargetSemanticsVersion = 0, sn_BasicPortFallback = []\<rparr>
              in try_bind (validateSnapshotLimits snap limits) (\<lambda>_. Inr snap)))"

definition prescan_of :: "preScanPingEnvelope option \<Rightarrow> load_error + PreScanPingState" where
  "prescan_of p = (case p of None \<Rightarrow> Inr no_prescan
     | Some p \<Rightarrow> (case pe_Enabled p of None \<Rightarrow> Inl MissingEnabled
       | Some enabled \<Rightarrow> (case pe_TimeoutMS p of None \<Rightarrow> Inl MissingTimeout
         | Some timeout \<Rightarrow> Inr \<lparr>ps_Enabled = enabled, ps_TimeoutMS = timeout,
             ps_UnreachableIPv4U32 = pe_UnreachableIPv4U32 p\<rparr>)))"

definition initial_envelope :: "snapshotSchemaShape \<Rightarrow> snapshotEnvelope" where
  "initial_envelope shape =
     \<lparr>env_Chunks = (if chunksPresent shape then Some [] else None), env_PreScanPing = Some empty_prescan, env_Output = None,
      env_RichDenyExcluded = False, env_TargetExpansion = None, env_TargetSemanticsVersion = 0, env_BasicPortFallback = []\<rparr>"

definition load_envelope :: "string \<Rightarrow> SnapshotLimits \<Rightarrow> load_error + Snapshot" where
  "load_envelope trimmed limits =
     (case validateSnapshotSchema trimmed of Inl e \<Rightarrow> Inl (BadSchema e)
      | Inr shape \<Rightarrow>
        if MaxChunks limits > 0 \<and> int (chunkCount shape) > MaxChunks limits
        then Inl (OverLimit LimitChunks (int (chunkCount shape)) (MaxChunks limits))
        else (case Option.bind (json_text trimmed) (dec_snapshot (initial_envelope shape)) of
            None \<Rightarrow> Inl DecodeFailed
          | Some env0 \<Rightarrow>
            let env = (if preScanPresent shape then env0 else env0\<lparr>env_PreScanPing := None\<rparr>) in
            (case env_Chunks env of None \<Rightarrow> Inl MissingChunks
             | Some chunks \<Rightarrow> try_bind (prescan_of (env_PreScanPing env)) (\<lambda>prescan.
                 let snap = \<lparr>sn_Chunks = Some chunks, sn_PreScanPing = prescan, sn_Output = env_Output env,
                       sn_RichDenyExcluded = env_RichDenyExcluded env, sn_TargetExpansion = env_TargetExpansion env,
                       sn_TargetSemanticsVersion = env_TargetSemanticsVersion env,
                       sn_BasicPortFallback = env_BasicPortFallback env\<rparr>
                 in try_bind (validateSnapshotLimits snap limits) (\<lambda>_. Inr snap)))))"

text \<open>The size that stat reports and the bytes that reading then yields\<close>

definition LoadSnapshotWithLimits :: "int \<Rightarrow> string \<Rightarrow> SnapshotLimits \<Rightarrow> load_error + Snapshot" where
  "LoadSnapshotWithLimits fsize content limits =
     (if fsize < 0 \<or> fsize > 2 ^ 63 - 1 then Inl (SizeUnfit fsize)
      else if MaxBytes limits > 0 \<and> fsize > MaxBytes limits then Inl (OverLimit InputBytes fsize (MaxBytes limits))
      else if int (length content) \<noteq> fsize then Inl SizeChanged
      else
        let trimmed = trim_space content in
        (case trimmed of [] \<Rightarrow> Inl EmptyInput
         | c # _ \<Rightarrow> if c = CHR ''['' then load_chunk_array trimmed limits
             else if c = CHR ''{'' then load_envelope trimmed limits
             else Inl (BadRoot c)))"

end
