(* ===== verification/SnapshotRound.thy ===== *)
theory SnapshotRound
  imports SnapshotCodec
begin

text \<open>
  A saved snapshot loads as it was saved. The reading rules below follow the layout of the
  encoder: a value followed by the rest of its object or array.
\<close>

section \<open>Reading what the encoder lays out\<close>

definition reads :: "string \<Rightarrow> json \<Rightarrow> string \<Rightarrow> bool" where
  "reads s v r \<longleftrightarrow> (\<exists>n. json_value n s = Some (v, r))"

text \<open>The rest of an object or of an array after one of its members\<close>

definition reads_members :: "string \<Rightarrow> (string \<times> json) list \<Rightarrow> string \<Rightarrow> bool" where
  "reads_members t ms r \<longleftrightarrow> (ms = [] \<and> skip_space t = CHR ''}'' # r) \<or>
     (\<exists>q n. skip_space t = CHR '','' # q \<and> json_members n (skip_space q) = Some (ms, r))"

definition reads_items :: "string \<Rightarrow> json list \<Rightarrow> string \<Rightarrow> bool" where
  "reads_items t vs r \<longleftrightarrow> (vs = [] \<and> skip_space t = CHR '']'' # r) \<or>
     (\<exists>q n. skip_space t = CHR '','' # q \<and> json_elems n (skip_space q) = Some (vs, r))"

lemma json_elems_more: "json_elems n s = Some (vs, r) \<Longrightarrow> n \<le> m \<Longrightarrow> json_elems m s = Some (vs, r)"
  by (rotate_tac 1, induction rule: dec_induct) (use json_more_fuel in blast)+

lemma json_members_more: "json_members n s = Some (ms, r) \<Longrightarrow> n \<le> m \<Longrightarrow> json_members m s = Some (ms, r)"
  by (rotate_tac 1, induction rule: dec_induct) (use json_more_fuel in blast)+

lemma skip_line [simp]: "skip_space (line n @ t) = skip_space t"
proof -
  have "list_all json_space (line n)" by (simp add: line_def json_space_def list_all_iff)
  then show ?thesis by (rule skip_spaces_append)
qed

lemma reads_head:
  assumes "reads s v r"
  shows "skip_space s = s" "s \<noteq> []" "hd s \<noteq> CHR '']''"
proof -
  obtain n where "json_value n s = Some (v, r)" using assms by (auto simp: reads_def)
  then obtain w where w: "s = w @ r" "scanned w" using json_value_scanned by blast
  then show "skip_space s = s" "s \<noteq> []" "hd s \<noteq> CHR '']''"
    using scanned_not_space [OF w(2)] scanned_head [OF w(2)] by simp_all
qed

definition plain_key :: "string \<Rightarrow> bool" where
  "plain_key k \<longleftrightarrow> list_all (\<lambda>c. html_safe c \<and> code c < 0x80) k"

lemma plain_key_reads:
  assumes "plain_key k"
  shows "scan_str (k @ quote # t) = Some (k, t)" "unquote k = k"
proof -
  have q: "quote_body k = k" using assms by (induction k) (simp_all add: plain_key_def quote_ascii_def)
  have "to_valid k = k" using assms by (induction k) (simp_all add: plain_key_def)
  then show "unquote k = k" using unquote_quote_body [of k] by (simp add: q)
  show "scan_str (k @ quote # t) = Some (k, t)" using quoted_string_read [of k t] by (simp add: q)
qed

lemma members_first:
  assumes "plain_key k" and "reads s v t" and "reads_members t ms r"
  shows "\<exists>n. json_members n (named k @ s) = Some ((k, v) # ms, r)"
proof -
  obtain n where n: "json_value n s = Some (v, t)" using assms(2) by (auto simp: reads_def)
  note key = plain_key_reads [OF assms(1)]
  have self: "skip_space s = s" by (rule reads_head [OF assms(2)])
  have head: "named k @ s = quote # k @ quote # CHR '':'' # CHR '' '' # s" by (simp add: named_def)
  have colon: "\<not> json_space CHR '':''" "json_space CHR '' ''" "skip_space s = s"
    using self by (simp_all add: json_space_def)
  from assms(3) show ?thesis
    unfolding reads_members_def
  proof (elim disjE exE conjE)
    assume e: "ms = []" "skip_space t = CHR ''}'' # r"
    have "json_members (Suc n) (named k @ s) = Some ([(k, v)], r)"
      unfolding head by (simp add: json_members.simps key colon n e(2))
    then show ?thesis using e(1) by blast
  next
    fix q m assume q: "skip_space t = CHR '','' # q" "json_members m (skip_space q) = Some (ms, r)"
    have "json_members (max n m) (skip_space q) = Some (ms, r)" using json_members_more [OF q(2)] by simp
    moreover have "json_value (max n m) s = Some (v, t)" using json_value_more [OF n] by simp
    ultimately have "json_members (Suc (max n m)) (named k @ s) = Some ((k, v) # ms, r)"
      unfolding head by (simp add: json_members.simps key colon q(1))
    then show ?thesis by blast
  qed
qed

lemma named_not_space [simp]: "skip_space (named k @ s) = named k @ s"
  by (simp add: named_def json_space_def)

lemma members_end [simp, intro]: "reads_members (line n @ CHR ''}'' # r) [] r"
  by (simp add: reads_members_def json_space_def)

lemma members_more:
  "plain_key k \<Longrightarrow> reads s v t \<Longrightarrow> reads_members t ms r \<Longrightarrow>
   reads_members (CHR '','' # line n @ named k @ s) ((k, v) # ms) r"
  using members_first by (fastforce simp: reads_members_def json_space_def)

lemma object_reads:
  assumes "plain_key k" and "reads s v t" and "reads_members t ms r"
  shows "reads (CHR ''{'' # line n @ named k @ s) (JObj ((k, v) # ms)) r"
proof -
  obtain m where m: "json_members m (named k @ s) = Some ((k, v) # ms, r)" using members_first [OF assms] by blast
  obtain u where u: "named k @ s = quote # u" by (simp add: named_def)
  then have "skip_space (line n @ quote # u) = quote # u" by (simp add: json_space_def)
  then have "json_value (Suc m) (CHR ''{'' # line n @ named k @ s) = Some (JObj ((k, v) # ms), r)"
    using m unfolding u by (simp add: json_value.simps)
  then show ?thesis by (auto simp: reads_def)
qed

lemma items_end [simp, intro]: "reads_items (line n @ CHR '']'' # r) [] r"
  by (simp add: reads_items_def json_space_def)

lemma elems_first:
  assumes "reads s v t" and "reads_items t vs r"
  shows "\<exists>n. json_elems n s = Some (v # vs, r)"
proof -
  obtain n where n: "json_value n s = Some (v, t)" using assms(1) by (auto simp: reads_def)
  from assms(2) show ?thesis
    unfolding reads_items_def
  proof (elim disjE exE conjE)
    assume e: "vs = []" "skip_space t = CHR '']'' # r"
    have "json_elems (Suc n) s = Some ([v], r)" by (simp add: json_elems.simps n e(2))
    then show ?thesis using e(1) by blast
  next
    fix q m assume q: "skip_space t = CHR '','' # q" "json_elems m (skip_space q) = Some (vs, r)"
    have "json_elems (max n m) (skip_space q) = Some (vs, r)" using json_elems_more [OF q(2)] by simp
    moreover have "json_value (max n m) s = Some (v, t)" using json_value_more [OF n] by simp
    ultimately have "json_elems (Suc (max n m)) s = Some (v # vs, r)" by (simp add: json_elems.simps q(1))
    then show ?thesis by blast
  qed
qed

lemma items_more:
  assumes "reads s v t" and "reads_items t vs r"
  shows "reads_items (CHR '','' # line n @ s) (v # vs) r"
proof -
  obtain m where "json_elems m s = Some (v # vs, r)" using elems_first [OF assms] by blast
  then show ?thesis using reads_head(1) [OF assms(1)] by (auto simp: reads_items_def json_space_def)
qed

lemma array_reads:
  assumes "reads s v t" and "reads_items t vs r"
  shows "reads (CHR ''['' # line n @ s) (JArr (v # vs)) r"
proof -
  obtain m where m: "json_elems m s = Some (v # vs, r)" using elems_first [OF assms] by blast
  obtain c u where s: "s = c # u" "c \<noteq> CHR '']''" using reads_head(2,3) [OF assms(1)] by (cases s) auto
  have "json_value (Suc m) (CHR ''['' # line n @ s) = Some (JArr (v # vs), r)"
    using m reads_head(1) [OF assms(1)] s by (simp add: json_value.simps)
  then show ?thesis by (auto simp: reads_def)
qed

lemma string_reads: "reads (json_quote b @ t) (JStr (to_valid b)) t"
proof -
  have "json_value (Suc 0) (json_quote b @ t) = Some (JStr (to_valid b), t)"
    by (simp add: json_value.simps json_quote_def quoted_string_read unquote_quote_body)
  then show ?thesis by (auto simp: reads_def)
qed

lemma literal_reads:
  "reads (''null'' @ t) JNull t" "reads (''true'' @ t) (JBool True) t" "reads (''false'' @ t) (JBool False) t"
  "reads (''[]'' @ t) (JArr []) t"
proof -
  have "json_value (Suc 0) (''null'' @ t) = Some (JNull, t)" "json_value (Suc 0) (''true'' @ t) = Some (JBool True, t)"
    "json_value (Suc 0) (''false'' @ t) = Some (JBool False, t)" "json_value (Suc 0) (''[]'' @ t) = Some (JArr [], t)"
    by (simp_all add: json_value.simps json_space_def)
  then show "reads (''null'' @ t) JNull t" "reads (''true'' @ t) (JBool True) t" "reads (''false'' @ t) (JBool False) t"
    "reads (''[]'' @ t) (JArr []) t" unfolding reads_def by blast+
qed

section \<open>Numbers\<close>

definition number_end :: "string \<Rightarrow> bool" where
  "number_end t \<longleftrightarrow> (\<exists>c q. t = c # q \<and> (c = CHR '','' \<or> c = newline))"

lemma number_end_simps [simp]: "number_end (CHR '','' # t)" "number_end (line n @ t)"
  by (simp_all add: number_end_def line_def)

lemma nat_digits_leading: "hd (nat_digits n) = CHR ''0'' \<Longrightarrow> tl (nat_digits n) = []"
proof (induction n rule: nat_digits.induct)
  case (1 n)
  show ?case
  proof (cases "n < 10")
    case True
    then show ?thesis by (subst nat_digits.simps) simp
  next
    case False
    then have d: "nat_digits n = nat_digits (n div 10) @ [digit_char (n mod 10)]" by (subst nat_digits.simps) simp
    then have "hd (nat_digits (n div 10)) = CHR ''0''" using 1(2) by simp
    then have "nat_digits (n div 10) = ''0''" using 1(1) [OF False] by (cases "nat_digits (n div 10)") simp_all
    then have "dec_val 0 (nat_digits (n div 10)) = 0" by (simp add: digit_val_def)
    then show ?thesis using False by simp
  qed
qed

lemma json_number_digits:
  assumes "number_end t"
  shows "json_number (nat_digits n @ t) = Some (nat_digits n, t)"
    "json_number (CHR ''-'' # nat_digits n @ t) = Some (CHR ''-'' # nat_digits n, t)"
proof -
  obtain c q where tc: "t = c # q" "c = CHR '','' \<or> c = newline" using assms unfolding number_end_def by blast
  then have t: "t = c # q" "\<not> is_digit c" "c \<noteq> CHR ''.''" "c \<noteq> CHR ''e''" "c \<noteq> CHR ''E''"
    by (elim disjE; simp add: is_digit_def)+
  have w: "takeWhile is_digit (nat_digits n @ t) = nat_digits n"
    using nat_digits_all_digits [of n] t(1,2) by (simp add: takeWhile_append list_all_iff)
  obtain d u where d: "nat_digits n = d # u" "is_digit d" using nat_digits_all_digits [of n] by (cases "nat_digits n") auto
  have sign: "number_sign (nat_digits n @ t) = []" using d by (auto simp: number_sign_def)
  have lead: "\<not> (hd (nat_digits n) = CHR ''0'' \<and> tl (nat_digits n) \<noteq> [])" using nat_digits_leading by blast
  have tail: "number_fraction t = Some []" "number_exponent t = Some []"
    using t by (simp_all add: number_fraction_def number_exponent_def)
  show "json_number (nat_digits n @ t) = Some (nat_digits n, t)"
    using lead by (simp add: json_number_def sign w tail Let_def)
  show "json_number (CHR ''-'' # nat_digits n @ t) = Some (CHR ''-'' # nat_digits n, t)"
    using lead by (simp add: json_number_def number_sign_def w tail Let_def)
qed

lemma number_reads:
  assumes "number_end t"
  shows "reads (itoa i @ t) (JNum (itoa i)) t"
proof -
  obtain d u where d: "nat_digits (nat i) = d # u" "is_digit d"
    using nat_digits_all_digits [of "nat i"] by (cases "nat_digits (nat i)") auto
  have c: "d \<noteq> quote" "d \<noteq> CHR ''[''" "d \<noteq> CHR ''{''" "CHR ''n'' \<noteq> d" "CHR ''t'' \<noteq> d" "CHR ''f'' \<noteq> d"
    using d(2) by (auto simp only: is_digit_def of_char_Char) simp_all
  have "json_value (Suc 0) (itoa i @ t) = Some (JNum (itoa i), t)"
  proof (cases "i < 0")
    case True
    then show ?thesis using json_number_digits(2) [OF assms, of "nat (- i)"] by (simp add: itoa_def json_value.simps)
  next
    case False
    then show ?thesis using json_number_digits(1) [OF assms, of "nat i"] c
      by (simp add: itoa_def json_value.simps d(1))
  qed
  then show ?thesis by (auto simp: reads_def)
qed

lemma atoi_itoa_signed:
  assumes "- (2 ^ 63) \<le> i" and "i < 2 ^ 63"
  shows "atoi (itoa i) = Some i"
proof (cases "i < 0")
  case True
  then show ?thesis using assms by (simp add: atoi_def itoa_def)
next
  case False
  then show ?thesis using assms by (intro atoi_itoa) simp_all
qed

lemma digits_value_itoa: "0 \<le> i \<Longrightarrow> digits_value (itoa i) = Some (nat i)"
  by (simp add: itoa_def)

lemma items_concat:
  assumes "\<And>x t. number_end t \<Longrightarrow> reads (f x @ t) (g x) t"
  shows "reads_items (concat (map (\<lambda>x. CHR '','' # line n @ f x) xs) @ line m @ CHR '']'' # r) (map g xs) r"
proof (induction xs)
  case (Cons x xs)
  have "number_end (concat (map (\<lambda>x. CHR '','' # line n @ f x) xs) @ line m @ CHR '']'' # r)"
    by (cases xs) simp_all
  from items_more [OF assms [OF this] Cons.IH] show ?case by simp
qed simp

section \<open>The document of a snapshot\<close>

definition strings_json :: "string list \<Rightarrow> json" where
  "strings_json vs = JArr (map (\<lambda>v. JStr (to_valid v)) vs)"

lemma stringArray_reads:
  "reads (stringArray [] (Some vs) n @ t) (strings_json vs) t" "reads (stringArray [] None n @ t) JNull t"
proof -
  have elem: "reads (json_quote v @ t) (JStr (to_valid v)) t" for v t by (rule string_reads)
  show "reads (stringArray [] (Some vs) n @ t) (strings_json vs) t"
  proof (cases vs)
    case Nil
    then show ?thesis using literal_reads(4) by (simp add: stringArray_def strings_json_def)
  next
    case (Cons v ws)
    show ?thesis
      using array_reads [OF elem items_concat [of json_quote "\<lambda>v. JStr (to_valid v)", OF elem], of n v n ws "n - 2" t]
      by (simp add: stringArray_def strings_json_def Cons)
  qed
  show "reads (stringArray [] None n @ t) JNull t" using literal_reads(1) by (simp add: stringArray_def)
qed

lemma stringArray_start: "stringArray start vs n = start @ stringArray [] vs n"
  by (simp add: stringArray_def)

definition chunk_json :: "(Chunk \<Rightarrow> bool) \<Rightarrow> Chunk \<Rightarrow> json" where
  "chunk_json nil_ports ch = JObj
     [(''cidr'', JStr (to_valid (chunkCIDR ch))), (''cidr_name'', JStr (to_valid (chunkCIDRName ch))),
      (''ports'', if Ports ch = [] \<and> nil_ports ch then JNull else strings_json (Ports ch)),
      (''next_index'', JNum (itoa (NextIndex ch))), (''scanned_count'', JNum (itoa (ScannedCount ch))),
      (''total_count'', JNum (itoa (TotalCount ch))), (''status'', JStr (to_valid (Status ch)))]"

lemma snapshot_keys_plain:
  "list_all plain_key [''chunks'', ''pre_scan_ping'', ''output'', ''target_expansion'', ''rich_deny_excluded'',
     ''target_semantics_version'', ''basic_port_fallback'', ''cidr'', ''cidr_name'', ''ports'', ''next_index'',
     ''scanned_count'', ''total_count'', ''status'', ''enabled'', ''timeout_ms'', ''unreachable_ipv4_u32'',
     ''scan_path'', ''open_path'', ''candidate_count'', ''candidate_limit'', ''memory_limit_gb'']"
  by (simp add: plain_key_def html_safe_def)

lemmas plain_keys = snapshot_keys_plain [unfolded list_all_iff list.set ball_simps]

definition chunk_text :: "(Chunk \<Rightarrow> bool) \<Rightarrow> Chunk \<Rightarrow> string" where
  "chunk_text nil_ports ch = drop (length (line 4)) (encode_chunk nil_ports ch)"

lemma encode_chunk_text: "encode_chunk nil_ports ch = line 4 @ chunk_text nil_ports ch"
  by (simp add: chunk_text_def encode_chunk_def)

lemma chunk_reads: "reads (chunk_text nil_ports ch @ t) (chunk_json nil_ports ch) t"
proof -
  define vals where "vals = (if Ports ch = [] \<and> nil_ports ch then None else Some (Ports ch))"
  define doc where "doc = (if Ports ch = [] \<and> nil_ports ch then JNull else strings_json (Ports ch))"
  have ports: "reads (stringArray [] vals 8 @ q) doc q" for q
    by (simp add: vals_def doc_def stringArray_reads)
  have "chunk_text nil_ports ch @ t = CHR ''{'' # line 6 @ named ''cidr'' @ json_quote (chunkCIDR ch) @
     CHR '','' # line 6 @ named ''cidr_name'' @ json_quote (chunkCIDRName ch) @
     CHR '','' # line 6 @ named ''ports'' @ stringArray [] vals 8 @
     CHR '','' # line 6 @ named ''next_index'' @ itoa (NextIndex ch) @
     CHR '','' # line 6 @ named ''scanned_count'' @ itoa (ScannedCount ch) @
     CHR '','' # line 6 @ named ''total_count'' @ itoa (TotalCount ch) @
     CHR '','' # line 6 @ named ''status'' @ json_quote (Status ch) @ line 4 @ CHR ''}'' # t"
    by (simp add: chunk_text_def encode_chunk_def vals_def stringArray_start [of "CHR '','' # _"])
  then show ?thesis
    unfolding chunk_json_def doc_def [symmetric]
    by (simp only:) (rule object_reads members_more string_reads number_reads ports members_end | (simp add: plain_keys; fail))+
qed

definition chunks_json :: "(Chunk \<Rightarrow> bool) \<Rightarrow> Chunk list option \<Rightarrow> json" where
  "chunks_json nil_ports chunks = (case chunks of None \<Rightarrow> JNull | Some chs \<Rightarrow> JArr (map (chunk_json nil_ports) chs))"

lemma chunks_reads: "reads (encode_chunks nil_ports chunks @ t) (chunks_json nil_ports chunks) t"
proof (cases chunks)
  case None
  then show ?thesis using literal_reads(1) by (simp add: encode_chunks_def chunks_json_def)
next
  case (Some chs)
  show ?thesis
  proof (cases chs)
    case Nil
    then show ?thesis using literal_reads(4) by (simp add: encode_chunks_def chunks_json_def Some)
  next
    case (Cons ch chs')
    have "reads (CHR ''['' # line 4 @ chunk_text nil_ports ch @
        concat (map (\<lambda>ch. CHR '','' # line 4 @ chunk_text nil_ports ch) chs') @ line 2 @ CHR '']'' # t)
      (JArr (chunk_json nil_ports ch # map (chunk_json nil_ports) chs')) t"
      by (rule array_reads [OF chunk_reads items_concat [OF chunk_reads]])
    then show ?thesis
      by (simp add: encode_chunks_def chunks_json_def Some Cons encode_chunk_text)
  qed
qed

definition prescan_json :: "PreScanPingState \<Rightarrow> json" where
  "prescan_json p = JObj
     ([(''enabled'', JBool (ps_Enabled p)), (''timeout_ms'', JNum (itoa (ps_TimeoutMS p)))] @
      (if ps_UnreachableIPv4U32 p = [] then []
       else [(''unreachable_ipv4_u32'', JArr (map (\<lambda>v. JNum (itoa (uint v))) (ps_UnreachableIPv4U32 p)))]))"

definition prescan_text :: "PreScanPingState \<Rightarrow> string" where
  "prescan_text p = CHR ''{'' # line 4 @ named ''enabled'' @ format_bool (ps_Enabled p) @
     CHR '','' # line 4 @ named ''timeout_ms'' @ itoa (ps_TimeoutMS p) @
     (case ps_UnreachableIPv4U32 p of [] \<Rightarrow> []
      | v # vs \<Rightarrow> CHR '','' # line 4 @ named ''unreachable_ipv4_u32'' @ CHR ''['' # line 6 @ itoa (uint v) @
          concat (map (\<lambda>v. CHR '','' # line 6 @ itoa (uint v)) vs) @ line 4 @ '']'') @ line 2 @ ''}''"

lemma bool_reads: "reads (format_bool b @ t) (JBool b) t"
  by (cases b) (simp_all only: format_bool_def if_True if_False literal_reads)

lemma prescan_reads: "reads (prescan_text p @ t) (prescan_json p) t"
proof (cases "ps_UnreachableIPv4U32 p")
  case Nil
  have "prescan_text p @ t = CHR ''{'' # line 4 @ named ''enabled'' @ format_bool (ps_Enabled p) @
     CHR '','' # line 4 @ named ''timeout_ms'' @ itoa (ps_TimeoutMS p) @ line 2 @ CHR ''}'' # t"
    by (simp add: prescan_text_def Nil)
  then show ?thesis
    unfolding prescan_json_def Nil
    by (simp only: if_True append.simps)
      (rule object_reads members_more bool_reads number_reads members_end | (simp add: plain_keys; fail))+
next
  case (Cons v vs)
  have arr: "reads (CHR ''['' # line 6 @ itoa (uint v) @ concat (map (\<lambda>v. CHR '','' # line 6 @ itoa (uint v)) vs) @ line 4 @ CHR '']'' # q)
      (JArr (map (\<lambda>v. JNum (itoa (uint v))) (v # vs))) q" for q
  proof -
    have "number_end (concat (map (\<lambda>v. CHR '','' # line 6 @ itoa (uint v)) vs) @ line 4 @ CHR '']'' # q)"
      by (cases vs) simp_all
    from array_reads [OF number_reads [OF this] items_concat [of "\<lambda>v. itoa (uint v)" "\<lambda>v. JNum (itoa (uint v))", OF number_reads]]
    show ?thesis by simp
  qed
  have "prescan_text p @ t = CHR ''{'' # line 4 @ named ''enabled'' @ format_bool (ps_Enabled p) @
     CHR '','' # line 4 @ named ''timeout_ms'' @ itoa (ps_TimeoutMS p) @
     CHR '','' # line 4 @ named ''unreachable_ipv4_u32'' @ CHR ''['' # line 6 @ itoa (uint v) @
       concat (map (\<lambda>v. CHR '','' # line 6 @ itoa (uint v)) vs) @ line 4 @ CHR '']'' # line 2 @ CHR ''}'' # t"
    by (simp add: prescan_text_def Cons)
  then show ?thesis
    unfolding prescan_json_def Cons
    by (simp only: list.distinct if_False append.simps)
      (rule object_reads members_more bool_reads number_reads arr members_end | (simp add: plain_keys; fail))+
qed

definition output_json :: "OutputState \<Rightarrow> json" where
  "output_json out = JObj [(''scan_path'', JStr (to_valid (ScanPath out))), (''open_path'', JStr (to_valid (OpenPath out)))]"

definition output_text :: "OutputState \<Rightarrow> string" where
  "output_text out = CHR ''{'' # line 4 @ named ''scan_path'' @ json_quote (ScanPath out) @
     CHR '','' # line 4 @ named ''open_path'' @ json_quote (OpenPath out) @ line 2 @ ''}''"

lemma output_reads: "reads (output_text out @ t) (output_json out) t"
proof -
  have "output_text out @ t = CHR ''{'' # line 4 @ named ''scan_path'' @ json_quote (ScanPath out) @
     CHR '','' # line 4 @ named ''open_path'' @ json_quote (OpenPath out) @ line 2 @ CHR ''}'' # t"
    by (simp add: output_text_def)
  then show ?thesis
    unfolding output_json_def
    by (simp only:) (rule object_reads members_more string_reads members_end | (simp add: plain_keys; fail))+
qed

definition expansion_json :: "TargetExpansionState \<Rightarrow> json" where
  "expansion_json e = JObj [(''candidate_count'', JNum (itoa (te_CandidateCount e))),
     (''candidate_limit'', JNum (itoa (te_CandidateLimit e))), (''memory_limit_gb'', JNum (itoa (te_MemoryLimitGB e)))]"

definition expansion_text :: "TargetExpansionState \<Rightarrow> string" where
  "expansion_text e = CHR ''{'' # line 4 @ named ''candidate_count'' @ itoa (te_CandidateCount e) @
     CHR '','' # line 4 @ named ''candidate_limit'' @ itoa (te_CandidateLimit e) @
     CHR '','' # line 4 @ named ''memory_limit_gb'' @ itoa (te_MemoryLimitGB e) @ line 2 @ ''}''"

lemma expansion_reads: "reads (expansion_text e @ t) (expansion_json e) t"
proof -
  have "expansion_text e @ t = CHR ''{'' # line 4 @ named ''candidate_count'' @ itoa (te_CandidateCount e) @
     CHR '','' # line 4 @ named ''candidate_limit'' @ itoa (te_CandidateLimit e) @
     CHR '','' # line 4 @ named ''memory_limit_gb'' @ itoa (te_MemoryLimitGB e) @ line 2 @ CHR ''}'' # t"
    by (simp add: expansion_text_def)
  then show ?thesis
    unfolding expansion_json_def
    by (simp only:) (rule object_reads members_more number_reads members_end | (simp add: plain_keys; fail))+
qed

section \<open>The whole document\<close>

definition opt_section :: "bool \<Rightarrow> string \<Rightarrow> string \<Rightarrow> string" where
  "opt_section present k w = (if present then CHR '','' # line 2 @ named k @ w else [])"

definition member :: "bool \<Rightarrow> string \<Rightarrow> json \<Rightarrow> (string \<times> json) list" where
  "member present k v = (if present then [(k, v)] else [])"

lemma section_reads:
  assumes "plain_key k" and "present \<Longrightarrow> reads (w @ t) v t" and "reads_members t ms r"
  shows "reads_members (opt_section present k w @ t) (member present k v @ ms) r"
  using assms(2,3) members_more [OF assms(1) _ assms(3), of "w @ t" v 2] by (auto simp: opt_section_def member_def)

lemma section_number_end: "number_end t \<Longrightarrow> number_end (opt_section present k w @ t)"
  by (simp add: opt_section_def)

definition snapshot_members :: "(Chunk \<Rightarrow> bool) \<Rightarrow> Snapshot \<Rightarrow> (string \<times> json) list" where
  "snapshot_members nil_ports snap =
     [(''chunks'', chunks_json nil_ports (sn_Chunks snap))] @
     member (hasPreScanPingState (sn_PreScanPing snap)) ''pre_scan_ping'' (prescan_json (sn_PreScanPing snap)) @
     member (sn_Output snap \<noteq> None) ''output'' (output_json (the (sn_Output snap))) @
     member (sn_RichDenyExcluded snap) ''rich_deny_excluded'' (JBool True) @
     member (sn_TargetExpansion snap \<noteq> None) ''target_expansion'' (expansion_json (the (sn_TargetExpansion snap))) @
     member (sn_TargetSemanticsVersion snap \<noteq> 0) ''target_semantics_version'' (JNum (itoa (sn_TargetSemanticsVersion snap))) @
     member (sn_BasicPortFallback snap \<noteq> []) ''basic_port_fallback'' (strings_json (sn_BasicPortFallback snap))"

lemma encoded_sections:
  "encodeSnapshot nil_ports (snapshotEnvelopeFromSnapshot snap) =
     CHR ''{'' # line 2 @ named ''chunks'' @ encode_chunks nil_ports (sn_Chunks snap) @
     opt_section (hasPreScanPingState (sn_PreScanPing snap)) ''pre_scan_ping'' (prescan_text (sn_PreScanPing snap)) @
     opt_section (sn_Output snap \<noteq> None) ''output'' (output_text (the (sn_Output snap))) @
     opt_section (sn_RichDenyExcluded snap) ''rich_deny_excluded'' ''true'' @
     opt_section (sn_TargetExpansion snap \<noteq> None) ''target_expansion'' (expansion_text (the (sn_TargetExpansion snap))) @
     opt_section (sn_TargetSemanticsVersion snap \<noteq> 0) ''target_semantics_version'' (itoa (sn_TargetSemanticsVersion snap)) @
     opt_section (sn_BasicPortFallback snap \<noteq> []) ''basic_port_fallback'' (stringArray [] (Some (sn_BasicPortFallback snap)) 4) @
     line 0 @ ''}''"
  by (simp add: encodeSnapshot_def snapshotEnvelopeFromSnapshot_def Let_def opt_section_def encode_preScanPing_def prescan_text_def
      encode_output_def output_text_def encode_targetExpansion_def expansion_text_def
      stringArray_start [of "CHR '','' # _"] split: option.split list.split)

lemma encoded_reads:
  "reads (encodeSnapshot nil_ports (snapshotEnvelopeFromSnapshot snap)) (JObj (snapshot_members nil_ports snap)) []"
proof -
  define t6 where "t6 = line 0 @ ''}''"
  define t5 where "t5 = opt_section (sn_BasicPortFallback snap \<noteq> []) ''basic_port_fallback'' (stringArray [] (Some (sn_BasicPortFallback snap)) 4) @ t6"
  define t4 where "t4 = opt_section (sn_TargetSemanticsVersion snap \<noteq> 0) ''target_semantics_version'' (itoa (sn_TargetSemanticsVersion snap)) @ t5"
  have "number_end t6" by (simp add: t6_def)
  then have number: "number_end t5" unfolding t5_def by (rule section_number_end)
  have true: "reads (''true'' @ t) (JBool True) t" for t by (rule literal_reads)
  have r6: "reads_members t6 [] []" using members_end [of 0 "[]"] by (simp add: t6_def)
  have r5: "reads_members t5 (member (sn_BasicPortFallback snap \<noteq> []) ''basic_port_fallback'' (strings_json (sn_BasicPortFallback snap))) []"
    unfolding t5_def using section_reads [OF _ stringArray_reads(1) r6] by (simp add: plain_keys)
  have r4: "reads_members t4 (member (sn_TargetSemanticsVersion snap \<noteq> 0) ''target_semantics_version'' (JNum (itoa (sn_TargetSemanticsVersion snap))) @
      member (sn_BasicPortFallback snap \<noteq> []) ''basic_port_fallback'' (strings_json (sn_BasicPortFallback snap))) []"
    unfolding t4_def by (rule section_reads [OF _ number_reads [OF number] r5]) (simp add: plain_keys)
  have k: "plain_key ''target_expansion''" "plain_key ''rich_deny_excluded''" "plain_key ''output''" "plain_key ''pre_scan_ping''"
    "plain_key ''chunks''" by (simp_all add: plain_keys)
  show ?thesis
    unfolding encoded_sections snapshot_members_def t6_def [symmetric] t5_def [symmetric] t4_def [symmetric] append_Cons append_Nil
    by (rule object_reads [OF k(5) chunks_reads section_reads [OF k(4) prescan_reads section_reads [OF k(3) output_reads
          section_reads [OF k(2) true section_reads [OF k(1) expansion_reads r4]]]]])
qed

lemma reads_text:
  assumes "reads s v []"
  shows "json_text s = Some v"
proof -
  obtain n where n: "json_value n s = Some (v, [])" using assms by (auto simp: reads_def)
  have "json_value (max n (2 * length s + 1)) s = Some (v, [])" using json_value_more [OF n] by simp
  then have "json_value (2 * length s + 1) s = Some (v, [])"
    using json_fuel_enough [of s "2 * length s + 1" "max n (2 * length s + 1)"] by simp
  then show ?thesis using reads_head(1) [OF assms] by (simp add: json_text_def)
qed

section \<open>Decoding the document\<close>

text \<open>What a reader gets: the same snapshot, its strings made valid UTF-8\<close>

definition valid_chunk :: "Chunk \<Rightarrow> Chunk" where
  "valid_chunk ch = ch\<lparr>chunkCIDR := to_valid (chunkCIDR ch), chunkCIDRName := to_valid (chunkCIDRName ch),
     Ports := map to_valid (Ports ch), Status := to_valid (Status ch)\<rparr>"

definition valid_output :: "OutputState \<Rightarrow> OutputState" where
  "valid_output out = \<lparr>ScanPath = to_valid (ScanPath out), OpenPath = to_valid (OpenPath out)\<rparr>"

definition valid_snapshot :: "Snapshot \<Rightarrow> Snapshot" where
  "valid_snapshot snap = snap\<lparr>sn_Chunks := map_option (map valid_chunk) (sn_Chunks snap),
     sn_Output := map_option valid_output (sn_Output snap), sn_BasicPortFallback := map to_valid (sn_BasicPortFallback snap)\<rparr>"

text \<open>The ranges of the Go types \<open>int\<close>, \<open>int64\<close> and \<open>uint64\<close>\<close>

definition int64 :: "int \<Rightarrow> bool" where
  "int64 i \<longleftrightarrow> - (2 ^ 63) \<le> i \<and> i < 2 ^ 63"

definition chunk_in_range :: "Chunk \<Rightarrow> bool" where
  "chunk_in_range ch \<longleftrightarrow> int64 (NextIndex ch) \<and> int64 (ScannedCount ch) \<and> int64 (TotalCount ch)"

definition snapshot_in_range :: "Snapshot \<Rightarrow> bool" where
  "snapshot_in_range snap \<longleftrightarrow>
     (\<forall>chunks. sn_Chunks snap = Some chunks \<longrightarrow> list_all chunk_in_range chunks) \<and>
     int64 (ps_TimeoutMS (sn_PreScanPing snap)) \<and> int64 (sn_TargetSemanticsVersion snap) \<and>
     (\<forall>e. sn_TargetExpansion snap = Some e \<longrightarrow> 0 \<le> te_CandidateCount e \<and> te_CandidateCount e < 2 ^ 64 \<and>
        int64 (te_CandidateLimit e) \<and> int64 (te_MemoryLimitGB e))"

lemma dec_int_itoa: "int64 i \<Longrightarrow> dec_int old (JNum (itoa i)) = Some i"
  by (simp add: dec_int_def int64_def atoi_itoa_signed)

lemma dec_uint_itoa: "0 \<le> i \<Longrightarrow> i < 2 ^ width \<Longrightarrow> dec_uint width old (JNum (itoa i)) = Some i"
  by (simp add: dec_uint_def digits_value_itoa)

lemma dec_elems_map:
  "\<forall>x \<in> set xs. dec zero (f x) = Some (g x) \<Longrightarrow> dec_elems dec zero [] (map f xs) = Some (map g xs)"
  by (induction xs) simp_all

lemma dec_strings: "dec_slice dec_string [] [] (strings_json vs) = Some (map to_valid vs)"
  by (simp add: dec_slice_def strings_json_def dec_elems_map dec_string_def)

lemma dec_chunk_json:
  assumes "chunk_in_range ch"
  shows "dec_chunk strict zero_chunk (chunk_json nil_ports ch) = Some (valid_chunk ch)"
proof -
  have ints: "dec_int old (JNum (itoa (NextIndex ch))) = Some (NextIndex ch)"
    "dec_int old (JNum (itoa (ScannedCount ch))) = Some (ScannedCount ch)"
    "dec_int old (JNum (itoa (TotalCount ch))) = Some (TotalCount ch)" for old
    using assms by (simp_all add: chunk_in_range_def dec_int_itoa)
  have ports: "dec_slice dec_string [] [] (if Ports ch = [] \<and> nil_ports ch then JNull else strings_json (Ports ch)) =
      Some (map to_valid (Ports ch))"
    by (simp add: dec_strings) (simp add: dec_slice_def)
  show ?thesis
    by (simp add: dec_chunk_def dec_struct_def chunk_json_def field_of_def chunk_fields_def set_chunk_field_def
        zero_chunk_def dec_string_def ints ports valid_chunk_def)
qed

lemma dec_prescan_json:
  assumes "int64 (ps_TimeoutMS p)"
  shows "dec_struct set_prescan_field [''enabled'', ''timeout_ms'', ''unreachable_ipv4_u32''] False empty_prescan (prescan_json p) =
    Some \<lparr>pe_Enabled = Some (ps_Enabled p), pe_TimeoutMS = Some (ps_TimeoutMS p), pe_UnreachableIPv4U32 = ps_UnreachableIPv4U32 p\<rparr>"
proof -
  have "map_option word_of_int (dec_uint 32 old (JNum (itoa (uint v)))) = Some v" for old and v :: "32 word"
    using uint_lt2p [of v] by (simp add: dec_uint_itoa)
  then have "dec_slice (\<lambda>old v. map_option word_of_int (dec_uint 32 (uint old) v)) 0 []
      (JArr (map (\<lambda>v. JNum (itoa (uint v))) vs)) = Some vs" for vs :: "32 word list"
    using dec_elems_map [of vs "\<lambda>old v. map_option word_of_int (dec_uint 32 (uint old) v)" 0 "\<lambda>v. JNum (itoa (uint v))" "\<lambda>v. v"]
    by (simp add: dec_slice_def)
  then show ?thesis
    using dec_int_itoa [OF assms]
    by (simp add: dec_struct_def prescan_json_def field_of_def set_prescan_field_def dec_pointer_def dec_bool_def empty_prescan_def)
qed

lemma dec_output_json:
  "dec_struct set_output_field [''scan_path'', ''open_path''] False \<lparr>ScanPath = [], OpenPath = []\<rparr> (output_json out) = Some (valid_output out)"
  by (simp add: dec_struct_def output_json_def field_of_def set_output_field_def dec_string_def valid_output_def)

lemma dec_expansion_json:
  assumes "0 \<le> te_CandidateCount e" and "te_CandidateCount e < 2 ^ 64" and "int64 (te_CandidateLimit e)" and "int64 (te_MemoryLimitGB e)"
  shows "dec_struct set_expansion_field [''candidate_count'', ''candidate_limit'', ''memory_limit_gb''] False
    \<lparr>te_CandidateCount = 0, te_CandidateLimit = 0, te_MemoryLimitGB = 0\<rparr> (expansion_json e) = Some e"
  using assms
  by (simp add: dec_struct_def expansion_json_def field_of_def set_expansion_field_def dec_int_itoa dec_uint_itoa)

lemma dec_fields_append:
  "dec_fields f names strict (ms @ ns) st = Option.bind (dec_fields f names strict ms st) (dec_fields f names strict ns)"
  by (induction ms arbitrary: st) (auto split: option.split)

lemma dec_member:
  assumes "k \<in> set names" and "present \<Longrightarrow> f k v st = Some st'" and "\<not> present \<Longrightarrow> st' = st"
  shows "dec_fields f names strict (member present k v @ ms) st = dec_fields f names strict ms st'"
  using assms by (auto simp: member_def field_of_def)

lemma dec_snapshot_members:
  assumes "snapshot_in_range snap" and "sn_Chunks snap = Some chunks"
  shows "dec_snapshot (initial_envelope \<lparr>preScanPresent = p, chunksPresent = True, chunkCount = n\<rparr>) (JObj (snapshot_members nil_ports snap)) =
    Some \<lparr>env_Chunks = Some (map valid_chunk chunks),
      env_PreScanPing = (if hasPreScanPingState (sn_PreScanPing snap) then
          Some \<lparr>pe_Enabled = Some (ps_Enabled (sn_PreScanPing snap)), pe_TimeoutMS = Some (ps_TimeoutMS (sn_PreScanPing snap)),
             pe_UnreachableIPv4U32 = ps_UnreachableIPv4U32 (sn_PreScanPing snap)\<rparr> else Some empty_prescan),
      env_Output = map_option valid_output (sn_Output snap), env_RichDenyExcluded = sn_RichDenyExcluded snap,
      env_TargetExpansion = sn_TargetExpansion snap, env_TargetSemanticsVersion = sn_TargetSemanticsVersion snap,
      env_BasicPortFallback = map to_valid (sn_BasicPortFallback snap)\<rparr>"
proof -
  let ?d = "dec_fields set_snapshot_field snapshot_fields False"
  have range: "\<forall>ch \<in> set chunks. chunk_in_range ch" "int64 (ps_TimeoutMS (sn_PreScanPing snap))" "int64 (sn_TargetSemanticsVersion snap)"
    using assms by (simp_all add: snapshot_in_range_def list_all_iff)
  have chunks: "dec_slice (dec_chunk False) zero_chunk [] (chunks_json nil_ports (Some chunks)) = Some (map valid_chunk chunks)"
    using range(1) by (simp add: dec_slice_def chunks_json_def dec_elems_map dec_chunk_json)
  have notnull: "chunks_json nil_ports (Some chunks) \<noteq> JNull" "prescan_json q \<noteq> JNull" "output_json out \<noteq> JNull" "expansion_json e \<noteq> JNull" for q out e
    by (simp_all add: chunks_json_def prescan_json_def output_json_def expansion_json_def)
  have set: "set_snapshot_field ''chunks'' (chunks_json nil_ports (Some chunks)) st = Some (st\<lparr>env_Chunks := Some (map valid_chunk chunks)\<rparr>)"
    if "env_Chunks st = Some []" for st
    using that by (simp add: set_snapshot_field_def dec_pointer_def notnull chunks)
  define e where "e p out rich ex ver fb = \<lparr>env_Chunks = Some (map valid_chunk chunks), env_PreScanPing = p, env_Output = out,
    env_RichDenyExcluded = rich, env_TargetExpansion = ex, env_TargetSemanticsVersion = ver, env_BasicPortFallback = fb\<rparr>" for p out rich ex ver fb
  let ?P = "if hasPreScanPingState (sn_PreScanPing snap) then
          Some \<lparr>pe_Enabled = Some (ps_Enabled (sn_PreScanPing snap)), pe_TimeoutMS = Some (ps_TimeoutMS (sn_PreScanPing snap)),
             pe_UnreachableIPv4U32 = ps_UnreachableIPv4U32 (sn_PreScanPing snap)\<rparr> else Some empty_prescan"
  let ?out = "map_option valid_output (sn_Output snap)" and ?fb = "map to_valid (sn_BasicPortFallback snap)"
  note field = set_snapshot_field_def dec_pointer_def notnull e_def
  have m1: "?d (member (hasPreScanPingState (sn_PreScanPing snap)) ''pre_scan_ping'' (prescan_json (sn_PreScanPing snap)) @ ms)
      (e (Some empty_prescan) None False None 0 []) = ?d ms (e ?P None False None 0 [])" for ms
    using range(2) by (intro dec_member) (simp_all add: snapshot_fields_def field dec_prescan_json)
  have m2: "?d (member (sn_Output snap \<noteq> None) ''output'' (output_json (the (sn_Output snap))) @ ms)
      (e ?P None False None 0 []) = ?d ms (e ?P ?out False None 0 [])" for ms
    by (rule dec_member) (auto simp: snapshot_fields_def field dec_output_json)
  have m3: "?d (member (sn_RichDenyExcluded snap) ''rich_deny_excluded'' (JBool True) @ ms)
      (e ?P ?out False None 0 []) = ?d ms (e ?P ?out (sn_RichDenyExcluded snap) None 0 [])" for ms
    by (rule dec_member) (simp_all add: snapshot_fields_def field dec_bool_def)
  have m4: "?d (member (sn_TargetExpansion snap \<noteq> None) ''target_expansion'' (expansion_json (the (sn_TargetExpansion snap))) @ ms)
      (e ?P ?out (sn_RichDenyExcluded snap) None 0 []) = ?d ms (e ?P ?out (sn_RichDenyExcluded snap) (sn_TargetExpansion snap) 0 [])" for ms
  proof (rule dec_member)
    assume "sn_TargetExpansion snap \<noteq> None"
    then obtain x where x: "sn_TargetExpansion snap = Some x" by blast
    then have "0 \<le> te_CandidateCount x \<and> te_CandidateCount x < 2 ^ 64 \<and> int64 (te_CandidateLimit x) \<and> int64 (te_MemoryLimitGB x)"
      using assms(1) by (simp add: snapshot_in_range_def)
    then show "set_snapshot_field ''target_expansion'' (expansion_json (the (sn_TargetExpansion snap)))
        (e ?P ?out (sn_RichDenyExcluded snap) None 0 []) = Some (e ?P ?out (sn_RichDenyExcluded snap) (sn_TargetExpansion snap) 0 [])"
      using dec_expansion_json [of x] by (simp add: field x)
  qed (simp_all add: snapshot_fields_def field)
  have m5: "?d (member (sn_TargetSemanticsVersion snap \<noteq> 0) ''target_semantics_version'' (JNum (itoa (sn_TargetSemanticsVersion snap))) @ ms)
      (e ?P ?out (sn_RichDenyExcluded snap) (sn_TargetExpansion snap) 0 []) =
      ?d ms (e ?P ?out (sn_RichDenyExcluded snap) (sn_TargetExpansion snap) (sn_TargetSemanticsVersion snap) [])" for ms
    using range(3) by (intro dec_member) (simp_all add: snapshot_fields_def field dec_int_itoa)
  have m6: "?d (member (sn_BasicPortFallback snap \<noteq> []) ''basic_port_fallback'' (strings_json (sn_BasicPortFallback snap)) @ [])
      (e ?P ?out (sn_RichDenyExcluded snap) (sn_TargetExpansion snap) (sn_TargetSemanticsVersion snap) []) =
      ?d [] (e ?P ?out (sn_RichDenyExcluded snap) (sn_TargetExpansion snap) (sn_TargetSemanticsVersion snap) ?fb)"
    by (rule dec_member) (simp_all add: snapshot_fields_def field dec_strings)
  have "?d (snapshot_members nil_ports snap) (initial_envelope \<lparr>preScanPresent = p, chunksPresent = True, chunkCount = n\<rparr>) =
      ?d (tl (snapshot_members nil_ports snap)) (e (Some empty_prescan) None False None 0 [])"
    by (simp add: snapshot_members_def assms(2) field_of_def snapshot_fields_def set initial_envelope_def e_def)
  also have "\<dots> = Some (e ?P ?out (sn_RichDenyExcluded snap) (sn_TargetExpansion snap) (sn_TargetSemanticsVersion snap) ?fb)"
    using m6 unfolding snapshot_members_def append_Cons append_Nil list.sel m1 m2 m3 m4 m5 by simp
  finally show ?thesis by (simp only: dec_snapshot_def dec_struct_def json.case e_def)
qed

lemma snapshot_members_known:
  assumes "sn_Chunks snap = Some chunks"
  shows "\<forall>m \<in> set (snapshot_members nil_ports snap). member_known m"
    "document_shape (snapshot_members nil_ports snap) =
       \<lparr>preScanPresent = hasPreScanPingState (sn_PreScanPing snap), chunksPresent = True, chunkCount = length chunks\<rparr>"
proof -
  have chunk: "object_known SnapshotChunk (chunk_json nil_ports ch)" for ch
    by (simp add: object_known_def members_of_def chunk_json_def)
  have parts: "object_known SnapshotPreScan (prescan_json p)" "object_known SnapshotOutput (output_json out)"
    "object_known SnapshotExpansion (expansion_json e)" for p out e
    by (simp_all add: object_known_def members_of_def prescan_json_def output_json_def expansion_json_def)
  have one: "(\<forall>m \<in> set (member b k v). member_known m) \<longleftrightarrow> (b \<longrightarrow> member_known (k, v))" for b k v
    by (simp add: member_def)
  have known: "member_known (''chunks'', chunks_json nil_ports (Some chunks))"
    "member_known (''pre_scan_ping'', prescan_json p)" "member_known (''output'', output_json out)"
    "member_known (''target_expansion'', expansion_json e)" "member_known (''rich_deny_excluded'', v)"
    "member_known (''target_semantics_version'', v)" "member_known (''basic_port_fallback'', v)" for p out e v
    by (auto simp: member_known_def chunks_json_def items_of_def chunk parts)
  show "\<forall>m \<in> set (snapshot_members nil_ports snap). member_known m"
    unfolding snapshot_members_def assms by (simp add: ball_Un one known)
  have "map_of (rev (snapshot_members nil_ports snap)) ''chunks'' = Some (chunks_json nil_ports (Some chunks))"
    by (simp add: snapshot_members_def member_def assms)
  then show "document_shape (snapshot_members nil_ports snap) =
       \<lparr>preScanPresent = hasPreScanPingState (sn_PreScanPing snap), chunksPresent = True, chunkCount = length chunks\<rparr>"
    by (auto simp: document_shape_def chunks_json_def items_of_def) (auto simp: snapshot_members_def member_def split: if_splits)
qed

section \<open>Loading what was saved\<close>

lemma valid_limits:
  "validateSnapshotLimits (valid_snapshot snap) limits = validateSnapshotLimits snap limits"
proof -
  have step: "port_limit_step l n (valid_chunk ch) = port_limit_step l n ch" for l n ch
    by (simp add: port_limit_step_def valid_chunk_def)
  have "try_fold (port_limit_step l) n (map valid_chunk chs) = try_fold (port_limit_step l) n chs" for l n chs
    by (induction chs arbitrary: n) (simp_all add: step try_bind_def split: sum.split)
  then show ?thesis by (auto simp: validateSnapshotLimits_def valid_snapshot_def Let_def split: option.split)
qed

lemma limits_chunks:
  assumes "validateSnapshotLimits snap limits = Inr ()" and "sn_Chunks snap = Some chunks"
  shows "\<not> (MaxChunks limits > 0 \<and> int (length chunks) > MaxChunks limits)"
  using assms by (auto simp: validateSnapshotLimits_def Let_def split: if_splits)

lemma snapshot_read_back:
  assumes "sn_Chunks snap = Some chunks" and "snapshot_in_range snap" and "validateSnapshotLimits snap limits = Inr ()"
    and "content = encodeSnapshot nil_ports (snapshotEnvelopeFromSnapshot snap)"
    and "int (length content) < 2 ^ 63" and "MaxBytes limits > 0 \<longrightarrow> int (length content) \<le> MaxBytes limits"
  shows "LoadSnapshotWithLimits (int (length content)) content limits = Inr (valid_snapshot snap)"
proof -
  let ?ms = "snapshot_members nil_ports snap"
  have doc: "json_text content = Some (JObj ?ms)" unfolding assms(4) by (rule reads_text [OF encoded_reads])
  have ends: "hd content = CHR ''{''" "last content = CHR ''}''" "content \<noteq> []"
    unfolding assms(4) encoded_sections by simp_all
  have trim: "trim_space content = content" using ends by (intro trim_space_ends) (simp_all add: is_print_def)
  have schema: "validateSnapshotSchema content =
      Inr \<lparr>preScanPresent = hasPreScanPingState (sn_PreScanPing snap), chunksPresent = True, chunkCount = length chunks\<rparr>"
    using schema_scan_document [OF doc] snapshot_members_known [OF assms(1), of nil_ports]
    by (auto simp: accepted_def split: sum.splits)
  have psp: "prescan_of (if hasPreScanPingState (sn_PreScanPing snap) then
          Some \<lparr>pe_Enabled = Some (ps_Enabled (sn_PreScanPing snap)), pe_TimeoutMS = Some (ps_TimeoutMS (sn_PreScanPing snap)),
             pe_UnreachableIPv4U32 = ps_UnreachableIPv4U32 (sn_PreScanPing snap)\<rparr> else None) = Inr (sn_PreScanPing snap)"
    by (cases "sn_PreScanPing snap") (auto simp: prescan_of_def hasPreScanPingState_def no_prescan_def)
  have snap: "\<lparr>sn_Chunks = Some (map valid_chunk chunks), sn_PreScanPing = sn_PreScanPing snap,
      sn_Output = map_option valid_output (sn_Output snap), sn_RichDenyExcluded = sn_RichDenyExcluded snap,
      sn_TargetExpansion = sn_TargetExpansion snap, sn_TargetSemanticsVersion = sn_TargetSemanticsVersion snap,
      sn_BasicPortFallback = map to_valid (sn_BasicPortFallback snap)\<rparr> = valid_snapshot snap"
    using assms(1) by (cases snap) (simp add: valid_snapshot_def)
  have "load_envelope content limits = Inr (valid_snapshot snap)"
    using limits_chunks [OF assms(3,1)] psp valid_limits [of snap limits] assms(3)
    by (auto simp: load_envelope_def schema doc dec_snapshot_members [OF assms(2,1)] Let_def snap)
  moreover obtain q where "content = CHR ''{'' # q" using ends by (cases content) auto
  moreover from this trim have "trim_space (CHR ''{'' # q) = CHR ''{'' # q" by simp
  ultimately show ?thesis
    using assms(5,6) by (auto simp: LoadSnapshotWithLimits_def Let_def)
qed

text \<open>Property C8. A saved snapshot loads as it was saved. For every snapshot with a (possibly empty)
  list of chunks that fits the limits, loading the bytes the encoder writes gives back the
  snapshot: every chunk with its cursors, the ping section, the output paths, the expansion
  limits, the version and the fallback ports. Strings come back with bytes that are not valid
  UTF-8 replaced, so a snapshot of valid strings comes back unchanged.\<close>

theorem snapshot_round_trip:
  assumes "sn_Chunks snap = Some chunks" and "snapshot_in_range snap" and "validateSnapshotLimits snap limits = Inr ()"
    and "content = encodeSnapshot nil_ports (snapshotEnvelopeFromSnapshot snap)"
    and "int (length content) < 2 ^ 63" and "MaxBytes limits > 0 \<longrightarrow> int (length content) \<le> MaxBytes limits"
  shows "LoadSnapshotWithLimits (int (length content)) content limits = Inr (valid_snapshot snap)"
  by (rule snapshot_read_back [OF assms])


definition sample_snapshot :: Snapshot where
  "sample_snapshot =
     \<lparr>sn_Chunks = Some [\<lparr>chunkCIDR = ''10.0.0.0/24'', chunkCIDRName = ''a<b'', Ports = [''80/tcp'', ''443/tcp''],
         NextIndex = 3, ScannedCount = 3, TotalCount = 12, Status = ''pending''\<rparr>],
      sn_PreScanPing = \<lparr>ps_Enabled = True, ps_TimeoutMS = 0, ps_UnreachableIPv4U32 = [1, 77]\<rparr>,
      sn_Output = Some \<lparr>ScanPath = ''x'', OpenPath = ''y''\<rparr>, sn_RichDenyExcluded = True,
      sn_TargetExpansion = Some \<lparr>te_CandidateCount = 5, te_CandidateLimit = -1, te_MemoryLimitGB = 3\<rparr>,
      sn_TargetSemanticsVersion = 1, sn_BasicPortFallback = [''80/tcp'']\<rparr>"

theorem snapshot_round_trip_witness:
  "\<exists>content. content = encodeSnapshot (\<lambda>_. True) (snapshotEnvelopeFromSnapshot sample_snapshot) \<and>
    LoadSnapshotWithLimits (int (length content)) content DefaultSnapshotLimits = Inr (valid_snapshot sample_snapshot)"
proof -
  define content where "content = encodeSnapshot (\<lambda>_. True) (snapshotEnvelopeFromSnapshot sample_snapshot)"
  have len: "length content < 1000" unfolding content_def by code_simp
  have range: "snapshot_in_range sample_snapshot"
    by (simp add: snapshot_in_range_def sample_snapshot_def chunk_in_range_def int64_def)
  have limits: "validateSnapshotLimits sample_snapshot DefaultSnapshotLimits = Inr ()"
    by (simp add: validateSnapshotLimits_def sample_snapshot_def DefaultSnapshotLimits_def port_limit_step_def Let_def)
  have chunks: "sn_Chunks sample_snapshot = Some (the (sn_Chunks sample_snapshot))" by (simp add: sample_snapshot_def)
  have "LoadSnapshotWithLimits (int (length content)) content DefaultSnapshotLimits = Inr (valid_snapshot sample_snapshot)"
    using len by (intro snapshot_round_trip [OF chunks range limits content_def]) (simp_all add: DefaultSnapshotLimits_def)
  then show ?thesis unfolding content_def by blast
qed


end
