(* ===== verification/SnapshotSave.thy ===== *)
theory SnapshotSave
  imports SnapshotRound
begin

text \<open>
  The writing half of \<open>pkg/state/state.go\<close>: a snapshot goes to a temporary file beside its
  destination, which is renamed over the destination when everything before succeeded.

  The file system is a map from paths to contents and modes. Every operation takes its outcome
  from a script (\<open>snapshotFileOps\<close>), so the theorems hold for every pattern of failures. What is
  assumed of the operating system is in the model of each step: \<open>CreateTemp\<close> makes a new file, a
  failing write may have written a part of its bytes, and a rename either replaces the
  destination or fails and leaves both files. \<open>bufio.Writer\<close> passes the text on in pieces; how it
  cuts them is a parameter.
\<close>

section \<open>Files\<close>

type_synonym files = "string \<rightharpoonup> string \<times> nat"

datatype stat_result = StatFound | StatNotExist | StatFailed

text \<open>A write script entry \<open>Some n\<close> is a write that fails after \<open>n\<close> bytes; \<open>None\<close> succeeds.\<close>

record snapshotFileOps =
  op_stat_works :: bool
  op_createTemp :: bool
  op_chmod :: bool
  op_write :: "nat option list"
  op_sync :: bool
  op_closeFile :: bool
  op_replace :: bool
  op_remove :: bool

datatype save_stage = CreateStage | ModeStage | WriteStage | LimitStage int int | SyncStage | CloseStage | ReplaceStage

datatype previous_snapshot = PreviousUsable | NoPrevious | PreviousUnknown

datatype save_error =
    SaveLimits load_error
  | SaveFailed previous_snapshot save_stage bool  \<comment> \<open>and whether the temporary file was left behind\<close>

section \<open>Writing the text\<close>

text \<open>\<open>snapshotFileWriter.Write\<close>: the bytes written and whether the write succeeded\<close>

definition file_Write :: "nat option list \<Rightarrow> string \<Rightarrow> string \<times> bool \<times> nat option list" where
  "file_Write script data = (case script of
       Some n # rest \<Rightarrow> (take n data, False, rest)
     | None # rest \<Rightarrow> (data, True, rest)
     | [] \<Rightarrow> (data, True, []))"

text \<open>\<open>snapshotLimitWriter.Write\<close> after \<open>n\<close> bytes\<close>

definition limit_Write :: "int \<Rightarrow> int \<Rightarrow> nat option list \<Rightarrow> string \<Rightarrow> string \<times> save_stage option \<times> nat option list" where
  "limit_Write limit n script data =
     (let remaining = limit - n;
          data = (if int (length data) > remaining then take (nat (remaining + 1)) data else data) in
      case file_Write script data of (written, ok, rest) \<Rightarrow>
        if \<not> ok then (written, Some WriteStage, rest)
        else if n + int (length written) > limit
        then (written, Some (LimitStage (n + int (length written)) limit), rest)
        else (written, None, rest))"

definition stage_Write :: "int \<Rightarrow> int \<Rightarrow> nat option list \<Rightarrow> string \<Rightarrow> string \<times> save_stage option \<times> nat option list" where
  "stage_Write maxBytes n script data =
     (if maxBytes > 0 then limit_Write maxBytes n script data
      else (case file_Write script data of (written, ok, rest) \<Rightarrow> (written, if ok then None else Some WriteStage, rest)))"

text \<open>The pieces that the buffer passes on; it passes nothing on after a failed write.\<close>

primrec write_pieces :: "int \<Rightarrow> nat option list \<Rightarrow> string \<Rightarrow> string list \<Rightarrow> string \<times> save_stage option" where
  "write_pieces maxBytes script before [] = (before, None)"
| "write_pieces maxBytes script before (p # ps) =
     (case stage_Write maxBytes (int (length before)) script p of (written, err, rest) \<Rightarrow>
        (case err of Some e \<Rightarrow> (before @ written, Some e)
         | None \<Rightarrow> write_pieces maxBytes rest (before @ written) ps))"

section \<open>Saving\<close>

definition destinationMode :: "files \<Rightarrow> snapshotFileOps \<Rightarrow> string \<Rightarrow> nat \<Rightarrow> nat" where
  "destinationMode fs ops path fallback =
     (if \<not> op_stat_works ops then fallback
      else case fs path of None \<Rightarrow> fallback | Some (_, mode) \<Rightarrow> mode)"

definition snapshotFileMode :: nat where
  "snapshotFileMode = 420"

text \<open>The deferred removal of the temporary file after a failure\<close>

definition discard :: "snapshotFileOps \<Rightarrow> files \<Rightarrow> string \<Rightarrow> save_stage \<Rightarrow> (save_stage \<times> bool) option \<times> files" where
  "discard ops fs tmp stage =
     (if op_remove ops then (Some (stage, False), fs(tmp := None)) else (Some (stage, True), fs))"

definition writeSnapshotViaTempRename ::
  "snapshotFileOps \<Rightarrow> (string \<Rightarrow> string list) \<Rightarrow> string \<Rightarrow> files \<Rightarrow> string \<Rightarrow> string \<Rightarrow> SnapshotLimits \<Rightarrow> nat \<Rightarrow>
   (save_stage \<times> bool) option \<times> files" where
  "writeSnapshotViaTempRename ops pieces tmp fs path content limits perm =
     (if \<not> op_createTemp ops then (Some (CreateStage, False), fs)
      else
        let fs1 = fs(tmp \<mapsto> ([], 384)); mode = destinationMode fs1 ops path perm in
        if \<not> op_chmod ops then discard ops fs1 tmp ModeStage
        else case write_pieces (MaxBytes limits) (op_write ops) [] (pieces content) of (written, err) \<Rightarrow>
          let fs2 = fs1(tmp \<mapsto> (written, mode)) in
          case err of Some e \<Rightarrow> discard ops fs2 tmp e
          | None \<Rightarrow>
            if \<not> op_sync ops then discard ops fs2 tmp SyncStage
            else if \<not> op_closeFile ops then discard ops fs2 tmp CloseStage
            else if \<not> op_replace ops then discard ops fs2 tmp ReplaceStage
            else (None, (fs2(path := fs2 tmp))(tmp := None)))"

definition previous_stat :: "snapshotFileOps \<Rightarrow> files \<Rightarrow> string \<Rightarrow> stat_result" where
  "previous_stat ops fs path = (if \<not> op_stat_works ops then StatFailed else if fs path = None then StatNotExist else StatFound)"

definition saveSnapshotWithFileOps ::
  "snapshotFileOps \<Rightarrow> (string \<Rightarrow> string list) \<Rightarrow> (Chunk \<Rightarrow> bool) \<Rightarrow> string \<Rightarrow> files \<Rightarrow> string \<Rightarrow> Snapshot \<Rightarrow> SnapshotLimits \<Rightarrow>
   save_error option \<times> files" where
  "saveSnapshotWithFileOps ops pieces nil_ports tmp fs path snap limits =
     (case validateSnapshotLimits snap limits of Inl e \<Rightarrow> (Some (SaveLimits e), fs)
      | Inr _ \<Rightarrow>
        (case writeSnapshotViaTempRename ops pieces tmp fs path (encodeSnapshot nil_ports (snapshotEnvelopeFromSnapshot snap))
            limits snapshotFileMode of
           (None, fs') \<Rightarrow> (None, fs')
         | (Some (stage, left), fs') \<Rightarrow>
             (Some (SaveFailed (case previous_stat ops fs path of StatFound \<Rightarrow> PreviousUsable
                | StatNotExist \<Rightarrow> NoPrevious | StatFailed \<Rightarrow> PreviousUnknown) stage left), fs')))"

section \<open>What is written\<close>

lemma file_Write_prefix: "file_Write script data = (w, ok, rest) \<Longrightarrow> prefix w data \<and> (ok \<longrightarrow> w = data)"
  by (auto simp: file_Write_def take_is_prefix split: list.splits option.splits)

lemma stage_Write_prefix:
  assumes "stage_Write m n script data = (w, err, rest)"
  shows "prefix w data" "err = None \<Longrightarrow> w = data"
    "m > 0 \<Longrightarrow> n \<le> m \<Longrightarrow> int (length w) + n \<le> m + 1"
    "m > 0 \<Longrightarrow> err = None \<Longrightarrow> n + int (length data) \<le> m"
proof -
  define data' where "data' = (if int (length data) > m - n then take (nat (m - n + 1)) data else data)"
  obtain v ok q where f: "file_Write script (if m > 0 then data' else data) = (v, ok, q)" by (metis prod_cases3)
  have w: "w = v" "err = None \<Longrightarrow> ok" "m > 0 \<Longrightarrow> err = None \<Longrightarrow> n + int (length v) \<le> m"
    using assms f by (auto simp: stage_Write_def limit_Write_def data'_def Let_def split: if_splits prod.splits)
  have p: "prefix v (if m > 0 then data' else data)" and eq: "ok \<Longrightarrow> v = (if m > 0 then data' else data)"
    using file_Write_prefix [OF f] by blast+
  have p': "prefix data' data" by (simp add: data'_def take_is_prefix)
  show "prefix w data" using p p' w(1) by (auto split: if_splits intro: prefix_order.trans)
  show bound: "int (length w) + n \<le> m + 1" if "m > 0" "n \<le> m"
  proof -
    have "int (length data') \<le> m - n + 1" using that by (auto simp: data'_def)
    then show ?thesis using prefix_length_le [OF p] that w(1) by simp
  qed
  show full: "w = data" if "err = None"
  proof (cases "m > 0")
    case True
    have "v = data'" using eq w(2) that True by simp
    then have "n + int (length data') \<le> m" using w(3) that True by simp
    then have "data' = data" by (auto simp: data'_def split: if_splits)
    then show ?thesis using \<open>v = data'\<close> w(1) by simp
  next
    case False
    then show ?thesis using eq w(1,2) that by simp
  qed
  show "n + int (length data) \<le> m" if "m > 0" "err = None"
    using w(3) that full w(1) by simp
qed

lemma write_pieces_written:
  assumes "write_pieces m script before ps = (w, err)" and "m > 0 \<longrightarrow> int (length before) \<le> m"
  shows "prefix w (before @ concat ps) \<and> (err = None \<longrightarrow> w = before @ concat ps) \<and>
    (m > 0 \<longrightarrow> int (length w) \<le> m + 1) \<and> (m > 0 \<and> err = None \<longrightarrow> int (length w) \<le> m)"
  using assms
proof (induction ps arbitrary: script before)
  case (Cons p ps)
  obtain v e q where s: "stage_Write m (int (length before)) script p = (v, e, q)" by (metis prod_cases3)
  note w = stage_Write_prefix [OF s]
  show ?case
  proof (cases e)
    case (Some x)
    then have "w = before @ v" "err = Some x" using Cons.prems(1) s by auto
    then show ?thesis using w(1,3) Cons.prems(2) by (auto simp: prefix_def)
  next
    case None
    have v: "v = p" using w(2) None by simp
    have "write_pieces m q (before @ p) ps = (w, err)" using Cons.prems(1) s None v by simp
    moreover have "m > 0 \<longrightarrow> int (length (before @ p)) \<le> m" using w(4) None by auto
    ultimately show ?thesis using Cons.IH [of q "before @ p"] by auto
  qed
qed auto

lemma write_pieces_succeeds:
  assumes "\<forall>x \<in> set script. x = None" and "m > 0 \<longrightarrow> int (length (before @ concat ps)) \<le> m"
  shows "write_pieces m script before ps = (before @ concat ps, None)"
  using assms
proof (induction ps arbitrary: script before)
  case (Cons p ps)
  have f: "file_Write script d = (d, True, tl script)" for d
    using Cons.prems(1) by (cases script) (auto simp: file_Write_def)
  have "stage_Write m (int (length before)) script p = (p, None, tl script)"
    using Cons.prems(2) by (auto simp: stage_Write_def limit_Write_def Let_def f)
  moreover have "\<forall>x \<in> set (tl script). x = None" using Cons.prems(1) by (cases script) auto
  ultimately show ?case using Cons.IH [of "tl script" "before @ p"] Cons.prems(2) by simp
qed simp

section \<open>All or nothing\<close>

text \<open>The outcome of a save: either the destination holds the whole text, or it is as it was, and
  what may be left beside it is a reported part of the text.\<close>

definition save_outcome :: "files \<Rightarrow> string \<Rightarrow> string \<Rightarrow> string \<Rightarrow> nat \<Rightarrow> int \<Rightarrow> (save_stage \<times> bool) option \<times> files \<Rightarrow> bool" where
  "save_outcome fs path tmp content mode limit r \<longleftrightarrow>
     (case r of
        (None, fs') \<Rightarrow> fs' = fs(path \<mapsto> (content, mode)) \<and> (limit > 0 \<longrightarrow> int (length content) \<le> limit)
      | (Some (stage, left), fs') \<Rightarrow>
          if left then \<exists>part m. fs' = fs(tmp \<mapsto> (part, m)) \<and> prefix part content \<and> (limit > 0 \<longrightarrow> int (length part) \<le> limit + 1)
          else fs' = fs)"

lemma discard_outcome:
  assumes "fs tmp = None" and "prefix part content" and "limit > 0 \<longrightarrow> int (length part) \<le> limit + 1"
  shows "save_outcome fs path tmp content mode limit (discard ops (fs(tmp \<mapsto> (part, m))) tmp stage)"
  using assms by (auto simp: save_outcome_def discard_def fun_upd_idem)

lemma write_outcome:
  assumes "concat (pieces content) = content" and "tmp \<noteq> path" and "fs tmp = None"
  shows "save_outcome fs path tmp content (destinationMode (fs(tmp \<mapsto> ([], 384))) ops path perm) (MaxBytes limits)
    (writeSnapshotViaTempRename ops pieces tmp fs path content limits perm)"
proof -
  let ?L = "MaxBytes limits" and ?mode = "destinationMode (fs(tmp \<mapsto> ([], 384))) ops path perm"
  obtain w err where run: "write_pieces ?L (op_write ops) [] (pieces content) = (w, err)" by fastforce
  have w: "prefix w content" "err = None \<longrightarrow> w = content" "?L > 0 \<longrightarrow> int (length w) \<le> ?L + 1" "?L > 0 \<and> err = None \<longrightarrow> int (length w) \<le> ?L"
    using write_pieces_written [OF run] assms(1) by auto
  have first: "save_outcome fs path tmp content ?mode ?L (discard ops (fs(tmp \<mapsto> ([], 384))) tmp ModeStage)"
    by (rule discard_outcome) (use assms(3) in simp_all)
  have later: "save_outcome fs path tmp content ?mode ?L (discard ops (fs(tmp \<mapsto> (w, ?mode))) tmp stage)" for stage
    by (rule discard_outcome) (use assms(3) w(1,3) in simp_all)
  have same: "(fs(tmp \<mapsto> ([], 384)))(tmp \<mapsto> (w, ?mode)) = fs(tmp \<mapsto> (w, ?mode))" by simp
  have moved: "(fs(path \<mapsto> x))(tmp := None) = fs(path \<mapsto> x)" for x
    using assms(2,3) by (auto simp: fun_eq_iff)
  show ?thesis
  proof (cases "op_createTemp ops \<and> op_chmod ops \<and> err = None \<and> op_sync ops \<and> op_closeFile ops \<and> op_replace ops")
    case True
    then have "writeSnapshotViaTempRename ops pieces tmp fs path content limits perm = (None, fs(path \<mapsto> (w, ?mode)))"
      using run by (simp add: writeSnapshotViaTempRename_def Let_def same moved)
    then show ?thesis using True w by (simp add: save_outcome_def)
  next
    case False
    then show ?thesis
      using run first later
      by (cases err) (auto simp: writeSnapshotViaTempRename_def Let_def same save_outcome_def [of _ _ _ _ _ _ "(Some (CreateStage, False), fs)"])
  qed
qed

text \<open>Property C9. Saving a snapshot is all or nothing for every pattern of failing file operations,
  partial writes and sizes: it succeeds only with the destination holding the whole text, within
  the size limit and with the mode of the file it replaced, and no temporary file; when it fails
  the destination is as it was, and a temporary file is left, holding a part of the text of at
  most one byte beyond the limit, only if its removal failed and the error says so. No other
  file is touched.\<close>

theorem save_all_or_nothing:
  assumes "saveSnapshotWithFileOps ops pieces nil_ports tmp fs path snap limits = (err, fs')"
    and "content = encodeSnapshot nil_ports (snapshotEnvelopeFromSnapshot snap)"
    and "concat (pieces content) = content" and "tmp \<noteq> path" and "fs tmp = None"
  shows "(\<forall>p. p \<noteq> path \<and> p \<noteq> tmp \<longrightarrow> fs' p = fs p) \<and>
    (err = None \<longrightarrow> (\<exists>mode. fs' path = Some (content, mode) \<and>
        (\<forall>old m. op_stat_works ops \<and> fs path = Some (old, m) \<longrightarrow> mode = m)) \<and> fs' tmp = None \<and>
      (MaxBytes limits > 0 \<longrightarrow> int (length content) \<le> MaxBytes limits)) \<and>
    (err \<noteq> None \<longrightarrow> fs' path = fs path \<and>
      (\<forall>part m. fs' tmp = Some (part, m) \<longrightarrow> (\<exists>prev stage. err = Some (SaveFailed prev stage True)) \<and>
        prefix part content \<and> (MaxBytes limits > 0 \<longrightarrow> int (length part) \<le> MaxBytes limits + 1)))"
proof (cases "validateSnapshotLimits snap limits")
  case (Inl e)
  then have "err = Some (SaveLimits e)" "fs' = fs" using assms(1) by (auto simp: saveSnapshotWithFileOps_def)
  then show ?thesis using assms(5) by simp
next
  case (Inr u)
  let ?mode = "destinationMode (fs(tmp \<mapsto> ([], 384))) ops path snapshotFileMode"
  obtain r files where run: "writeSnapshotViaTempRename ops pieces tmp fs path content limits snapshotFileMode = (r, files)"
    by fastforce
  have out: "save_outcome fs path tmp content ?mode (MaxBytes limits) (r, files)"
    using write_outcome [of pieces content tmp path fs ops snapshotFileMode limits] assms(3-5) run by simp
  have save: "saveSnapshotWithFileOps ops pieces nil_ports tmp fs path snap limits =
      (case r of None \<Rightarrow> (None, files) | Some (stage, left) \<Rightarrow>
        (Some (SaveFailed (case previous_stat ops fs path of StatFound \<Rightarrow> PreviousUsable
           | StatNotExist \<Rightarrow> NoPrevious | StatFailed \<Rightarrow> PreviousUnknown) stage left), files))"
    using Inr run by (simp add: saveSnapshotWithFileOps_def assms(2) split: option.split)
  show ?thesis
  proof (cases r)
    case None
    then have "err = None" "fs' = fs(path \<mapsto> (content, ?mode))" "MaxBytes limits > 0 \<longrightarrow> int (length content) \<le> MaxBytes limits"
      using assms(1) save out by (auto simp: save_outcome_def)
    then show ?thesis using assms(4,5) by (auto simp: destinationMode_def)
  next
    case (Some f)
    obtain stage left where f: "f = (stage, left)" by (cases f)
    then have err: "err = Some (SaveFailed (case previous_stat ops fs path of StatFound \<Rightarrow> PreviousUsable
        | StatNotExist \<Rightarrow> NoPrevious | StatFailed \<Rightarrow> PreviousUnknown) stage left)" "fs' = files"
      using assms(1) save Some by auto
    show ?thesis
    proof (cases left)
      case True
      then obtain part m where "files = fs(tmp \<mapsto> (part, m))" "prefix part content"
        "MaxBytes limits > 0 \<longrightarrow> int (length part) \<le> MaxBytes limits + 1"
        using out Some f by (auto simp: save_outcome_def)
      then show ?thesis using err True assms(4) by auto
    next
      case False
      then have "files = fs" using out Some f by (simp add: save_outcome_def)
      then show ?thesis using err assms(5) by simp
    qed
  qed
qed

text \<open>What a later run finds under the path of the snapshot\<close>

definition load_file :: "files \<Rightarrow> string \<Rightarrow> SnapshotLimits \<Rightarrow> (load_error + Snapshot) option" where
  "load_file fs path limits = (case fs path of None \<Rightarrow> None
     | Some (content, mode) \<Rightarrow> Some (LoadSnapshotWithLimits (int (length content)) content limits))"

lemma saved_snapshot_loads:
  assumes "saveSnapshotWithFileOps ops pieces nil_ports tmp fs path snap limits = (err, fs')"
    and "content = encodeSnapshot nil_ports (snapshotEnvelopeFromSnapshot snap)"
    and "concat (pieces content) = content" and "tmp \<noteq> path" and "fs tmp = None"
    and "sn_Chunks snap = Some chunks" and "snapshot_in_range snap" and "int (length content) < 2 ^ 63"
  shows "load_file fs' path limits = (if err = None then Some (Inr (valid_snapshot snap)) else load_file fs path limits) \<and>
    (validateSnapshotLimits snap limits = Inr () \<and> (MaxBytes limits > 0 \<longrightarrow> int (length content) \<le> MaxBytes limits) \<and>
     op_createTemp ops \<and> op_chmod ops \<and> (\<forall>x \<in> set (op_write ops). x = None) \<and> op_sync ops \<and> op_closeFile ops \<and> op_replace ops \<longrightarrow>
     err = None)"
proof -
  let ?mode = "destinationMode (fs(tmp \<mapsto> ([], 384))) ops path snapshotFileMode"
  obtain r files where run: "writeSnapshotViaTempRename ops pieces tmp fs path content limits snapshotFileMode = (r, files)"
    by fastforce
  have out: "save_outcome fs path tmp content ?mode (MaxBytes limits) (r, files)"
    using write_outcome [of pieces content tmp path fs ops snapshotFileMode limits] assms(3-5) run by simp
  have save: "(err, fs') = (case validateSnapshotLimits snap limits of Inl e \<Rightarrow> (Some (SaveLimits e), fs)
      | Inr _ \<Rightarrow> (case (r, files) of (None, fs') \<Rightarrow> (None, fs')
         | (Some (stage, left), fs') \<Rightarrow>
             (Some (SaveFailed (case previous_stat ops fs path of StatFound \<Rightarrow> PreviousUsable
                | StatNotExist \<Rightarrow> NoPrevious | StatFailed \<Rightarrow> PreviousUnknown) stage left), fs')))"
    using assms(1) unfolding saveSnapshotWithFileOps_def assms(2) [symmetric] run by simp
  have new: "load_file fs' path limits = Some (Inr (valid_snapshot snap))" if "err = None"
  proof -
    have "validateSnapshotLimits snap limits = Inr ()" "r = None" "fs' = files"
      using save that by (auto split: sum.splits option.splits prod.splits)
    moreover from this have "fs' path = Some (content, ?mode)" "MaxBytes limits > 0 \<longrightarrow> int (length content) \<le> MaxBytes limits"
      using out by (simp_all add: save_outcome_def)
    ultimately show ?thesis using snapshot_read_back [OF assms(6,7) _ assms(2,8)] by (simp add: load_file_def)
  qed
  have old: "load_file fs' path limits = load_file fs path limits" if failed: "err \<noteq> None"
  proof (cases "fs' = fs")
    case False
    then obtain stage left where "r = Some (stage, left)" "fs' = files"
      using save failed by (auto split: sum.splits option.splits prod.splits)
    then have "fs' path = fs path" using out assms(4) by (auto simp: save_outcome_def split: if_splits)
    then show ?thesis by (simp add: load_file_def)
  qed simp
  have "err = None" if a: "validateSnapshotLimits snap limits = Inr ()" "MaxBytes limits > 0 \<longrightarrow> int (length content) \<le> MaxBytes limits"
    "op_createTemp ops" "op_chmod ops" "\<forall>x \<in> set (op_write ops). x = None" "op_sync ops" "op_closeFile ops" "op_replace ops"
  proof -
    have "write_pieces (MaxBytes limits) (op_write ops) [] (pieces content) = (content, None)"
      using write_pieces_succeeds [OF a(5), of "MaxBytes limits" "[]" "pieces content"] a(2) assms(3) by simp
    then have "r = None" using run a by (simp add: writeSnapshotViaTempRename_def Let_def)
    then show ?thesis using save a(1) by simp
  qed
  then show ?thesis using new old by auto
qed

text \<open>Property C7. A resume never meets a damaged snapshot. After a save, whatever failed in it, the
  path loads either the new snapshot or exactly what it loaded before, and when no operation
  fails and the text fits the limit it is the new one.\<close>

theorem save_then_load:
  assumes "saveSnapshotWithFileOps ops pieces nil_ports tmp fs path snap limits = (err, fs')"
    and "content = encodeSnapshot nil_ports (snapshotEnvelopeFromSnapshot snap)"
    and "concat (pieces content) = content" and "tmp \<noteq> path" and "fs tmp = None"
    and "sn_Chunks snap = Some chunks" and "snapshot_in_range snap" and "int (length content) < 2 ^ 63"
  shows "load_file fs' path limits = (if err = None then Some (Inr (valid_snapshot snap)) else load_file fs path limits) \<and>
    (validateSnapshotLimits snap limits = Inr () \<and> (MaxBytes limits > 0 \<longrightarrow> int (length content) \<le> MaxBytes limits) \<and>
     op_createTemp ops \<and> op_chmod ops \<and> (\<forall>x \<in> set (op_write ops). x = None) \<and> op_sync ops \<and> op_closeFile ops \<and> op_replace ops \<longrightarrow>
     err = None)"
  by (rule saved_snapshot_loads [OF assms])

definition working_ops :: snapshotFileOps where
  "working_ops = \<lparr>op_stat_works = True, op_createTemp = True, op_chmod = True, op_write = [], op_sync = True,
     op_closeFile = True, op_replace = True, op_remove = True\<rparr>"

definition failing_ops :: snapshotFileOps where
  "failing_ops = working_ops\<lparr>op_write := [None, Some 7], op_remove := False\<rparr>"

definition in_two :: "string \<Rightarrow> string list" where
  "in_two s = [take 100 s, drop 100 s]"

lemma in_two_concat: "concat (in_two s) = s"
  by (simp add: in_two_def)

theorem save_all_or_nothing_witness:
  "\<exists>err fs'. saveSnapshotWithFileOps failing_ops in_two (\<lambda>_. True) ''t'' [''s'' \<mapsto> (''{}'', 384)] ''s'' sample_snapshot DefaultSnapshotLimits = (err, fs') \<and>
    fs' ''other'' = None"
proof -
  obtain err fs' where "saveSnapshotWithFileOps failing_ops in_two (\<lambda>_. True) ''t'' [''s'' \<mapsto> (''{}'', 384)] ''s'' sample_snapshot DefaultSnapshotLimits = (err, fs')"
    by fastforce
  then show ?thesis using save_all_or_nothing [of failing_ops in_two "\<lambda>_. True" "''t''" "[''s'' \<mapsto> (''{}'', 384)]" "''s''" sample_snapshot
        DefaultSnapshotLimits err fs' "encodeSnapshot (\<lambda>_. True) (snapshotEnvelopeFromSnapshot sample_snapshot)"] in_two_concat
    by simp
qed

theorem save_then_load_witness:
  "\<exists>fs'. saveSnapshotWithFileOps working_ops in_two (\<lambda>_. True) ''t'' Map.empty ''s'' sample_snapshot DefaultSnapshotLimits = (None, fs') \<and>
    load_file fs' ''s'' DefaultSnapshotLimits = Some (Inr (valid_snapshot sample_snapshot))"
proof -
  define content where "content = encodeSnapshot (\<lambda>_. True) (snapshotEnvelopeFromSnapshot sample_snapshot)"
  have len: "length content < 1000" unfolding content_def by code_simp
  obtain err fs' where run: "saveSnapshotWithFileOps working_ops in_two (\<lambda>_. True) ''t'' Map.empty ''s'' sample_snapshot DefaultSnapshotLimits = (err, fs')"
    by fastforce
  have ok: "validateSnapshotLimits sample_snapshot DefaultSnapshotLimits = Inr ()" "snapshot_in_range sample_snapshot"
    by (simp_all add: validateSnapshotLimits_def sample_snapshot_def DefaultSnapshotLimits_def port_limit_step_def Let_def
        snapshot_in_range_def chunk_in_range_def int64_def)
  have chunks: "sn_Chunks sample_snapshot = Some (the (sn_Chunks sample_snapshot))" by (simp add: sample_snapshot_def)
  have "err = None \<and> load_file fs' ''s'' DefaultSnapshotLimits = Some (Inr (valid_snapshot sample_snapshot))"
    using save_then_load [of working_ops in_two "\<lambda>_. True" "''t''" Map.empty "''s''" sample_snapshot DefaultSnapshotLimits err fs'
        content "the (sn_Chunks sample_snapshot)"] run content_def in_two_concat [of content] chunks ok len
    by (simp add: working_ops_def DefaultSnapshotLimits_def)
  then show ?thesis using run by blast
qed

end
