(* ===== verification/PrePing.thy ===== *)
theory PrePing
  imports ChunkLifecycle ResultOutput
begin

text \<open>
  The pre-ping step: \<open>pkg/scanapp/pre_scan_ping.go\<close> and \<open>pre_ping.go\<close>, the unreachable-results
  writer (\<open>pkg/writer/unreachable_writer.go\<close>, \<open>output_files.go\<close>) and \<open>parseUnreachableBlocklist\<close>
  of \<open>bucketgen.go\<close>, which reads that file back. Theory \<open>PingPool\<close> has the concurrent checks.
\<close>

section \<open>The predicate of a blocklist\<close>

definition sortedUniqueIPv4U32 :: "32 word list \<Rightarrow> 32 word list" where
  "sortedUniqueIPv4U32 vals = sort (remdups vals)"

definition reachablePredicate :: "32 word list \<Rightarrow> string \<Rightarrow> bool" where
  "reachablePredicate sortedUnreachable =
     (let blocked = sortedUniqueIPv4U32 sortedUnreachable in
      (\<lambda>ip. case parse_ip4 (trim_space ip) of None \<Rightarrow> True
        | Some v4 \<Rightarrow>
            (let idx = sort_search (length blocked) (\<lambda>i. if i < length blocked then be_u32 v4 \<le> blocked ! i else True)
             in idx \<ge> length blocked \<or> blocked ! idx \<noteq> be_u32 v4)))"

lemma sortedUnique_props [simp]:
  "set (sortedUniqueIPv4U32 vals) = set vals" "sorted (sortedUniqueIPv4U32 vals)" "distinct (sortedUniqueIPv4U32 vals)"
  by (simp_all add: sortedUniqueIPv4U32_def)

lemma sort_search_member:
  fixes x :: "32 word"
  assumes "sorted xs"
  defines "idx \<equiv> sort_search (length xs) (\<lambda>i. if i < length xs then x \<le> xs ! i else True)"
  shows "idx \<ge> length xs \<or> xs ! idx \<noteq> x \<longleftrightarrow> x \<notin> set xs"
proof -
  let ?p = "\<lambda>i. if i < length xs then x \<le> xs ! i else True"
  have mono: "?p l" if "k \<le> l" "?p k" for k l
  proof (cases "l < length xs")
    case True
    have "x \<le> xs ! k" using that True by simp
    also have "xs ! k \<le> xs ! l" by (rule sorted_nth_mono [OF assms(1) that(1) True])
    finally show ?thesis by simp
  qed simp
  have spec: "\<not> ?p k" if "k < idx" for k
    using that unfolding idx_def by (rule sort_search_spec(2) [rotated]) (rule mono)
  have spec2: "?p k" if "idx \<le> k" "k < length xs" for k
    using that unfolding idx_def by (rule sort_search_spec(3) [rotated 1]) (rule mono)
  show ?thesis
  proof
    assume l: "idx \<ge> length xs \<or> xs ! idx \<noteq> x"
    show "x \<notin> set xs"
    proof
      assume "x \<in> set xs"
      then obtain i where i: "i < length xs" "xs ! i = x" by (auto simp: in_set_conv_nth)
      have "idx \<le> i" using spec [of i] i by (cases "i < idx") auto
      then have len: "idx < length xs" using i by simp
      then have "x \<le> xs ! idx" using spec2 [of idx] by simp
      moreover have "xs ! idx \<le> x" using assms(1) \<open>idx \<le> i\<close> i by (metis sorted_nth_mono)
      ultimately show False using l len by simp
    qed
  next
    assume "x \<notin> set xs"
    then show "idx \<ge> length xs \<or> xs ! idx \<noteq> x" by (meson not_le nth_mem)
  qed
qed

lemma reachablePredicate_iff:
  "reachablePredicate bl ip \<longleftrightarrow> (\<forall>v. parse_ip4 (trim_space ip) = Some v \<longrightarrow> be_u32 v \<notin> set bl)"
proof (cases "parse_ip4 (trim_space ip)")
  case (Some v)
  show ?thesis
    using sort_search_member [OF sortedUnique_props(2), of bl "be_u32 v"]
    by (simp only: reachablePredicate_def Let_def Some option.simps sortedUnique_props(1)) simp
qed (simp add: reachablePredicate_def Let_def)

section \<open>The plan\<close>

record authorizedPreScanPlan =
  richGroups :: "groups option"  \<comment> \<open>\<open>None\<close>: the nil map of basic input\<close>
  richKeys :: "string list"
  basicRows :: "CIDRRecord list"

definition buildAuthorizedPreScanPlan :: "CIDRRecord list \<Rightarrow> group_error + authorizedPreScanPlan" where
  "buildAuthorizedPreScanPlan records =
     (if hasRichRecords records then
        try_bind (buildRichGroupsWithPredicateContext None records None) (\<lambda>gs.
          Inr \<lparr>richGroups = Some gs, richKeys = sort (map fst gs), basicRows = []\<rparr>)
      else Inr \<lparr>richGroups = None, richKeys = [], basicRows = records\<rparr>)"

datatype preping_error =
    PrePingCanceled | PrePingEstimate expand_error | PrePingGroup group_error | PrePingCheck string | PrePingOutput

text \<open>\<open>visit\<close> calls a function that may fail on every target in order. A failure carries the state
  it leaves behind.\<close>

type_synonym 's visited = "(preping_error \<times> 's) + 's"

definition group_or :: "'s \<Rightarrow> group_error + 'a \<Rightarrow> (preping_error \<times> 's) + 'a" where
  "group_or s r = (case r of Inl e \<Rightarrow> Inl (PrePingGroup e, s) | Inr a \<Rightarrow> Inr a)"

definition visit_row :: "('s \<Rightarrow> scanTarget \<Rightarrow> 's visited) \<Rightarrow> 's \<Rightarrow> CIDRRecord \<Rightarrow> 's visited" where
  "visit_row visit s r =
     try_bind (group_or s (basic_key r)) (\<lambda>_.
       try_bind (group_or s (basic_targetsContext None r)) (\<lambda>(c, targets). try_fold visit s targets))"

definition plan_visit :: "authorizedPreScanPlan \<Rightarrow> ('s \<Rightarrow> scanTarget \<Rightarrow> 's visited) \<Rightarrow> 's \<Rightarrow> 's visited" where
  "plan_visit plan visit s =
     (case richGroups plan of
        Some gs \<Rightarrow> try_fold (\<lambda>s key. try_fold visit s (g_targets (get_group gs key))) s (richKeys plan)
      | None \<Rightarrow> try_fold (visit_row visit) s (basicRows plan))"

text \<open>The map from addresses to printed addresses; the last target of an address wins.\<close>

definition unique_step :: "(32 word \<times> string) list \<Rightarrow> scanTarget \<Rightarrow> (32 word \<times> string) list visited" where
  "unique_step uniq t = Inr (AList.update (ipv4ToUint32 (t_ip t)) (t_ip t) uniq)"

definition collectUniqueIPs :: "authorizedPreScanPlan \<Rightarrow> preping_error + string list" where
  "collectUniqueIPs plan =
     (case plan_visit plan unique_step [] of Inl (e, _) \<Rightarrow> Inl e
      | Inr uniq \<Rightarrow> Inr (map snd (sort_key fst uniq)))"

section \<open>The rows of the unreachable targets\<close>

record UnreachableRecord =
  ur_IP :: string
  ur_IPCidr :: string
  ur_Status :: string
  ur_Reason :: string
  ur_FabName :: string
  ur_CIDRName :: string
  ur_ServiceLabel :: string
  ur_Decision :: string
  ur_PolicyID :: string
  ur_ExecutionKey :: string
  ur_SrcIP :: string
  ur_SrcNetworkSegment :: string

definition unreachable_record :: "string \<Rightarrow> scanTarget \<Rightarrow> UnreachableRecord" where
  "unreachable_record reason t =
     \<lparr>ur_IP = t_ip t, ur_IPCidr = t_ipCidr t, ur_Status = ''unreachable'', ur_Reason = reason,
      ur_FabName = tm_fabName (t_meta t), ur_CIDRName = tm_cidrName (t_meta t),
      ur_ServiceLabel = tm_serviceLabel (t_meta t), ur_Decision = tm_decision (t_meta t),
      ur_PolicyID = tm_policyID (t_meta t), ur_ExecutionKey = tm_executionKey (t_meta t),
      ur_SrcIP = tm_srcIP (t_meta t), ur_SrcNetworkSegment = tm_srcNetworkSegment (t_meta t)\<rparr>"

definition richUnreachableRowKey :: "UnreachableRecord \<Rightarrow> string" where
  "richUnreachableRowKey row = ur_IP row @ [CHR 0x00] @ ur_IPCidr row"

definition mergeUnreachableRecord :: "UnreachableRecord \<Rightarrow> UnreachableRecord \<Rightarrow> UnreachableRecord" where
  "mergeUnreachableRecord existing incoming = existing\<lparr>
     ur_FabName := mergeFieldValue (ur_FabName existing) (ur_FabName incoming),
     ur_CIDRName := mergeFieldValue (ur_CIDRName existing) (ur_CIDRName incoming),
     ur_ServiceLabel := mergeFieldValue (ur_ServiceLabel existing) (ur_ServiceLabel incoming),
     ur_Decision := mergeFieldValue (ur_Decision existing) (ur_Decision incoming),
     ur_PolicyID := mergeFieldValue (ur_PolicyID existing) (ur_PolicyID incoming),
     ur_ExecutionKey := mergeFieldValue (ur_ExecutionKey existing) (ur_ExecutionKey incoming),
     ur_SrcIP := mergeFieldValue (ur_SrcIP existing) (ur_SrcIP incoming),
     ur_SrcNetworkSegment := mergeFieldValue (ur_SrcNetworkSegment existing) (ur_SrcNetworkSegment incoming)\<rparr>"

text \<open>
  One visit of \<open>visitUnreachableRows\<close>. The state is what the row callback has made of the rows so
  far and, in rich mode, the row that is still merged with the ones that follow.
\<close>

type_synonym 's row_visitor = "'s \<Rightarrow> UnreachableRecord \<Rightarrow> 's visited"

definition emit_row :: "'s row_visitor \<Rightarrow> 's \<times> UnreachableRecord option \<Rightarrow> UnreachableRecord \<Rightarrow> UnreachableRecord option \<Rightarrow>
    ('s \<times> UnreachableRecord option) visited" where
  "emit_row visit s row held = (case visit (fst s) row of Inl (e, st) \<Rightarrow> Inl (e, st, snd s) | Inr st \<Rightarrow> Inr (st, held))"

definition unreachable_step ::
  "(string \<Rightarrow> bool) \<Rightarrow> string \<Rightarrow> bool \<Rightarrow> 's row_visitor \<Rightarrow> 's \<times> UnreachableRecord option \<Rightarrow> scanTarget \<Rightarrow>
   ('s \<times> UnreachableRecord option) visited" where
  "unreachable_step predicate reason richMode visit s t =
     (if predicate (t_ip t) then Inr s
      else
        let row = unreachable_record reason t in
        if \<not> richMode then emit_row visit s row (snd s)
        else (case snd s of None \<Rightarrow> Inr (fst s, Some row)
          | Some p \<Rightarrow>
              if richUnreachableRowKey row = richUnreachableRowKey p then Inr (fst s, Some (mergeUnreachableRecord p row))
              else emit_row visit s p (Some row)))"

definition visitUnreachableRows ::
  "authorizedPreScanPlan \<Rightarrow> (string \<Rightarrow> bool) option \<Rightarrow> string \<Rightarrow> 's row_visitor \<Rightarrow> 's \<Rightarrow> 's visited" where
  "visitUnreachableRows plan reachable reason visit s =
     (case plan_visit plan (unreachable_step (normalizeReachablePredicate reachable) reason
         (richGroups plan \<noteq> None) visit) (s, None) of
        Inl (e, s', _) \<Rightarrow> Inl (e, s')
      | Inr (s', held) \<Rightarrow> (case held of None \<Rightarrow> Inr s' | Some p \<Rightarrow> visit s' p))"

definition add_row :: "UnreachableRecord list row_visitor" where
  "add_row rows row = Inr (rows @ [row])"

definition collectUnreachableRows ::
  "CIDRRecord list \<Rightarrow> (string \<Rightarrow> bool) option \<Rightarrow> string \<Rightarrow> preping_error + UnreachableRecord list" where
  "collectUnreachableRows records reachable reason =
     (case buildAuthorizedPreScanPlan records of Inl e \<Rightarrow> Inl (PrePingGroup e)
      | Inr plan \<Rightarrow> (case visitUnreachableRows plan reachable reason add_row [] of
          Inl (e, _) \<Rightarrow> Inl e | Inr rows \<Rightarrow> Inr rows))"

section \<open>The file of the unreachable results\<close>

definition unreachableColumns :: "(string \<times> (UnreachableRecord \<Rightarrow> string)) list" where
  "unreachableColumns =
     [(''ip'', ur_IP), (''ip_cidr'', ur_IPCidr), (''status'', ur_Status), (''reason'', ur_Reason),
      (''fab_name'', ur_FabName), (''cidr_name'', ur_CIDRName), (''service_label'', ur_ServiceLabel),
      (''decision'', ur_Decision), (''matched_policy_id'', ur_PolicyID), (''execution_key'', ur_ExecutionKey),
      (''src_ip'', ur_SrcIP), (''src_network_segment'', ur_SrcNetworkSegment)]"

definition unreachable_row :: "UnreachableRecord \<Rightarrow> string list" where
  "unreachable_row r = map (\<lambda>col. snd col r) unreachableColumns"

definition unreachable_header :: "string list" where
  "unreachable_header = map fst unreachableColumns"

text \<open>The writer flushes every row, so what it has accepted is in the file. Each flush takes its
  outcome from the script; a failed one may leave the file with a part of the row.\<close>

record UnreachableWriter =
  uw_out :: string
  uw_script :: "nat option list"
  uw_wroteHeader :: bool

definition put_row :: "UnreachableWriter \<Rightarrow> string list \<Rightarrow> bool \<times> UnreachableWriter" where
  "put_row uw row =
     (case uw_script uw of
        Some n # rest \<Rightarrow> (False, uw\<lparr>uw_out := uw_out uw @ take n (csv_line row), uw_script := rest\<rparr>)
      | script \<Rightarrow> (True, uw\<lparr>uw_out := uw_out uw @ csv_line row, uw_script := tl script\<rparr>))"

definition unreachable_WriteHeader :: "UnreachableWriter \<Rightarrow> bool \<times> UnreachableWriter" where
  "unreachable_WriteHeader uw =
     (if \<not> uw_wroteHeader uw then put_row (uw\<lparr>uw_wroteHeader := True\<rparr>) unreachable_header else (True, uw))"

definition unreachable_Write :: "UnreachableWriter \<Rightarrow> UnreachableRecord \<Rightarrow> bool \<times> UnreachableWriter" where
  "unreachable_Write uw r =
     (case unreachable_WriteHeader uw of (ok, uw1) \<Rightarrow> if \<not> ok then (False, uw1) else put_row uw1 (unreachable_row r))"

text \<open>The directory is a map from paths to contents; the calls to the operating system other than
  writes take their outcome from \<open>create_ok\<close>, \<open>close_ok\<close> and \<open>rename_ok\<close>.\<close>

record unreachable_env =
  create_ok :: bool
  close_ok :: bool
  rename_ok :: bool
  write_script :: "nat option list"

type_synonym directory = "string \<rightharpoonup> string"

definition temp_path :: "string \<Rightarrow> string" where
  "temp_path p = p @ ''.tmp''"

definition openUnreachableOutput :: "unreachable_env \<Rightarrow> directory \<Rightarrow> string \<Rightarrow> UnreachableWriter option \<times> directory" where
  "openUnreachableOutput env fs final =
     (if \<not> create_ok env then (None, fs)
      else case unreachable_WriteHeader \<lparr>uw_out = [], uw_script = write_script env, uw_wroteHeader = False\<rparr> of
        (ok, uw) \<Rightarrow> (if ok then Some uw else None, fs(temp_path final \<mapsto> uw_out uw)))"

definition unreachable_Finalize :: "unreachable_env \<Rightarrow> directory \<Rightarrow> string \<Rightarrow> bool \<Rightarrow> bool \<times> directory" where
  "unreachable_Finalize env fs final success =
     (if \<not> close_ok env then (False, fs)
      else if success then
        (if rename_ok env then (True, (fs(final := fs (temp_path final)))(temp_path final := None)) else (False, fs))
      else (True, fs))"

definition write_record :: "UnreachableWriter row_visitor" where
  "write_record uw row = (case unreachable_Write uw row of (ok, uw') \<Rightarrow> if ok then Inr uw' else Inl (PrePingOutput, uw'))"

text \<open>\<open>finalizeUnreachableResultsFromPlan\<close>, and \<open>finalizeUnreachableResults\<close> for a list of rows; the
  last result says whether the file was finalized.\<close>

definition finish_output :: "unreachable_env \<Rightarrow> directory \<Rightarrow> string \<Rightarrow> (UnreachableWriter \<Rightarrow> UnreachableWriter visited) \<Rightarrow>
    preping_error option \<times> directory" where
  "finish_output env fs final rows =
     (case openUnreachableOutput env fs final of
        (None, fs1) \<Rightarrow> (Some PrePingOutput, fs1)
      | (Some uw, fs1) \<Rightarrow>
          (case rows uw of
             Inl (e, uw') \<Rightarrow> (Some e, snd (unreachable_Finalize env (fs1(temp_path final \<mapsto> uw_out uw')) final False))
           | Inr uw' \<Rightarrow>
               (case unreachable_Finalize env (fs1(temp_path final \<mapsto> uw_out uw')) final True of
                  (ok, fs2) \<Rightarrow> (if ok then None else Some PrePingOutput, fs2))))"

definition finalizeUnreachableResults ::
  "unreachable_env \<Rightarrow> directory \<Rightarrow> string \<Rightarrow> UnreachableRecord list \<Rightarrow> preping_error option \<times> directory" where
  "finalizeUnreachableResults env fs final rows = finish_output env fs final (\<lambda>uw. try_fold write_record uw rows)"

definition finalizeUnreachableResultsFromPlan ::
  "unreachable_env \<Rightarrow> directory \<Rightarrow> string \<Rightarrow> authorizedPreScanPlan \<Rightarrow> (string \<Rightarrow> bool) \<Rightarrow> string \<Rightarrow>
   preping_error option \<times> directory" where
  "finalizeUnreachableResultsFromPlan env fs final plan reachable reason =
     finish_output env fs final (\<lambda>uw. visitUnreachableRows plan (Some reachable) reason write_record uw)"

section \<open>RunPrePing\<close>

text \<open>The records are loaded and the paths resolved. \<open>polls\<close> says at which of the two checks of the
  context it is canceled; \<open>checks\<close> is what \<open>runReachabilityChecksWithProgress\<close> returns for a list of
  addresses (theory \<open>PingPool\<close>).\<close>

definition RunPrePing ::
  "bool \<times> bool \<Rightarrow> (string list \<Rightarrow> preping_error + 32 word list) \<Rightarrow> unreachable_env \<Rightarrow> directory \<Rightarrow> string \<Rightarrow> string \<Rightarrow>
   ExpansionLimits \<Rightarrow> CIDRRecord list \<Rightarrow> preping_error option \<times> directory" where
  "RunPrePing canceled checks env fs final reason limits records =
     (if fst canceled then (Some PrePingCanceled, fs)
      else case EstimateAuthorizedCIDRRecords records limits None of Inl e \<Rightarrow> (Some (PrePingEstimate e), fs)
      | Inr _ \<Rightarrow>
        (case buildAuthorizedPreScanPlan records of Inl e \<Rightarrow> (Some (PrePingGroup e), fs)
         | Inr plan \<Rightarrow>
           (case try_bind (collectUniqueIPs plan) checks of Inl e \<Rightarrow> (Some e, fs)
            | Inr unreachable \<Rightarrow>
              if snd canceled then (Some PrePingCanceled, fs)
              else if unreachable = [] then finalizeUnreachableResults env fs final []
              else finalizeUnreachableResultsFromPlan env fs final plan (reachablePredicate unreachable) reason)))"

section \<open>Reading the blocklist\<close>

datatype blocklist_error = BlocklistRead | NoIPColumn | InvalidBlockedIP string

text \<open>The rows that the CSV reader yields; \<open>Inl\<close> is a read error.\<close>

definition blocklist_step :: "nat \<Rightarrow> 32 word list \<Rightarrow> unit + string list \<Rightarrow> blocklist_error + 32 word list" where
  "blocklist_step column out r =
     (case r of Inl _ \<Rightarrow> Inl BlocklistRead
      | Inr row \<Rightarrow>
          if column \<ge> length row then Inr out
          else
            let ipStr = trim_space (row ! column) in
            if ipStr = [] then Inr out
            else (case parse_ip4 ipStr of None \<Rightarrow> Inl (InvalidBlockedIP ipStr)
              | Some v \<Rightarrow>
                  let u = ipv4ToUint32 (v4_string v) in Inr (if u \<in> set out then out else out @ [u])))"

fun ip_column :: "nat \<Rightarrow> string list \<Rightarrow> nat option" where
  "ip_column i [] = None"
| "ip_column i (name # names) = (if equal_fold (trim_space name) ''ip'' then Some i else ip_column (Suc i) names)"

text \<open>\<open>None\<close> is an empty path or a file that does not exist.\<close>

definition parseUnreachableBlocklist :: "(unit + string list) list option \<Rightarrow> blocklist_error + 32 word list" where
  "parseUnreachableBlocklist file =
     (case file of None \<Rightarrow> Inr []
      | Some [] \<Rightarrow> Inr []
      | Some (Inl _ # _) \<Rightarrow> Inl BlocklistRead
      | Some (Inr header # rows) \<Rightarrow>
          (case ip_column 0 header of None \<Rightarrow> Inl NoIPColumn
           | Some column \<Rightarrow> try_bind (try_fold (blocklist_step column) [] rows) (\<lambda>out. Inr (sort out))))"

section \<open>Addresses as strings\<close>

definition addr_char :: "char \<Rightarrow> bool" where
  "addr_char c \<longleftrightarrow> hex_val c \<noteq> None \<or> c = CHR ''.'' \<or> c = CHR '':''"

lemma addr_char_digit: "is_digit c \<Longrightarrow> addr_char c"
  by (auto simp: addr_char_def is_digit_def hex_val_def Let_def)

lemma opt_map_Some_mem: "opt_map f xs = Some ys \<Longrightarrow> x \<in> set xs \<Longrightarrow> f x \<noteq> None"
  by (induction xs arbitrary: ys) (auto split: option.splits)

lemma parse_octet_digits: "parse_octet s \<noteq> None \<Longrightarrow> list_all is_digit s"
  by (auto simp: parse_octet_def digits_value_def split: if_splits option.splits)

lemma parse_v4_chars:
  assumes "parse_v4 s = Some v"
  shows "list_all addr_char s"
proof -
  have digits: "list_all is_digit w" if "w \<in> set (split_on CHR ''.'' s)" for w
    using assms opt_map_Some_mem [of parse_octet _ v w] that
    by (auto simp: parse_v4_def Let_def split: if_splits intro: parse_octet_digits)
  have "list_all addr_char (join_with CHR ''.'' ws)" if "\<forall>w \<in> set ws. list_all is_digit w" for ws
    using that
  proof (induction ws)
    case (Cons w ws)
    have "list_all addr_char w" using Cons.prems by (auto simp: list_all_iff intro: addr_char_digit)
    then show ?case using Cons by (cases ws) (simp_all add: addr_char_def [of "CHR ''.''"])
  qed simp
  from this [of "split_on CHR ''.'' s"] show ?thesis using digits by (simp add: join_split)
qed

lemma v6_loop_chars: "v6_loop n s acc ell = Some r \<Longrightarrow> list_all addr_char s"
proof (induction n arbitrary: s acc ell)
  case (Suc n)
  define ds where "ds = takeWhile (\<lambda>c. hex_val c \<noteq> None) s"
  define rest where "rest = drop (length ds) s"
  have s: "s = ds @ rest" unfolding ds_def rest_def dropWhile_eq_drop [symmetric] by simp
  have ds: "list_all addr_char ds"
    unfolding list_all_iff ds_def addr_char_def by (blast dest: set_takeWhileD)
  note run = Suc.prems [unfolded v6_loop.simps(2) Let_def, folded ds_def, folded rest_def]
  consider (full) "16 \<le> length acc" | (dot) "\<not> 16 \<le> length acc" "rest \<noteq> []" "hd rest = CHR ''.''"
    | (hex) "\<not> 16 \<le> length acc" "rest = []"
    | (colon) c s1 where "\<not> 16 \<le> length acc" "rest = c # s1" "c \<noteq> CHR ''.''"
    by (cases rest) fastforce+
  then show ?case
  proof cases
    case full
    then show ?thesis using run by (simp split: if_splits)
  next
    case dot
    then obtain v where "parse_v4 s = Some v" using run by (simp split: if_splits option.splits)
    then show ?thesis by (rule parse_v4_chars)
  next
    case hex
    then show ?thesis using s ds by simp
  next
    case colon
    then have c: "c = CHR '':''" "s1 \<noteq> []" using run by (simp_all split: if_splits)
    have "list_all addr_char s1"
    proof (cases "hd s1 = CHR '':''")
      case True
      then have "list_all addr_char (tl s1)"
        using run colon c Suc.IH [of "tl s1"] by (cases "tl s1 = []") (simp_all split: if_splits)
      then show ?thesis using c(2) True by (cases s1) (simp_all add: addr_char_def)
    next
      case False
      then show ?thesis using run colon c Suc.IH [of s1] by (simp split: if_splits)
    qed
    then show ?thesis using s ds colon c(1) by (simp add: addr_char_def [of "CHR '':''"])
  qed
qed simp

lemma parse_v6_body_chars:
  assumes "parse_v6_body s = Some r"
  shows "list_all addr_char s"
proof (cases "prefix ''::'' s")
  case True
  then obtain t where "s = CHR '':'' # CHR '':'' # t" by (auto simp: prefix_def)
  moreover from this have "list_all addr_char t"
    using assms True v6_loop_chars [of 9 t]
    by (cases "t = []") (auto simp: parse_v6_body_def Let_def split: option.splits if_splits)
  ultimately show ?thesis by (simp add: addr_char_def)
next
  case False
  then show ?thesis
    using assms v6_loop_chars [of 9 s]
    by (auto simp: parse_v6_body_def Let_def split: option.splits if_splits)
qed

lemma parse_ip4_chars:
  assumes "parse_ip4 s = Some v"
  shows "list_all addr_char s"
proof -
  obtain a where a: "parse_addr s = Some a" "case a of A4 _ \<Rightarrow> True | A6 _ zone \<Rightarrow> zone = []"
    using assms by (auto simp: parse_ip4_def parse_ip_def split: option.splits naddr.splits if_splits)
  show ?thesis
  proof (cases a)
    case (A4 w)
    then show ?thesis using a(1) parse_v4_chars
      by (auto simp: parse_addr_def parse_v6_def Let_def split: list.splits if_splits option.splits)
  next
    case (A6 w zone)
    let ?body = "takeWhile (\<lambda>c. c \<noteq> CHR ''%'') s"
    have b: "parse_v6_body ?body \<noteq> None" "drop (length ?body + 1) s = []" "\<not> (length ?body < length s \<and> drop (length ?body + 1) s = [])"
      using a A6 by (auto simp: parse_addr_def parse_v6_def Let_def split: list.splits if_splits option.splits)
    then have "length s \<le> length ?body" by simp
    then have "dropWhile (\<lambda>c. c \<noteq> CHR ''%'') s = []" unfolding dropWhile_eq_drop by simp
    then have body: "?body = s" using takeWhile_dropWhile_id [of "\<lambda>c. c \<noteq> CHR ''%''" s] by simp
    show ?thesis
      using b(1) unfolding body by (cases "parse_v6_body s") (simp_all add: parse_v6_body_chars)
  qed
qed

lemma trim_no_nul:
  assumes "parse_ip4 (trim_space ip) = Some v"
  shows "CHR 0x00 \<notin> set (trim_space ip)"
proof -
  have "\<not> addr_char CHR 0x00" by code_simp
  then show ?thesis using parse_ip4_chars [OF assms] by (auto simp: list_all_iff)
qed

end
