(* ===== verification/PingPool.thy ===== *)
theory PingPool
  imports PrePing
begin

text \<open>
  \<open>runReachabilityChecksWithProgress\<close> of \<open>pkg/scanapp/pre_scan_ping.go\<close>: a feeder hands the
  addresses to a pool of workers over an unbuffered channel, each worker checks one address at a
  time, and a collector reads the results after all workers are gone. The first failed check
  cancels the run, as does the caller's context at any time. Also \<open>reachability.go\<close>: the ping
  command and how its outcome is classified.

  The pool is a step relation over all interleavings. The check itself is the parameter
  \<open>answer\<close>; once the run is canceled a check may end in any way.
\<close>

section \<open>One check: reachability.go\<close>

datatype run_error = ExitError | DeadlineExceeded | OtherRunError string

datatype check_error = IPRequired | ContextError | RunFailed string

record ReachabilityResult =
  rr_IP :: string
  rr_Reachable :: bool

definition pingProcessStartupAllowance :: int where
  "pingProcessStartupAllowance = 10 * 10 ^ 9"

text \<open>A \<open>time.Duration\<close> is a 64-bit count of nanoseconds; the sum wraps around.\<close>

definition pingProcessTimeout :: "bool \<Rightarrow> int \<Rightarrow> int" where
  "pingProcessTimeout windows timeout =
     (if windows then signed_take_bit 63 ((if timeout < 0 then 0 else timeout) + pingProcessStartupAllowance) else timeout)"

definition buildPingCommand :: "bool \<Rightarrow> string \<Rightarrow> int \<Rightarrow> check_error + string \<times> string list" where
  "buildPingCommand windows ip timeout =
     (let ip = trim_space ip in
      if ip = [] then Inl IPRequired
      else if windows then
        (let timeoutMS = (if timeout < 0 then 0 else timeout div 10 ^ 6) in
         Inr (''ping'', [''-n'', ''1'', ''-w'', itoa timeoutMS, ip]))
      else Inr (''ping'', [''-c'', ''1'', ip]))"

text \<open>What the process did, and whether the caller's context or the process deadline has fired.\<close>

record ping_run =
  pr_error :: "run_error option"
  pr_ctx_done :: bool
  pr_deadline_fired :: bool

definition CheckDetailed :: "bool \<Rightarrow> string \<Rightarrow> int \<Rightarrow> ping_run \<Rightarrow> ReachabilityResult \<times> check_error option" where
  "CheckDetailed windows ip timeout r =
     (let result = \<lparr>rr_IP = ip, rr_Reachable = False\<rparr> in
      if trim_space ip = [] then (result, Some IPRequired)
      else case buildPingCommand windows ip timeout of Inl e \<Rightarrow> (result, Some e)
      | Inr _ \<Rightarrow>
        (case pr_error r of
           Some err \<Rightarrow>
             if pr_ctx_done r then (result, Some ContextError)
             else if pr_deadline_fired r then (result, None)
             else (case err of DeadlineExceeded \<Rightarrow> (result, None) | ExitError \<Rightarrow> (result, None)
               | OtherRunError t \<Rightarrow> (result, Some (RunFailed t)))
         | None \<Rightarrow> (result\<lparr>rr_Reachable := True\<rparr>, None)))"

section \<open>The pool\<close>

datatype verdict = Reachable | Unreachable | CheckFailed string

datatype ping_worker = Idle | Checking string | Gone

datatype worker_result = FoundUnreachable "32 word" | FoundError string

text \<open>\<open>finished\<close> is history: the addresses whose check has been recorded, in order.\<close>

record pool =
  todo :: "string list"
  feeding :: bool
  workers :: "ping_worker list"
  results :: "worker_result list"
  stopped :: bool
  parent_done :: bool
  finished :: "string list"

definition effective_ping_workers :: "int \<Rightarrow> nat \<Rightarrow> nat" where
  "effective_ping_workers n jobs =
     (let n = (if n \<le> 0 then 1 else n) in if n > int jobs then jobs else nat n)"

definition start_pool :: "string list \<Rightarrow> int \<Rightarrow> pool" where
  "start_pool ips n =
     \<lparr>todo = ips, feeding = True, workers = replicate (effective_ping_workers n (length ips)) Idle, results = [],
      stopped = False, parent_done = False, finished = []\<rparr>"

definition set_worker :: "nat \<Rightarrow> ping_worker \<Rightarrow> pool \<Rightarrow> pool" where
  "set_worker i w s = s\<lparr>workers := (workers s)[i := w]\<rparr>"

definition at_worker :: "pool \<Rightarrow> nat \<Rightarrow> ping_worker \<Rightarrow> bool" where
  "at_worker s i w \<longleftrightarrow> i < length (workers s) \<and> workers s ! i = w"

text \<open>The verdict a check may give: the answer, or anything once the run is canceled.\<close>

definition may_say :: "(string \<Rightarrow> verdict) \<Rightarrow> pool \<Rightarrow> string \<Rightarrow> verdict \<Rightarrow> bool" where
  "may_say answer s ip v \<longleftrightarrow> stopped s \<or> v = answer ip"

inductive pool_step :: "(string \<Rightarrow> verdict) \<Rightarrow> pool \<Rightarrow> pool \<Rightarrow> bool" for answer where
  parent_cancels: "\<not> parent_done s \<Longrightarrow> pool_step answer s (s\<lparr>parent_done := True, stopped := True\<rparr>)"
| feed: "feeding s \<Longrightarrow> todo s = ip # rest \<Longrightarrow> at_worker s i Idle \<Longrightarrow>
    pool_step answer s ((set_worker i (Checking ip) s)\<lparr>todo := rest\<rparr>)"
| feeder_stops: "feeding s \<Longrightarrow> stopped s \<Longrightarrow> pool_step answer s (s\<lparr>feeding := False\<rparr>)"
| feeder_ends: "feeding s \<Longrightarrow> todo s = [] \<Longrightarrow> pool_step answer s (s\<lparr>feeding := False\<rparr>)"
| worker_stops: "at_worker s i Idle \<Longrightarrow> stopped s \<Longrightarrow> pool_step answer s (set_worker i Gone s)"
| worker_ends: "at_worker s i Idle \<Longrightarrow> \<not> feeding s \<Longrightarrow> pool_step answer s (set_worker i Gone s)"
| says_reachable: "at_worker s i (Checking ip) \<Longrightarrow> may_say answer s ip Reachable \<Longrightarrow>
    pool_step answer s ((set_worker i Idle s)\<lparr>finished := finished s @ [ip]\<rparr>)"
| says_unreachable: "at_worker s i (Checking ip) \<Longrightarrow> may_say answer s ip Unreachable \<Longrightarrow>
    pool_step answer s ((set_worker i Idle s)\<lparr>results := results s @ [FoundUnreachable (ipv4ToUint32 ip)],
      finished := finished s @ [ip]\<rparr>)"
| drops_unreachable: "at_worker s i (Checking ip) \<Longrightarrow> stopped s \<Longrightarrow> pool_step answer s (set_worker i Gone s)"
| says_error: "at_worker s i (Checking ip) \<Longrightarrow> may_say answer s ip (CheckFailed e) \<Longrightarrow>
    pool_step answer s ((set_worker i Gone s)\<lparr>results := results s @ [FoundError e], stopped := True\<rparr>)"
| drops_error: "at_worker s i (Checking ip) \<Longrightarrow> stopped s \<Longrightarrow> pool_step answer s (set_worker i Gone s)"

definition pool_reach :: "(string \<Rightarrow> verdict) \<Rightarrow> pool \<Rightarrow> pool \<Rightarrow> bool" where
  "pool_reach answer = (pool_step answer)\<^sup>*\<^sup>*"

text \<open>All workers are gone: the results channel is closed and the collector has drained it.\<close>

definition all_gone :: "pool \<Rightarrow> bool" where
  "all_gone s \<longleftrightarrow> (\<forall>w \<in> set (workers s). w = Gone)"

datatype ping_outcome = PingFailed string | PingCanceled | PingDone "32 word list"

fun first_error :: "worker_result list \<Rightarrow> string option" where
  "first_error [] = None"
| "first_error (FoundError e # _) = Some e"
| "first_error (_ # rs) = first_error rs"

fun found_addresses :: "worker_result list \<Rightarrow> 32 word list" where
  "found_addresses [] = []"
| "found_addresses (FoundUnreachable u # rs) = u # found_addresses rs"
| "found_addresses (_ # rs) = found_addresses rs"

definition pool_outcome :: "pool \<Rightarrow> ping_outcome" where
  "pool_outcome s = (case first_error (results s) of Some e \<Rightarrow> PingFailed e
     | None \<Rightarrow> if parent_done s then PingCanceled else PingDone (sort (found_addresses (results s))))"

text \<open>The whole function: no address needs no worker; otherwise the outcome of a finished pool. A
  context that is canceled between the last worker and the final check makes it canceled too, which
  the step \<open>parent_cancels\<close> covers, as it may come last.\<close>

definition ping_run_result :: "(string \<Rightarrow> verdict) \<Rightarrow> string list \<Rightarrow> int \<Rightarrow> ping_outcome \<Rightarrow> bool" where
  "ping_run_result answer ips n out \<longleftrightarrow>
     (if ips = [] then out = PingDone []
      else \<exists>s. pool_reach answer (start_pool ips n) s \<and> all_gone s \<and> out = pool_outcome s)"

section \<open>Invariant\<close>

text \<open>What a worker still owes\<close>

definition in_hand :: "ping_worker \<Rightarrow> string list" where
  "in_hand w = (case w of Checking ip \<Rightarrow> [ip] | _ \<Rightarrow> [])"

definition pool_inv :: "(string \<Rightarrow> verdict) \<Rightarrow> string list \<Rightarrow> pool \<Rightarrow> bool" where
  "pool_inv answer ips s \<longleftrightarrow>
     (stopped s \<longrightarrow> parent_done s \<or> first_error (results s) \<noteq> None) \<and>
     (\<not> stopped s \<longrightarrow>
        mset ips = mset (todo s) + mset (concat (map in_hand (workers s))) + mset (finished s) \<and>
        (\<not> feeding s \<longrightarrow> todo s = []) \<and>
        results s = map (FoundUnreachable \<circ> ipv4ToUint32) (filter (\<lambda>ip. answer ip = Unreachable) (finished s)) \<and>
        (\<forall>ip \<in> set (finished s). answer ip = Reachable \<or> answer ip = Unreachable) \<and>
        (feeding s \<longrightarrow> Gone \<notin> set (workers s)))"

lemma first_error_append: "first_error (rs @ [r]) = (case first_error rs of Some e \<Rightarrow> Some e | None \<Rightarrow> first_error [r])"
  by (induction rs rule: first_error.induct) auto

lemma in_hand_update:
  assumes "at_worker s i w"
  shows "mset (concat (map in_hand ((workers s)[i := v]))) + mset (in_hand w) =
    mset (concat (map in_hand (workers s))) + mset (in_hand v)"
proof -
  have i: "i < length (workers s)" "workers s ! i = w" using assms by (auto simp: at_worker_def)
  have old: "workers s = take i (workers s) @ w # drop (Suc i) (workers s)"
    using i id_take_nth_drop by blast
  have new: "(workers s)[i := v] = take i (workers s) @ v # drop (Suc i) (workers s)"
    using i(1) by (rule upd_conv_take_nth_drop)
  have split: "mset (concat (map in_hand (xs @ a # ys))) =
      mset (concat (map in_hand xs)) + mset (in_hand a) + mset (concat (map in_hand ys))" for xs a ys
    by simp
  show ?thesis unfolding new split by (subst old) (simp only: split add.commute add.left_commute)
qed

lemma set_worker_simps [simp]:
  "todo (set_worker i w s) = todo s" "feeding (set_worker i w s) = feeding s" "results (set_worker i w s) = results s"
  "stopped (set_worker i w s) = stopped s" "parent_done (set_worker i w s) = parent_done s"
  "finished (set_worker i w s) = finished s" "workers (set_worker i w s) = (workers s)[i := w]"
  by (simp_all add: set_worker_def)

lemma in_hand_simps [simp]: "in_hand Idle = []" "in_hand Gone = []" "in_hand (Checking ip) = [ip]"
  by (simp_all add: in_hand_def)

lemma pool_inv_start:
  assumes "ips \<noteq> []"
  shows "pool_inv answer ips (start_pool ips n)"
proof -
  have "concat (map in_hand (replicate k Idle)) = []" for k by (induction k) auto
  then show ?thesis by (simp add: pool_inv_def start_pool_def)
qed

lemma Gone_update: "Gone \<in> set (ws[i := v]) \<Longrightarrow> v = Gone \<or> Gone \<in> set ws"
  by (metis insertE set_update_subset_insert subset_iff)

lemma pool_inv_step:
  assumes "pool_step answer s t" and "pool_inv answer ips s"
  shows "pool_inv answer ips t"
  using assms
proof cases
  case (feed ip rest i)
  have "mset (concat (map in_hand ((workers s)[i := Checking ip]))) = add_mset ip (mset (concat (map in_hand (workers s))))"
    using in_hand_update [OF feed(4), of "Checking ip"] by simp
  then show ?thesis
    using assms(2) feed by (auto simp: pool_inv_def at_worker_def dest: Gone_update)
next
  case (worker_stops i)
  then show ?thesis using assms(2) by (simp add: pool_inv_def)
next
  case (worker_ends i)
  have "mset (concat (map in_hand ((workers s)[i := Gone]))) = mset (concat (map in_hand (workers s)))"
    using in_hand_update [OF worker_ends(2), of Gone] by simp
  then show ?thesis using assms(2) worker_ends by (simp add: pool_inv_def)
next
  case (says_reachable i ip)
  have "add_mset ip (mset (concat (map in_hand ((workers s)[i := Idle])))) = mset (concat (map in_hand (workers s)))"
    using in_hand_update [OF says_reachable(2), of Idle] by simp
  then show ?thesis
    using assms(2) says_reachable by (auto simp: pool_inv_def may_say_def at_worker_def dest: Gone_update)
next
  case (says_unreachable i ip)
  have "add_mset ip (mset (concat (map in_hand ((workers s)[i := Idle])))) = mset (concat (map in_hand (workers s)))"
    using in_hand_update [OF says_unreachable(2), of Idle] by simp
  then show ?thesis
    using assms(2) says_unreachable
    by (auto simp: pool_inv_def may_say_def at_worker_def first_error_append dest: Gone_update split: option.splits)
next
  case (says_error i ip e)
  then show ?thesis
    using assms(2) by (auto simp: pool_inv_def first_error_append split: option.splits)
qed (use assms(2) in \<open>auto simp: pool_inv_def\<close>)

lemma pool_inv_reach: "pool_reach answer s t \<Longrightarrow> pool_inv answer ips s \<Longrightarrow> pool_inv answer ips t"
  unfolding pool_reach_def by (induction rule: rtranclp_induct) (auto intro: pool_inv_step)

lemma pool_workers_step: "pool_step answer s t \<Longrightarrow> length (workers t) = length (workers s)"
  by (induction rule: pool_step.induct) auto

lemma pool_workers_reach: "pool_reach answer s t \<Longrightarrow> length (workers t) = length (workers s)"
  unfolding pool_reach_def by (induction rule: rtranclp_induct) (auto dest: pool_workers_step)

lemma found_addresses_map [simp]: "found_addresses (map (FoundUnreachable \<circ> f) xs) = map f xs"
  by (induction xs) auto

lemma first_error_map [simp]: "first_error (map (FoundUnreachable \<circ> f) xs) = None"
  by (induction xs) auto

lemma gone_in_hand: "all_gone s \<Longrightarrow> concat (map in_hand (workers s)) = []"
  by (auto simp: all_gone_def)

lemma effective_ping_workers_pos: "ips \<noteq> [] \<Longrightarrow> 0 < effective_ping_workers n (length ips)"
  by (auto simp: effective_ping_workers_def Let_def)

lemma pool_outcome_complete:
  assumes reach: "pool_reach answer (start_pool ips n) s" and "ips \<noteq> []" and gone: "all_gone s"
    and out: "pool_outcome s = PingDone found"
  shows "found = sort (map ipv4ToUint32 (filter (\<lambda>ip. answer ip = Unreachable) ips)) \<and>
    (\<forall>ip \<in> set ips. answer ip = Reachable \<or> answer ip = Unreachable)"
proof -
  have inv: "pool_inv answer ips s" by (rule pool_inv_reach [OF reach pool_inv_start [OF assms(2)]])
  have err: "first_error (results s) = None" "\<not> parent_done s" and f: "found = sort (found_addresses (results s))"
    using out by (auto simp: pool_outcome_def split: option.splits if_splits)
  have live: "\<not> stopped s" using inv err by (auto simp: pool_inv_def)
  have "workers s \<noteq> []"
    using pool_workers_reach [OF reach] effective_ping_workers_pos [OF assms(2), of n] by (auto simp: start_pool_def)
  then have "Gone \<in> set (workers s)" using gone by (cases "workers s") (auto simp: all_gone_def)
  then have "\<not> feeding s" using inv live by (auto simp: pool_inv_def)
  then have all: "mset ips = mset (finished s)"
    and res: "results s = map (FoundUnreachable \<circ> ipv4ToUint32) (filter (\<lambda>ip. answer ip = Unreachable) (finished s))"
    and said: "\<forall>ip \<in> set (finished s). answer ip = Reachable \<or> answer ip = Unreachable"
    using inv live gone_in_hand [OF gone] by (auto simp: pool_inv_def)
  have "mset (map ipv4ToUint32 (filter (\<lambda>ip. answer ip = Unreachable) (finished s))) =
      mset (map ipv4ToUint32 (filter (\<lambda>ip. answer ip = Unreachable) ips))"
    using all by (metis mset_filter mset_map)
  then have "found = sort (map ipv4ToUint32 (filter (\<lambda>ip. answer ip = Unreachable) ips))"
    unfolding f res found_addresses_map by (simp add: properties_for_sort)
  moreover have "set (finished s) = set ips" using all by (metis mset_eq_setD)
  ultimately show ?thesis using said by simp
qed

section \<open>Every run ends\<close>

fun worker_size :: "ping_worker \<Rightarrow> nat" where
  "worker_size Gone = 0"
| "worker_size Idle = 1"
| "worker_size (Checking _) = 2"

definition pool_size :: "pool \<Rightarrow> nat" where
  "pool_size s = 3 * length (todo s) + sum_list (map worker_size (workers s)) +
     (if feeding s then 1 else 0) + (if parent_done s then 0 else 1)"

lemma worker_size_update:
  assumes "at_worker s i w"
  shows "sum_list (map worker_size ((workers s)[i := v])) + worker_size w = sum_list (map worker_size (workers s)) + worker_size v"
proof -
  have i: "i < length (workers s)" "workers s ! i = w" using assms by (auto simp: at_worker_def)
  have old: "workers s = take i (workers s) @ w # drop (Suc i) (workers s)"
    using i id_take_nth_drop by blast
  have new: "(workers s)[i := v] = take i (workers s) @ v # drop (Suc i) (workers s)"
    using i(1) by (rule upd_conv_take_nth_drop)
  have split: "sum_list (map worker_size (xs @ a # ys)) =
      sum_list (map worker_size xs) + worker_size a + sum_list (map worker_size ys)" for xs a ys
    by simp
  show ?thesis unfolding new split by (subst old) (simp only: split add.commute add.left_commute)
qed

lemma pool_step_smaller: "pool_step answer s t \<Longrightarrow> pool_size t < pool_size s"
proof (induction rule: pool_step.induct)
  case (feed s ip rest i)
  then show ?case using worker_size_update [OF feed(3), of "Checking ip"] by (simp add: pool_size_def)
next
  case (worker_stops s i)
  then show ?case using worker_size_update [OF worker_stops(1), of Gone] by (simp add: pool_size_def)
next
  case (worker_ends s i)
  then show ?case using worker_size_update [OF worker_ends(1), of Gone] by (simp add: pool_size_def)
next
  case (says_reachable s i ip)
  then show ?case using worker_size_update [OF says_reachable(1), of Idle] by (simp add: pool_size_def)
next
  case (says_unreachable s i ip)
  then show ?case using worker_size_update [OF says_unreachable(1), of Idle] by (simp add: pool_size_def)
next
  case (drops_unreachable s i ip)
  then show ?case using worker_size_update [OF drops_unreachable(1), of Gone] by (simp add: pool_size_def)
next
  case (says_error s i ip e)
  then show ?case using worker_size_update [OF says_error(1), of Gone] by (simp add: pool_size_def)
next
  case (drops_error s i ip)
  then show ?case using worker_size_update [OF drops_error(1), of Gone] by (simp add: pool_size_def)
qed (simp_all add: pool_size_def)

lemma pool_progress:
  assumes "\<not> all_gone s"
  shows "\<exists>t. pool_step answer s t"
proof -
  obtain i where i: "i < length (workers s)" "workers s ! i \<noteq> Gone"
    using assms by (auto simp: all_gone_def in_set_conv_nth)
  show ?thesis
  proof (cases "workers s ! i")
    case Idle
    then have at: "at_worker s i Idle" using i by (simp add: at_worker_def)
    show ?thesis
    proof (cases "feeding s")
      case True
      then show ?thesis using at by (cases "todo s") (blast intro: feeder_ends feed)+
    qed (use at in \<open>blast intro: worker_ends\<close>)
  next
    case (Checking ip)
    then have at: "at_worker s i (Checking ip)" using i by (simp add: at_worker_def)
    have "may_say answer s ip (answer ip)" by (simp add: may_say_def)
    then show ?thesis using at by (cases "answer ip") (auto intro: says_reachable says_unreachable says_error)
  qed (use i in simp)
qed

lemma pool_can_finish: "\<exists>t. pool_reach answer s t \<and> all_gone t"
proof (induction "pool_size s" arbitrary: s rule: less_induct)
  case less
  show ?case
  proof (cases "all_gone s")
    case True
    then show ?thesis by (auto simp: pool_reach_def)
  next
    case False
    then obtain u where u: "pool_step answer s u" using pool_progress by blast
    then show ?thesis
      using less [OF pool_step_smaller [OF u]] by (auto simp: pool_reach_def intro: converse_rtranclp_into_rtranclp)
  qed
qed

lemma pool_steps_bounded: "(pool_step answer ^^ k) s t \<Longrightarrow> k + pool_size t \<le> pool_size s"
proof (induction k arbitrary: t)
  case (Suc k)
  then obtain u where "(pool_step answer ^^ k) s u" "pool_step answer u t" by (auto simp: relcompp.simps)
  then show ?case using Suc.IH pool_step_smaller by fastforce
qed simp

text \<open>If no check can fail, only the caller's context stops a run.\<close>

lemma pool_calm:
  assumes "pool_reach answer (start_pool ips n) s" and "ips \<noteq> []"
    and definite: "\<forall>ip \<in> set ips. answer ip = Reachable \<or> answer ip = Unreachable"
  shows "stopped s \<longrightarrow> parent_done s"
  using assms(1) unfolding pool_reach_def
proof (induction rule: rtranclp_induct)
  case base
  then show ?case by (simp add: start_pool_def)
next
  case (step s t)
  have inv: "pool_inv answer ips s"
    using pool_inv_reach [OF _ pool_inv_start [OF assms(2)]] step(1) by (simp add: pool_reach_def)
  from step(2) show ?case
  proof cases
    case (says_error i ip e)
    show ?thesis
    proof (cases "stopped s")
      case False
      have "Checking ip \<in> set (workers s)" using says_error(2) by (metis at_worker_def nth_mem)
      then have "ip \<in># mset (concat (map in_hand (workers s)))" by force
      then have "ip \<in># mset ips" using inv False by (simp add: pool_inv_def)
      then show ?thesis using says_error(3) definite False by (auto simp: may_say_def)
    qed (use step says_error in simp)
  qed (use step in auto)
qed

text \<open>C16. The concurrent checks of the pre-ping are exact for every interleaving of the feeder, the
  workers and a cancellation. Every run is bounded and can always end, so nothing deadlocks. When it
  ends with a result, every address has been checked and the result is the sorted list of those that
  answered unreachable: a check that was dropped or failed never passes as a reachable address. And
  when no check fails and the caller does not cancel, it does end with that result.\<close>

theorem ping_pool_exact:
  assumes "ips \<noteq> []" and "pool_reach answer (start_pool ips n) s"
  shows "((pool_step answer ^^ k) (start_pool ips n) s \<longrightarrow> k \<le> 3 * length ips + effective_ping_workers n (length ips) + 2) \<and>
    (\<exists>t. pool_reach answer s t \<and> all_gone t) \<and>
    (all_gone s \<longrightarrow>
      (\<forall>found. pool_outcome s = PingDone found \<longrightarrow>
        found = sort (map ipv4ToUint32 (filter (\<lambda>ip. answer ip = Unreachable) ips)) \<and>
        (\<forall>ip \<in> set ips. answer ip = Reachable \<or> answer ip = Unreachable)) \<and>
      ((\<forall>ip \<in> set ips. answer ip = Reachable \<or> answer ip = Unreachable) \<and> \<not> parent_done s \<longrightarrow>
        pool_outcome s = PingDone (sort (map ipv4ToUint32 (filter (\<lambda>ip. answer ip = Unreachable) ips)))))"
proof -
  have size: "pool_size (start_pool ips n) = 3 * length ips + effective_ping_workers n (length ips) + 2"
    by (simp add: pool_size_def start_pool_def map_replicate_const [symmetric] sum_list_replicate)
  have bound: "k \<le> 3 * length ips + effective_ping_workers n (length ips) + 2"
    if "(pool_step answer ^^ k) (start_pool ips n) s"
    using pool_steps_bounded [OF that] by (simp add: size)
  have done_: "pool_outcome s = PingDone (sort (map ipv4ToUint32 (filter (\<lambda>ip. answer ip = Unreachable) ips)))"
    if "all_gone s" "\<forall>ip \<in> set ips. answer ip = Reachable \<or> answer ip = Unreachable" "\<not> parent_done s"
  proof -
    have "\<not> stopped s" using pool_calm [OF assms(2,1) that(2)] that(3) by simp
    then have "first_error (results s) = None"
      using pool_inv_reach [OF assms(2) pool_inv_start [OF assms(1)]] by (auto simp: pool_inv_def)
    then have "pool_outcome s = PingDone (sort (found_addresses (results s)))"
      using that(3) by (simp add: pool_outcome_def)
    then show ?thesis using pool_outcome_complete [OF assms(2,1) that(1)] by simp
  qed
  show ?thesis using bound pool_can_finish pool_outcome_complete [OF assms(2,1)] done_ by blast
qed

theorem ping_pool_exact_witness:
  "\<exists>s. pool_reach (\<lambda>ip. if ip = ''10.0.0.1'' then Unreachable else Reachable) (start_pool [''10.0.0.2'', ''10.0.0.1''] 4) s \<and> all_gone s"
proof -
  let ?a = "\<lambda>ip. if ip = ''10.0.0.1'' then Unreachable else Reachable" and ?s = "start_pool [''10.0.0.2'', ''10.0.0.1''] 4"
  have "pool_reach ?a ?s ?s" by (simp add: pool_reach_def)
  from ping_pool_exact [OF _ this, of 0] show ?thesis by simp
qed

end
