(* ===== verification/PrePingProps.thy ===== *)
theory PrePingProps
  imports PingPool
begin

text \<open>
  What the pre-ping leaves for the next step: its file is written completely or not at all, and the
  blocklist that bucket generation reads from it keeps exactly the addresses that answered.
\<close>

section \<open>The targets of a plan\<close>

definition row_targets :: "CIDRRecord \<Rightarrow> scanTarget list" where
  "row_targets r = (case basic_targetsContext None r of Inl _ \<Rightarrow> [] | Inr (_, ts) \<Rightarrow> ts)"

definition plan_targets :: "authorizedPreScanPlan \<Rightarrow> scanTarget list" where
  "plan_targets plan = (case richGroups plan of
       Some gs \<Rightarrow> concat (map (\<lambda>k. g_targets (get_group gs k)) (richKeys plan))
     | None \<Rightarrow> concat (map row_targets (basicRows plan)))"

definition plan_readable :: "authorizedPreScanPlan \<Rightarrow> bool" where
  "plan_readable plan \<longleftrightarrow> richGroups plan \<noteq> None \<or>
     (\<forall>r \<in> set (basicRows plan). (\<exists>k. basic_key r = Inr k) \<and> (\<exists>c ts. basic_targetsContext None r = Inr (c, ts)))"

lemma try_fold_concat: "try_fold (\<lambda>s x. try_fold f s (g x)) s xs = try_fold f s (concat (map g xs))"
  by (induction xs arbitrary: s) (simp_all add: try_fold_append)

lemma visit_row_readable:
  assumes "\<exists>k. basic_key r = Inr k" and "\<exists>c ts. basic_targetsContext None r = Inr (c, ts)"
  shows "visit_row visit s r = try_fold visit s (row_targets r)"
  using assms by (auto simp: visit_row_def group_or_def row_targets_def)

lemma plan_visit_readable:
  assumes "plan_readable plan"
  shows "plan_visit plan visit s = try_fold visit s (plan_targets plan)"
proof (cases "richGroups plan")
  case (Some gs)
  then show ?thesis by (simp add: plan_visit_def plan_targets_def try_fold_concat)
next
  case None
  have "try_fold (visit_row visit) s rs = try_fold visit s (concat (map row_targets rs))"
    if "\<forall>r \<in> set rs. (\<exists>k. basic_key r = Inr k) \<and> (\<exists>c ts. basic_targetsContext None r = Inr (c, ts))" for rs
    using that by (induction rs arbitrary: s) (simp_all add: visit_row_readable try_fold_append)
  then show ?thesis using None assms by (simp add: plan_visit_def plan_targets_def plan_readable_def)
qed

lemma plan_visit_Inr_readable:
  assumes "plan_visit plan visit s = Inr s'"
  shows "plan_readable plan"
proof (cases "richGroups plan")
  case None
  have "\<forall>r \<in> set rs. (\<exists>k. basic_key r = Inr k) \<and> (\<exists>c ts. basic_targetsContext None r = Inr (c, ts))"
    if "try_fold (visit_row visit) s rs = Inr s'" for rs
    using that
  proof (induction rs arbitrary: s)
    case (Cons r rs)
    from Cons.prems obtain u where u: "visit_row visit s r = Inr u" "try_fold (visit_row visit) u rs = Inr s'"
      by (auto simp: try_bind_eq_Inr)
    have "(\<exists>k. basic_key r = Inr k) \<and> (\<exists>c ts. basic_targetsContext None r = Inr (c, ts))"
      using u(1) by (auto simp: visit_row_def group_or_def try_bind_eq_Inr split: sum.splits)
    then show ?case using Cons.IH [OF u(2)] by simp
  qed simp
  then show ?thesis using assms None by (simp add: plan_visit_def plan_readable_def)
qed (simp add: plan_readable_def)

section \<open>The rows\<close>

definition nul_free :: "string \<Rightarrow> bool" where
  "nul_free s \<longleftrightarrow> CHR 0x00 \<notin> set s"

lemma strip_seq_append: "strip_seq ps s = Some r \<Longrightarrow> \<exists>p \<in> set ps. s = p @ r"
  by (induction ps s rule: strip_seq.induct) (auto simp: prefix_def split: if_splits)

lemma strip_front_fuel_nul:
  assumes "\<forall>p \<in> set ps. nul_free p"
  shows "nul_free (strip_front_fuel n ps s) \<Longrightarrow> nul_free s"
proof (induction n arbitrary: s)
  case (Suc n)
  then show ?case
    using assms strip_seq_append [of ps s]
    by (cases "strip_seq ps s") (fastforce simp: nul_free_def)+
qed simp

lemma space_seqs_nul: "list_all nul_free space_seqs" "list_all nul_free (map rev space_seqs)"
  by code_simp+

lemma strip_front_nul: "list_all nul_free ps \<Longrightarrow> nul_free (strip_front ps s) \<Longrightarrow> nul_free s"
  unfolding strip_front_def list_all_iff by (rule strip_front_fuel_nul)

lemma nul_free_rev [simp]: "nul_free (rev s) = nul_free s"
  by (simp add: nul_free_def)

lemma trim_nul_free:
  assumes "nul_free (trim_space s)"
  shows "nul_free s"
proof -
  have "nul_free (rev (strip_front space_seqs s))"
    by (rule strip_front_nul [OF space_seqs_nul(2)]) (use assms in \<open>simp add: trim_space_def\<close>)
  then show ?thesis using strip_front_nul [OF space_seqs_nul(1)] by simp
qed

lemma row_key_IP:
  assumes "richUnreachableRowKey r = richUnreachableRowKey p" and "nul_free (ur_IP r)" and "nul_free (ur_IP p)"
  shows "ur_IP r = ur_IP p"
proof -
  have "takeWhile (\<lambda>c. c \<noteq> CHR 0x00) (ur_IP q @ [CHR 0x00] @ ur_IPCidr q) = ur_IP q" if "nul_free (ur_IP q)" for q
    using that by (subst takeWhile_append2) (auto simp: nul_free_def)
  then show ?thesis using assms unfolding richUnreachableRowKey_def by metis
qed

definition rows_IPs :: "UnreachableRecord list \<times> UnreachableRecord option \<Rightarrow> string set" where
  "rows_IPs s = ur_IP ` set (fst s) \<union> (case snd s of None \<Rightarrow> {} | Some p \<Rightarrow> {ur_IP p})"

lemma unreachable_fold:
  assumes "try_fold (unreachable_step predicate reason rich add_row) s ts = Inr s'"
    and "\<forall>t \<in> set ts. \<not> predicate (t_ip t) \<longrightarrow> nul_free (t_ip t)" and "\<forall>p. snd s = Some p \<longrightarrow> nul_free (ur_IP p)"
  shows "rows_IPs s' = rows_IPs s \<union> {t_ip t |t. t \<in> set ts \<and> \<not> predicate (t_ip t)}"
  using assms
proof (induction ts arbitrary: s)
  case (Cons t ts)
  from Cons.prems(1) obtain u where u: "unreachable_step predicate reason rich add_row s t = Inr u"
    "try_fold (unreachable_step predicate reason rich add_row) u ts = Inr s'"
    by (auto simp: try_bind_eq_Inr)
  have "rows_IPs u = rows_IPs s \<union> (if predicate (t_ip t) then {} else {t_ip t}) \<and> (\<forall>p. snd u = Some p \<longrightarrow> nul_free (ur_IP p))"
  proof (cases "predicate (t_ip t)")
    case True
    then show ?thesis using u(1) Cons.prems(3) by (simp add: unreachable_step_def)
  next
    case False
    then have free: "nul_free (t_ip t)" using Cons.prems(2) by simp
    have ip: "ur_IP (unreachable_record reason t) = t_ip t" by (simp add: unreachable_record_def)
    have merged: "ur_IP (mergeUnreachableRecord p q) = ur_IP p" for p q by (simp add: mergeUnreachableRecord_def)
    obtain rows held where s: "s = (rows, held)" by (cases s)
    show ?thesis
    proof (cases "rich \<and> held \<noteq> None")
      case True
      then obtain p where p: "held = Some p" "rich" by auto
      have same: "t_ip t = ur_IP p" if "richUnreachableRowKey (unreachable_record reason t) = richUnreachableRowKey p"
        using row_key_IP [OF that] free Cons.prems(3) by (simp add: s p ip)
      show ?thesis
        using u(1) False p free same Cons.prems(3)
        by (auto simp: unreachable_step_def Let_def s emit_row_def add_row_def rows_IPs_def ip merged split: if_splits)
    next
      case nothing: False
      then show ?thesis
        using u(1) False free Cons.prems(3)
        by (cases rich) (auto simp: unreachable_step_def Let_def s emit_row_def add_row_def rows_IPs_def ip)
    qed
  qed
  then show ?case using Cons.IH [OF u(2)] Cons.prems(2) by (auto split: if_splits)
qed simp

lemma visit_rows_IPs:
  assumes "visitUnreachableRows plan (Some predicate) reason add_row [] = Inr rows"
    and "\<forall>t \<in> set (plan_targets plan). \<not> predicate (t_ip t) \<longrightarrow> nul_free (t_ip t)"
  shows "ur_IP ` set rows = {t_ip t |t. t \<in> set (plan_targets plan) \<and> \<not> predicate (t_ip t)}"
proof -
  obtain st held where v: "plan_visit plan (unreachable_step predicate reason (richGroups plan \<noteq> None) add_row) ([], None) = Inr (st, held)"
    "rows = (case held of None \<Rightarrow> st | Some p \<Rightarrow> st @ [p])"
    using assms(1) by (auto simp: visitUnreachableRows_def normalizeReachablePredicate_def add_row_def split: sum.splits option.splits)
  have "rows_IPs (st, held) = {t_ip t |t. t \<in> set (plan_targets plan) \<and> \<not> predicate (t_ip t)}"
    using unreachable_fold [OF v(1) [unfolded plan_visit_readable [OF plan_visit_Inr_readable [OF v(1)]]] assms(2)]
    by (simp add: rows_IPs_def)
  then show ?thesis by (auto simp: v(2) rows_IPs_def split: option.splits)
qed

section \<open>The file\<close>

definition unreachable_file :: "UnreachableRecord list \<Rightarrow> string" where
  "unreachable_file rows = concat (map csv_line (unreachable_header # map unreachable_row rows))"

definition writer_holds :: "UnreachableRecord list \<Rightarrow> UnreachableWriter \<Rightarrow> bool" where
  "writer_holds rows uw \<longleftrightarrow> uw_wroteHeader uw \<and> uw_out uw = unreachable_file rows"

lemma put_row_ok: "put_row uw row = (True, uw') \<Longrightarrow> uw_out uw' = uw_out uw @ csv_line row \<and> uw_wroteHeader uw' = uw_wroteHeader uw"
  by (auto simp: put_row_def split: list.splits option.splits)

lemma write_record_holds:
  assumes "writer_holds rows uw" and "write_record uw row = Inr uw'"
  shows "writer_holds (rows @ [row]) uw'"
  using assms put_row_ok [of uw "unreachable_row row" uw']
  by (auto simp: write_record_def unreachable_Write_def unreachable_WriteHeader_def writer_holds_def unreachable_file_def
      split: prod.splits if_splits)

lemma write_step_sim:
  assumes "unreachable_step predicate reason rich write_record (uw, held) t = Inr (uw', held')" and "writer_holds rows uw"
  shows "\<exists>rows'. unreachable_step predicate reason rich add_row (rows, held) t = Inr (rows', held') \<and> writer_holds rows' uw'"
  using assms
  by (auto simp: unreachable_step_def Let_def emit_row_def add_row_def write_record_holds split: if_splits option.splits sum.splits)

lemma write_fold_sim:
  assumes "try_fold (unreachable_step predicate reason rich write_record) (uw, held) ts = Inr (uw', held')" and "writer_holds rows uw"
  shows "\<exists>rows'. try_fold (unreachable_step predicate reason rich add_row) (rows, held) ts = Inr (rows', held') \<and> writer_holds rows' uw'"
  using assms
proof (induction ts arbitrary: uw held rows)
  case (Cons t ts)
  from Cons.prems(1) obtain u h where u: "unreachable_step predicate reason rich write_record (uw, held) t = Inr (u, h)"
    "try_fold (unreachable_step predicate reason rich write_record) (u, h) ts = Inr (uw', held')"
    by (auto simp: try_bind_eq_Inr)
  obtain rows1 where r: "unreachable_step predicate reason rich add_row (rows, held) t = Inr (rows1, h)" "writer_holds rows1 u"
    using write_step_sim [OF u(1) Cons.prems(2)] by blast
  show ?case using Cons.IH [OF u(2) r(2)] r(1) by simp
qed simp

lemma write_visit_sim:
  assumes "visitUnreachableRows plan reachable reason write_record uw = Inr uw'" and "writer_holds rows uw"
  shows "\<exists>rows'. visitUnreachableRows plan reachable reason add_row rows = Inr rows' \<and> writer_holds rows' uw'"
proof -
  let ?v = "\<lambda>visit. unreachable_step (normalizeReachablePredicate reachable) reason (richGroups plan \<noteq> None) visit"
  obtain u held where u: "plan_visit plan (?v write_record) (uw, None) = Inr (u, held)"
    "case held of None \<Rightarrow> u = uw' | Some p \<Rightarrow> write_record u p = Inr uw'"
    using assms(1) by (auto simp: visitUnreachableRows_def split: sum.splits option.splits)
  note readable = plan_visit_Inr_readable [OF u(1)]
  obtain rows1 where r: "plan_visit plan (?v add_row) (rows, None) = Inr (rows1, held)" "writer_holds rows1 u"
    using write_fold_sim [OF u(1) [unfolded plan_visit_readable [OF readable]] assms(2)]
    unfolding plan_visit_readable [OF readable] by blast
  show ?thesis
    using r u(2) write_record_holds [OF r(2)]
    by (cases held) (auto simp: visitUnreachableRows_def add_row_def)
qed

lemma open_output_holds:
  assumes "openUnreachableOutput env fs final = (Some uw, fs1)"
  shows "writer_holds [] uw \<and> fs1 = fs(temp_path final \<mapsto> uw_out uw)"
  using assms
    put_row_ok [of "\<lparr>uw_out = [], uw_script = write_script env, uw_wroteHeader = True\<rparr>" unreachable_header uw]
  by (auto simp: openUnreachableOutput_def unreachable_WriteHeader_def writer_holds_def unreachable_file_def
      split: if_splits prod.splits)

lemma temp_path_neq [simp]: "temp_path p \<noteq> p" "p \<noteq> temp_path p"
  by (simp_all add: temp_path_def)

lemma finish_output_exact:
  assumes "finish_output env fs final produce = (err, fs')"
    and sim: "\<And>uw uw'. writer_holds [] uw \<Longrightarrow> produce uw = Inr uw' \<Longrightarrow> \<exists>rows. P rows \<and> writer_holds rows uw'"
  shows "(\<forall>p. p \<noteq> final \<and> p \<noteq> temp_path final \<longrightarrow> fs' p = fs p) \<and> (err \<noteq> None \<longrightarrow> fs' final = fs final) \<and>
    (err = None \<longrightarrow> (\<exists>rows. P rows \<and> fs' final = Some (unreachable_file rows)) \<and> fs' (temp_path final) = None)"
proof (cases "openUnreachableOutput env fs final")
  case (Pair r fs1)
  show ?thesis
  proof (cases r)
    case None
    then have "err = Some PrePingOutput \<and> fs' = fs1" using assms(1) Pair by (auto simp: finish_output_def)
    moreover have "\<forall>p. p \<noteq> temp_path final \<longrightarrow> fs1 p = fs p"
      using Pair by (auto simp: openUnreachableOutput_def split: if_splits prod.splits)
    ultimately show ?thesis by simp
  next
    case (Some uw)
    note opened = open_output_holds [OF Pair [unfolded Some]]
    show ?thesis
    proof (cases "produce uw")
      case (Inl e)
      then show ?thesis
        using assms(1) Pair Some opened
        by (cases e) (auto simp: finish_output_def unreachable_Finalize_def split: if_splits)
    next
      case (Inr uw')
      obtain rows where "P rows" "writer_holds rows uw'" using sim [OF _ Inr] opened by blast
      then show ?thesis
        using assms(1) Pair Some opened Inr
        by (auto simp: finish_output_def unreachable_Finalize_def writer_holds_def split: if_splits)
    qed
  qed
qed

lemma visit_no_unreachable:
  assumes "plan_readable plan"
  shows "visitUnreachableRows plan (Some (reachablePredicate [])) reason add_row [] = Inr []"
proof -
  have "reachablePredicate [] ip" for ip by (simp add: reachablePredicate_iff)
  then have "try_fold (unreachable_step (reachablePredicate []) reason rich add_row) s ts = Inr s" for rich s ts
    by (induction ts) (simp_all add: unreachable_step_def)
  then show ?thesis
    by (simp add: visitUnreachableRows_def normalizeReachablePredicate_def plan_visit_readable [OF assms])
qed

text \<open>C14. A pre-ping is all or nothing. Whatever fails (the estimate, the groups, a check, a write, the
  rename, a cancellation), the path of its results is as it was and only its temporary file may differ;
  when it succeeds the path holds the header and exactly the rows of the plan's unreachable targets, and
  the temporary file is gone.\<close>

theorem preping_file_exact:
  assumes "RunPrePing canceled checks env fs final reason limits records = (err, fs')"
  shows "(\<forall>p. p \<noteq> final \<and> p \<noteq> temp_path final \<longrightarrow> fs' p = fs p) \<and> (err \<noteq> None \<longrightarrow> fs' final = fs final) \<and>
    (err = None \<longrightarrow> (\<exists>plan ips unreachable rows. buildAuthorizedPreScanPlan records = Inr plan \<and>
       collectUniqueIPs plan = Inr ips \<and> checks ips = Inr unreachable \<and>
       visitUnreachableRows plan (Some (reachablePredicate unreachable)) reason add_row [] = Inr rows \<and>
       fs' final = Some (unreachable_file rows) \<and> fs' (temp_path final) = None))"
proof -
  consider (early) e where "err = Some e" "fs' = fs"
    | (late) plan ips unreachable where "buildAuthorizedPreScanPlan records = Inr plan" "collectUniqueIPs plan = Inr ips"
      "checks ips = Inr unreachable"
      "(err, fs') = (if unreachable = [] then finalizeUnreachableResults env fs final []
         else finalizeUnreachableResultsFromPlan env fs final plan (reachablePredicate unreachable) reason)"
    using assms by (auto simp: RunPrePing_def try_bind_eq_Inr split: if_splits sum.splits)
  then show ?thesis
  proof cases
    case late
    let ?P = "\<lambda>rows. visitUnreachableRows plan (Some (reachablePredicate unreachable)) reason add_row [] = Inr rows"
    obtain uniq where "plan_visit plan unique_step [] = Inr uniq"
      using late(2) by (auto simp: collectUniqueIPs_def split: sum.splits)
    note readable = plan_visit_Inr_readable [OF this]
    have "(\<forall>p. p \<noteq> final \<and> p \<noteq> temp_path final \<longrightarrow> fs' p = fs p) \<and> (err \<noteq> None \<longrightarrow> fs' final = fs final) \<and>
      (err = None \<longrightarrow> (\<exists>rows. ?P rows \<and> fs' final = Some (unreachable_file rows)) \<and> fs' (temp_path final) = None)"
    proof (cases "unreachable = []")
      case True
      show ?thesis
      proof (rule finish_output_exact)
        show "finish_output env fs final (\<lambda>uw. try_fold write_record uw []) = (err, fs')"
          using late(4) True by (simp add: finalizeUnreachableResults_def)
      next
        fix uw uw'
        assume "writer_holds [] uw" "try_fold write_record uw [] = Inr uw'"
        then show "\<exists>rows. ?P rows \<and> writer_holds rows uw'" using visit_no_unreachable [OF readable] True by auto
      qed
    next
      case False
      show ?thesis
      proof (rule finish_output_exact)
        show "finish_output env fs final (\<lambda>uw. visitUnreachableRows plan (Some (reachablePredicate unreachable)) reason write_record uw) = (err, fs')"
          using late(4) False by (simp add: finalizeUnreachableResultsFromPlan_def)
      qed (rule write_visit_sim)
    qed
    then show ?thesis using late(1-3) by blast
  qed simp
qed

section \<open>The blocklist\<close>

definition row_address :: "string \<Rightarrow> 32 word option" where
  "row_address ip = map_option be_u32 (parse_ip4 (trim_space ip))"

lemma blocklist_fold:
  assumes "\<forall>r \<in> set rows. row_address (ur_IP r) \<noteq> None" and "distinct out"
  shows "\<exists>bl. try_fold (blocklist_step 0) out (map (\<lambda>r. Inr (unreachable_row r)) rows) = Inr bl \<and> distinct bl \<and>
    set bl = set out \<union> {w. \<exists>r \<in> set rows. row_address (ur_IP r) = Some w}"
  using assms
proof (induction rows arbitrary: out)
  case (Cons r rows)
  obtain v where v: "parse_ip4 (trim_space (ur_IP r)) = Some v" using Cons.prems(1) by (auto simp: row_address_def)
  have len: "length v = 4" by (rule parse_ip4_length [OF v])
  have ne: "trim_space (ur_IP r) \<noteq> []" using v by (auto simp: parse_ip4_def parse_ip_def parse_addr_def)
  let ?out = "if be_u32 v \<in> set out then out else out @ [be_u32 v]"
  have step: "blocklist_step 0 out (Inr (unreachable_row r)) = Inr ?out"
    using v ne len by (simp add: blocklist_step_def unreachable_row_def unreachableColumns_def Let_def ipv4ToUint32_def)
  have addr: "row_address (ur_IP r) = Some (be_u32 v)" by (simp add: row_address_def v)
  obtain bl where bl: "try_fold (blocklist_step 0) ?out (map (\<lambda>r. Inr (unreachable_row r)) rows) = Inr bl" "distinct bl"
    "set bl = set ?out \<union> {w. \<exists>r \<in> set rows. row_address (ur_IP r) = Some w}"
  proof -
    have "distinct ?out" "\<forall>r \<in> set rows. row_address (ur_IP r) \<noteq> None" using Cons.prems by simp_all
    from Cons.IH [OF this(2,1)] that show ?thesis by blast
  qed
  have "set bl = set out \<union> {w. \<exists>r' \<in> set (r # rows). row_address (ur_IP r') = Some w}"
    unfolding bl(3) using addr by auto
  moreover have "try_fold (blocklist_step 0) out (map (\<lambda>r. Inr (unreachable_row r)) (r # rows)) = Inr bl"
    by (simp only: list.map try_fold.simps step try_bind_Inr bl(1))
  ultimately show ?case using bl(2) by blast
qed simp

lemma header_ip: "ip_column 0 unreachable_header = Some 0"
  by code_simp

lemma blocklist_of_rows:
  assumes "\<forall>r \<in> set rows. row_address (ur_IP r) \<noteq> None"
  shows "\<exists>bl. parseUnreachableBlocklist (Some (Inr unreachable_header # map (\<lambda>r. Inr (unreachable_row r)) rows)) = Inr bl \<and>
    sorted bl \<and> distinct bl \<and> set bl = {w. \<exists>r \<in> set rows. row_address (ur_IP r) = Some w}"
  using blocklist_fold [OF assms, of "[]"] by (auto simp: parseUnreachableBlocklist_def header_ip)

text \<open>Targets with printed addresses, as the expansion of selectors and the policy parser yield them.\<close>

definition canonical_target :: "scanTarget \<Rightarrow> bool" where
  "canonical_target t \<longleftrightarrow> t_ip t = u32_string (ipv4ToUint32 (t_ip t))"

lemma trim_u32_string [simp]: "trim_space (u32_string w) = u32_string w"
proof -
  have "list_all is_print (v4_string (put_u32 w))"
    unfolding list_all_iff
  proof
    fix c
    assume "c \<in> set (v4_string (put_u32 w))"
    then have "is_digit c \<or> c = CHR ''.''" by (rule v4_string_chars [OF length_put_u32])
    then show "is_print c" by (auto simp: is_print_def is_digit_def)
  qed
  then show ?thesis by (simp add: u32_string_def trim_space_print)
qed

lemma canonical_address: "canonical_target t \<Longrightarrow> row_address (t_ip t) = Some (ipv4ToUint32 (t_ip t))"
  unfolding canonical_target_def row_address_def by (metis be_u32_put_u32 option.simps(9) parse_ip4_u32_string trim_u32_string)

lemma unique_fold:
  assumes "try_fold unique_step uniq ts = Inr uniq'" and "\<forall>t \<in> set ts. canonical_target t"
    and "\<forall>e \<in> set uniq. snd e = u32_string (fst e)" and "distinct (map fst uniq)"
  shows "(\<forall>e \<in> set uniq'. snd e = u32_string (fst e)) \<and> distinct (map fst uniq') \<and>
    fst ` set uniq' = fst ` set uniq \<union> (\<lambda>t. ipv4ToUint32 (t_ip t)) ` set ts"
  using assms
proof (induction ts arbitrary: uniq)
  case (Cons t ts)
  let ?u = "AList.update (ipv4ToUint32 (t_ip t)) (t_ip t) uniq"
  have dom: "fst ` set ?u = insert (ipv4ToUint32 (t_ip t)) (fst ` set uniq)" by (simp add: dom_update)
  have dist: "distinct (map fst ?u)" using Cons.prems(4) by (simp add: distinct_update)
  have printed: "\<forall>e \<in> set ?u. snd e = u32_string (fst e)"
  proof
    fix e
    assume "e \<in> set ?u"
    then have "map_of ?u (fst e) = Some (snd e)" by (intro map_of_is_SomeI [OF dist]) simp
    then show "snd e = u32_string (fst e)"
      using Cons.prems(2,3) by (auto simp: canonical_target_def split: if_splits dest!: map_of_SomeD)
  qed
  have "try_fold unique_step ?u ts = Inr uniq'" using Cons.prems(1) by (simp add: unique_step_def [of uniq])
  from Cons.IH [OF this _ printed dist] show ?case using Cons.prems(2) dom by auto
qed simp

lemma collected_IPs:
  assumes "collectUniqueIPs plan = Inr ips" and "\<forall>t \<in> set (plan_targets plan). canonical_target t"
  shows "set ips = t_ip ` set (plan_targets plan)"
proof -
  obtain uniq where u: "plan_visit plan unique_step [] = Inr uniq" "ips = map snd (sort_key fst uniq)"
    using assms(1) by (auto simp: collectUniqueIPs_def split: sum.splits)
  have f: "try_fold unique_step [] (plan_targets plan) = Inr uniq"
    using u(1) plan_visit_readable [OF plan_visit_Inr_readable [OF u(1)]] by metis
  have "(\<forall>e \<in> set uniq. snd e = u32_string (fst e)) \<and> fst ` set uniq = (\<lambda>t. ipv4ToUint32 (t_ip t)) ` set (plan_targets plan)"
    using unique_fold [OF f assms(2)] by simp
  then have "snd ` set uniq = (\<lambda>t. u32_string (ipv4ToUint32 (t_ip t))) ` set (plan_targets plan)"
    by (metis (no_types, lifting) image_cong image_image)
  also have "\<dots> = t_ip ` set (plan_targets plan)"
    using assms(2) by (intro image_cong) (simp_all add: canonical_target_def)
  finally show ?thesis by (simp add: u(2))
qed

text \<open>C15. The blocklist carries the pre-ping to the next step without loss. For a plan whose targets have
  printed addresses and checks that answered, reading the rows that the pre-ping writes gives a sorted list
  without repetition, never an error, and the predicate built from that list, which bucket generation and
  every later scan filter by, keeps exactly the targets that did not answer unreachable.\<close>

theorem blocklist_keeps_answering:
  assumes "collectUniqueIPs plan = Inr ips" and "\<forall>t \<in> set (plan_targets plan). canonical_target t"
    and "unreachable = sort (map ipv4ToUint32 (filter (\<lambda>ip. answer ip = Unreachable) ips))"
    and "visitUnreachableRows plan (Some (reachablePredicate unreachable)) reason add_row [] = Inr rows"
  shows "\<exists>bl. parseUnreachableBlocklist (Some (Inr unreachable_header # map (\<lambda>r. Inr (unreachable_row r)) rows)) = Inr bl \<and>
    sorted bl \<and> distinct bl \<and>
    (\<forall>t \<in> set (plan_targets plan). reachablePredicate bl (t_ip t) \<longleftrightarrow> answer (t_ip t) \<noteq> Unreachable)"
proof -
  have reach: "reachablePredicate bl (t_ip t) \<longleftrightarrow> ipv4ToUint32 (t_ip t) \<notin> set bl" if "t \<in> set (plan_targets plan)" for bl t
    using canonical_address [of t] assms(2) that by (auto simp: reachablePredicate_iff row_address_def)
  have found: "ipv4ToUint32 (t_ip t) \<in> set unreachable \<longleftrightarrow> answer (t_ip t) = Unreachable" if t: "t \<in> set (plan_targets plan)" for t
  proof -
    have "ipv4ToUint32 (t_ip t) \<in> set unreachable \<longleftrightarrow>
        (\<exists>t' \<in> set (plan_targets plan). answer (t_ip t') = Unreachable \<and> ipv4ToUint32 (t_ip t') = ipv4ToUint32 (t_ip t))"
      unfolding assms(3) by (simp add: collected_IPs [OF assms(1,2)] image_iff) metis
    moreover have "t_ip t' = t_ip t" if "t' \<in> set (plan_targets plan)" "ipv4ToUint32 (t_ip t') = ipv4ToUint32 (t_ip t)" for t'
      using that t assms(2) unfolding canonical_target_def by metis
    ultimately show ?thesis using t by metis
  qed
  have free: "\<forall>t \<in> set (plan_targets plan). \<not> reachablePredicate unreachable (t_ip t) \<longrightarrow> nul_free (t_ip t)"
  proof (intro ballI impI)
    fix t
    assume "\<not> reachablePredicate unreachable (t_ip t)"
    then obtain v where "parse_ip4 (trim_space (t_ip t)) = Some v" by (auto simp: reachablePredicate_iff)
    then have "nul_free (trim_space (t_ip t))" using trim_no_nul by (simp add: nul_free_def)
    then show "nul_free (t_ip t)" by (rule trim_nul_free)
  qed
  have IPs: "ur_IP ` set rows = {t_ip t |t. t \<in> set (plan_targets plan) \<and> \<not> reachablePredicate unreachable (t_ip t)}"
    by (rule visit_rows_IPs [OF assms(4) free])
  have addr: "\<forall>r \<in> set rows. row_address (ur_IP r) \<noteq> None"
  proof
    fix r
    assume "r \<in> set rows"
    then obtain t where "ur_IP r = t_ip t" "t \<in> set (plan_targets plan)" using IPs by blast
    then show "row_address (ur_IP r) \<noteq> None" using canonical_address assms(2) by simp
  qed
  obtain bl where bl: "parseUnreachableBlocklist (Some (Inr unreachable_header # map (\<lambda>r. Inr (unreachable_row r)) rows)) = Inr bl"
    "sorted bl" "distinct bl" "set bl = {w. \<exists>r \<in> set rows. row_address (ur_IP r) = Some w}"
    using blocklist_of_rows [OF addr] by blast
  have "ipv4ToUint32 (t_ip t) \<in> set bl \<longleftrightarrow> answer (t_ip t) = Unreachable" if t: "t \<in> set (plan_targets plan)" for t
  proof -
    have "(\<exists>r \<in> set rows. row_address (ur_IP r) = Some w) \<longleftrightarrow> (\<exists>ip \<in> ur_IP ` set rows. row_address ip = Some w)" for w
      by blast
    then have "ipv4ToUint32 (t_ip t) \<in> set bl \<longleftrightarrow> (\<exists>t' \<in> set (plan_targets plan).
        \<not> reachablePredicate unreachable (t_ip t') \<and> row_address (t_ip t') = Some (ipv4ToUint32 (t_ip t)))"
      unfolding bl(4) IPs by auto
    also have "\<dots> \<longleftrightarrow> (\<exists>t' \<in> set (plan_targets plan).
        ipv4ToUint32 (t_ip t) \<in> set unreachable \<and> ipv4ToUint32 (t_ip t') = ipv4ToUint32 (t_ip t))"
      using reach canonical_address assms(2) by (metis option.inject)
    also have "\<dots> \<longleftrightarrow> answer (t_ip t) = Unreachable" using found [OF t] t by auto
    finally show ?thesis .
  qed
  then show ?thesis using bl(1-3) reach by blast
qed

section \<open>Examples\<close>

definition good_env :: unreachable_env where
  "good_env = \<lparr>create_ok = True, close_ok = True, rename_ok = True, write_script = []\<rparr>"

theorem preping_file_exact_witness:
  "\<exists>err fs'. RunPrePing (False, False) (\<lambda>ips. Inr (map ipv4ToUint32 ips)) good_env Map.empty ''out'' ''no answer'' no_limits
      sample_rows = (err, fs') \<and> fs' ''other'' = None \<and>
    (if err = None then \<exists>rows. fs' ''out'' = Some (unreachable_file rows) else fs' ''out'' = None)"
proof -
  obtain err fs' where run: "RunPrePing (False, False) (\<lambda>ips. Inr (map ipv4ToUint32 ips)) good_env Map.empty ''out'' ''no answer''
      no_limits sample_rows = (err, fs')" by fastforce
  have "''other'' \<noteq> ''out'' \<and> ''other'' \<noteq> temp_path ''out''" by code_simp
  then show ?thesis using preping_file_exact [OF run] run by auto
qed

definition sample_plan :: authorizedPreScanPlan where
  "sample_plan = \<lparr>richGroups = Some [(''10.0.0.0/24'', empty_group\<lparr>g_targets := map (\<lambda>ip.
       rich_target (sample_rich ip ''accept'') ''10.0.0.0/24'' ip ''key'') [''10.0.0.5'', ''10.0.0.7'']\<rparr>)],
     richKeys = [''10.0.0.0/24''], basicRows = []\<rparr>"

theorem blocklist_keeps_answering_witness:
  "\<exists>bl. (\<forall>t \<in> set (plan_targets sample_plan). reachablePredicate bl (t_ip t) \<longleftrightarrow>
    (if t_ip t = ''10.0.0.7'' then Unreachable else Reachable) \<noteq> Unreachable)"
proof -
  let ?answer = "\<lambda>ip. if ip = ''10.0.0.7'' then Unreachable else Reachable"
  have ips: "collectUniqueIPs sample_plan = Inr [''10.0.0.5'', ''10.0.0.7'']" by code_simp
  have canonical: "\<forall>t \<in> set (plan_targets sample_plan). canonical_target t" by code_simp
  have "\<not> isl (visitUnreachableRows sample_plan (Some (reachablePredicate (sort (map ipv4ToUint32 (filter (\<lambda>ip. ?answer ip = Unreachable)
      [''10.0.0.5'', ''10.0.0.7'']))))) [] add_row [])" by code_simp
  then obtain rows where rows: "visitUnreachableRows sample_plan (Some (reachablePredicate (sort (map ipv4ToUint32 (filter (\<lambda>ip. ?answer ip = Unreachable)
      [''10.0.0.5'', ''10.0.0.7'']))))) [] add_row [] = Inr rows" by (metis sum.collapse(2))
  from blocklist_keeps_answering [OF ips canonical refl rows] show ?thesis by blast
qed

end
