(* ===== verification/SpeedControl.thy ===== *)
theory SpeedControl
  imports ChunkLifecycle Complex_Main
begin

text \<open>
  How a running scan is slowed down and paused: \<open>pkg/speedctrl\<close> (the controller with its gate and the
  key loop), \<open>pkg/ratelimit\<close> (the token bucket of a chunk), \<open>pkg/scanapp/pressure_monitor.go\<close> (the poll of
  the router pressure), and the waits of \<open>dispatchTasks\<close> that they act on.

  The parts run in different goroutines. A run is a list of events, each an atomic action of one of them, in
  any order; \<open>throttle_step\<close> is \<open>None\<close> where the action is not possible. What the dispatcher sends, and to
  whom, is theory \<open>ScanPipeline\<close>.
\<close>

section \<open>The controller\<close>

text \<open>A channel is its index in \<open>closedChans\<close>, which says of every channel made so far whether it is closed.
  A receive of a closed channel never blocks, so an open gate is a closed channel.\<close>

record Controller =
  apiPaused :: bool
  manualPaused :: bool
  gate :: nat
  closedChans :: "bool list"

definition IsPaused :: "Controller \<Rightarrow> bool" where
  "IsPaused c \<longleftrightarrow> apiPaused c \<or> manualPaused c"

definition recomputeLocked :: "Controller \<Rightarrow> Controller" where
  "recomputeLocked c =
     (if apiPaused c \<or> manualPaused c then
        (if closedChans c ! gate c then c\<lparr>gate := length (closedChans c), closedChans := closedChans c @ [False]\<rparr> else c)
      else (if closedChans c ! gate c then c else c\<lparr>closedChans := (closedChans c)[gate c := True]\<rparr>))"

definition SetAPIPaused :: "bool \<Rightarrow> Controller \<Rightarrow> Controller" where
  "SetAPIPaused v c = recomputeLocked (c\<lparr>apiPaused := v\<rparr>)"

definition SetManualPaused :: "bool \<Rightarrow> Controller \<Rightarrow> Controller" where
  "SetManualPaused v c = recomputeLocked (c\<lparr>manualPaused := v\<rparr>)"

definition ToggleManualPaused :: "Controller \<Rightarrow> Controller" where
  "ToggleManualPaused c = recomputeLocked (c\<lparr>manualPaused := \<not> manualPaused c\<rparr>)"

definition WithAPIEnabled :: "bool \<Rightarrow> Controller \<Rightarrow> Controller" where
  "WithAPIEnabled enabled c = (if \<not> enabled then c\<lparr>apiPaused := False\<rparr> else c)"

definition NewController :: "(Controller \<Rightarrow> Controller) list \<Rightarrow> Controller" where
  "NewController opts = fold (\<lambda>opt c. opt c) opts
     \<lparr>apiPaused = False, manualPaused = False, gate = 0, closedChans = [True]\<rparr>"

text \<open>Every channel but the gate is closed, and the gate is closed exactly while nothing is paused.\<close>

definition gate_ok :: "Controller \<Rightarrow> bool" where
  "gate_ok c \<longleftrightarrow> gate c < length (closedChans c) \<and>
     (\<forall>i < length (closedChans c). closedChans c ! i \<longleftrightarrow> i \<noteq> gate c \<or> \<not> IsPaused c)"

lemma recompute_ok:
  assumes "gate c < length (closedChans c)" and "\<forall>i < length (closedChans c). i \<noteq> gate c \<longrightarrow> closedChans c ! i"
  shows "gate_ok (recomputeLocked c)"
  using assms by (auto simp: gate_ok_def recomputeLocked_def IsPaused_def nth_append nth_list_update)

lemma recompute_flags [simp]:
  "apiPaused (recomputeLocked c) = apiPaused c" "manualPaused (recomputeLocked c) = manualPaused c"
  by (simp_all add: recomputeLocked_def)

lemma recompute_closed:
  "i < length (closedChans c) \<Longrightarrow> closedChans c ! i \<Longrightarrow>
    i < length (closedChans (recomputeLocked c)) \<and> closedChans (recomputeLocked c) ! i"
  by (cases "i = gate c") (auto simp: recomputeLocked_def nth_append)

lemma set_ok:
  assumes "gate_ok c"
  shows "gate_ok (SetAPIPaused v c)" "gate_ok (SetManualPaused v c)" "gate_ok (ToggleManualPaused c)"
proof -
  have "gate c < length (closedChans c)" "\<forall>i < length (closedChans c). i \<noteq> gate c \<longrightarrow> closedChans c ! i"
    using assms by (auto simp: gate_ok_def)
  then show "gate_ok (SetAPIPaused v c)" "gate_ok (SetManualPaused v c)" "gate_ok (ToggleManualPaused c)"
    by (simp_all add: SetAPIPaused_def SetManualPaused_def ToggleManualPaused_def recompute_ok)
qed

lemma set_closed:
  assumes "i < length (closedChans c)" and "closedChans c ! i"
  shows "i < length (closedChans (SetAPIPaused v c)) \<and> closedChans (SetAPIPaused v c) ! i"
    "i < length (closedChans (ToggleManualPaused c)) \<and> closedChans (ToggleManualPaused c) ! i"
  using assms unfolding SetAPIPaused_def ToggleManualPaused_def by (auto intro!: recompute_closed)

lemma set_paused [simp]:
  "apiPaused (SetAPIPaused v c) = v" "manualPaused (SetAPIPaused v c) = manualPaused c"
  "apiPaused (SetManualPaused v c) = apiPaused c" "manualPaused (SetManualPaused v c) = v"
  "apiPaused (ToggleManualPaused c) = apiPaused c" "manualPaused (ToggleManualPaused c) = (\<not> manualPaused c)"
  by (simp_all add: SetAPIPaused_def SetManualPaused_def ToggleManualPaused_def)

text \<open>The only option of the package changes nothing, as a new controller is not paused.\<close>

lemma new_controller:
  "NewController [WithAPIEnabled enabled] = \<lparr>apiPaused = False, manualPaused = False, gate = 0, closedChans = [True]\<rparr>"
  by (simp add: NewController_def WithAPIEnabled_def)

lemma new_ok: "gate_ok (NewController [WithAPIEnabled enabled])"
  by (simp add: new_controller gate_ok_def IsPaused_def)

text \<open>\<open>WithAPIEnabled(false)\<close> is documented to disable \<open>SetAPIPaused\<close>; it does not.\<close>

lemma api_option_has_no_effect: "IsPaused (SetAPIPaused True (NewController [WithAPIEnabled False]))"
  by (simp add: IsPaused_def)

section \<open>The token bucket\<close>

definition MaxRate :: int where "MaxRate = 1000000"
definition second :: int where "second = 1000000000"

record LeakyBucket =
  tokens :: nat
  capacity :: nat
  interval :: int

definition NewLeakyBucket :: "int \<Rightarrow> int \<Rightarrow> LeakyBucket" where
  "NewLeakyBucket rate0 capacity0 =
     (let rate1 = (if rate0 \<le> 0 then 1 else rate0);
          rate2 = (if rate1 > MaxRate then MaxRate else rate1);
          capacity1 = (if capacity0 \<le> 0 then 1 else capacity0);
          capacity2 = (if capacity1 > MaxCapacity then MaxCapacity else capacity1)
      in \<lparr>tokens = nat capacity2, capacity = nat capacity2, interval = second div rate2\<rparr>)"

definition bucket_tick :: "LeakyBucket \<Rightarrow> LeakyBucket" where
  "bucket_tick b = (if tokens b < capacity b then b\<lparr>tokens := Suc (tokens b)\<rparr> else b)"

definition bucket_Acquire :: "LeakyBucket \<Rightarrow> LeakyBucket option" where
  "bucket_Acquire b = (if tokens b = 0 then None else Some (b\<lparr>tokens := tokens b - 1\<rparr>))"

text \<open>\<open>newRuntimeBucket\<close> of theory \<open>ChunkLifecycle\<close> decides on the bucket of a chunk: one whose remaining
  work fits in the burst gets none.\<close>

definition runtime_bucket :: "int \<Rightarrow> runtimePolicy \<Rightarrow> LeakyBucket option" where
  "runtime_bucket remaining policy = map_option (\<lambda>(rate, burst). NewLeakyBucket rate burst) (newRuntimeBucket remaining policy)"

lemma new_bucket_bounds:
  "tokens (NewLeakyBucket r c) = capacity (NewLeakyBucket r c)" "0 < capacity (NewLeakyBucket r c)"
  "int (capacity (NewLeakyBucket r c)) \<le> MaxCapacity"
  "0 < c \<Longrightarrow> int (capacity (NewLeakyBucket r c)) \<le> c"
  "1000 \<le> interval (NewLeakyBucket r c)" "interval (NewLeakyBucket r c) \<le> second"
proof -
  define q where "q = (if (if r \<le> 0 then 1 else r) > MaxRate then MaxRate else if r \<le> 0 then 1 else r)"
  have q: "1 \<le> q" "q \<le> 1000000" by (auto simp: q_def MaxRate_def)
  have i: "interval (NewLeakyBucket r c) = second div q" by (simp add: NewLeakyBucket_def q_def Let_def)
  have "second div 1000000 \<le> second div q" by (rule zdiv_mono2) (use q in \<open>auto simp: second_def\<close>)
  then show "1000 \<le> interval (NewLeakyBucket r c)" by (simp add: i second_def)
  have "second div q \<le> second div 1" by (rule zdiv_mono2) (use q in \<open>auto simp: second_def\<close>)
  then show "interval (NewLeakyBucket r c) \<le> second" by (simp add: i)
qed (auto simp: NewLeakyBucket_def MaxCapacity_def Let_def)

section \<open>The poll of the router pressure\<close>

text \<open>A float64 that is only compared: the finite ones are rationals. A comparison with NaN is false.\<close>

datatype pressure_value = NaN | PosInf | NegInf | Finite rat

fun pressure_ge :: "pressure_value \<Rightarrow> pressure_value \<Rightarrow> bool" where
  "pressure_ge NaN _ = False"
| "pressure_ge _ NaN = False"
| "pressure_ge PosInf _ = True"
| "pressure_ge _ PosInf = False"
| "pressure_ge _ NegInf = True"
| "pressure_ge NegInf _ = False"
| "pressure_ge (Finite a) (Finite b) = (a \<ge> b)"

datatype sample_error = NonFinitePressure string pressure_value | SampleFailed string

record SourceResult =
  srcName :: string
  srcPressure :: pressure_value
  srcErr :: "sample_error option"

record Sample =
  Maximum :: pressure_value
  Sources :: "SourceResult list"

definition nonFinitePressureError :: "string \<Rightarrow> pressure_value \<Rightarrow> sample_error option" where
  "nonFinitePressureError field v = (case v of Finite _ \<Rightarrow> None | _ \<Rightarrow> Some (NonFinitePressure field v))"

text \<open>\<open>validatePressureSample\<close> marks the failing sources and returns the first error.\<close>

definition validate_source :: "SourceResult \<Rightarrow> SourceResult \<times> sample_error option" where
  "validate_source s =
     (case srcErr s of Some _ \<Rightarrow> (s, None)
      | None \<Rightarrow>
          (case nonFinitePressureError ''Pressure'' (srcPressure s) of None \<Rightarrow> (s, None)
           | Some e \<Rightarrow> (s\<lparr>srcErr := Some e\<rparr>, Some e)))"

fun first_some :: "'a option list \<Rightarrow> 'a option" where
  "first_some [] = None"
| "first_some (x # xs) = (case x of Some a \<Rightarrow> Some a | None \<Rightarrow> first_some xs)"

definition validatePressureSample :: "Sample \<Rightarrow> Sample \<times> sample_error option" where
  "validatePressureSample s =
     (let checked = map validate_source (Sources s);
          firstError = first_some (map snd checked)
      in (s\<lparr>Sources := map fst checked\<rparr>,
          case firstError of Some e \<Rightarrow> Some e | None \<Rightarrow> nonFinitePressureError ''Maximum'' (Maximum s)))"

definition defaultPressureLimit :: int where "defaultPressureLimit = 60"

record poller =
  consecutiveFailures :: nat
  prevPaused :: bool
  apiError :: "sample_error option"
  pollEnded :: bool

definition new_poller :: poller where
  "new_poller = \<lparr>consecutiveFailures = 0, prevPaused = False, apiError = None, pollEnded = False\<rparr>"

definition poll_threshold :: "int \<Rightarrow> pressure_value" where
  "poll_threshold limit = Finite (of_int (if limit \<le> 0 then defaultPressureLimit else limit))"

text \<open>What a poll counts as: the error of the request, or else that of the sample\<close>

definition poll_error :: "Sample \<times> sample_error option \<Rightarrow> sample_error option" where
  "poll_error r = (case snd r of Some e \<Rightarrow> Some e | None \<Rightarrow> snd (validatePressureSample (fst r)))"

text \<open>One tick of \<open>pollPressureAPI\<close> while the context is not canceled: \<open>source.Sample\<close> returned \<open>r\<close>.\<close>

definition poll_round :: "int \<Rightarrow> Sample \<times> sample_error option \<Rightarrow> poller \<Rightarrow> Controller \<Rightarrow> poller \<times> Controller" where
  "poll_round limit r p c =
     (case poll_error r of
        Some e \<Rightarrow>
          let failureCount = consecutiveFailures p + 1 in
          if failureCount \<le> 2 then (p\<lparr>consecutiveFailures := failureCount\<rparr>, c)
          else (p\<lparr>consecutiveFailures := failureCount, apiError := Some e, pollEnded := True\<rparr>, c)
      | None \<Rightarrow>
          let paused = pressure_ge (Maximum (fst r)) (poll_threshold limit) in
          (p\<lparr>consecutiveFailures := 0, prevPaused := paused\<rparr>, SetAPIPaused paused c))"

fun poll_rounds :: "int \<Rightarrow> (Sample \<times> sample_error option) list \<Rightarrow> poller \<Rightarrow> Controller \<Rightarrow> poller \<times> Controller" where
  "poll_rounds limit [] p c = (p, c)"
| "poll_rounds limit (r # rs) p c =
     (if pollEnded p then (p, c) else (case poll_round limit r p c of (p', c') \<Rightarrow> poll_rounds limit rs p' c'))"

section \<open>The keyboard\<close>

text \<open>\<open>StartKeyboardLoop\<close>: one terminal, whose state is whether it is raw and how often it was restored. The
  three calls of the set-up succeed or not.\<close>

record terminal =
  isRaw :: bool
  restores :: nat
  loops :: bool

definition restore_terminal :: "terminal \<Rightarrow> terminal" where
  "restore_terminal t = t\<lparr>isRaw := False, restores := Suc (restores t)\<rparr>"

definition StartKeyboardLoop :: "bool \<Rightarrow> bool \<Rightarrow> bool \<Rightarrow> bool \<Rightarrow> terminal \<Rightarrow> bool \<times> terminal" where
  "StartKeyboardLoop isTerminal rawOk postOk signalOk t =
     (if \<not> isTerminal then (True, t)
      else if \<not> rawOk then (False, t)
      else
        let t1 = t\<lparr>isRaw := True\<rparr> in
        if \<not> postOk then (False, restore_terminal t1)
        else if \<not> signalOk then (False, restore_terminal t1)
        else (True, t1\<lparr>loops := True\<rparr>))"

text \<open>\<open>restoreOnce.Do\<close>, which the watcher of the context and the end of the loop both run\<close>

definition restore_once :: "bool \<times> terminal \<Rightarrow> bool \<times> terminal" where
  "restore_once s = (if fst s then s else (True, restore_terminal (snd s)))"

definition key_read :: "char \<Rightarrow> Controller \<Rightarrow> Controller" where
  "key_read b c = (if b = CHR '' '' then ToggleManualPaused c else c)"

text \<open>Whatever fails in the set-up, the terminal is not left raw without the loop that restores it, and the
  two parties that restore it do so once.\<close>

lemma keyboard_restores:
  assumes "StartKeyboardLoop isTerminal rawOk postOk signalOk \<lparr>isRaw = False, restores = 0, loops = False\<rparr> = (ok, t)"
  shows "isRaw t \<longleftrightarrow> loops t" "loops t \<Longrightarrow> ok" "loops t \<Longrightarrow> \<not> isRaw (snd (restore_once (restore_once (False, t))))"
    "loops t \<Longrightarrow> restores (snd (restore_once (restore_once (False, t)))) = 1"
  using assms by (auto simp: StartKeyboardLoop_def restore_terminal_def restore_once_def Let_def split: if_splits)

section \<open>The dispatcher under the controls\<close>

text \<open>The positions of one chunk in \<open>dispatchTasks\<close>: before the bucket, after it, waiting at the channel that
  \<open>ctrl.Gate()\<close> returned, past the gate with the task still to send, and stopped by the context or an error.\<close>

datatype dispatch_phase = AtBucket | AtGate | Waiting nat | Passed | Stopped

record throttled =
  th_ctrl :: Controller
  th_poller :: poller
  th_bucket :: "LeakyBucket option"
  th_ticks :: nat
  th_phase :: dispatch_phase
  th_next :: nat

datatype throttle_event = Acquire | FetchGate | PassGate | SendTask | Halt
  | Tick | Poll "Sample \<times> sample_error option" | Key char

definition throttle_acquire :: "throttled \<Rightarrow> throttled option" where
  "throttle_acquire s =
     (case th_bucket s of None \<Rightarrow> Some (s\<lparr>th_phase := AtGate\<rparr>)
      | Some b \<Rightarrow> (case bucket_Acquire b of None \<Rightarrow> None | Some b' \<Rightarrow> Some (s\<lparr>th_bucket := Some b', th_phase := AtGate\<rparr>)))"

fun throttle_step :: "int \<Rightarrow> nat \<Rightarrow> throttle_event \<Rightarrow> throttled \<Rightarrow> throttled option" where
  "throttle_step limit n Acquire s =
     (if th_phase s = AtBucket \<and> th_next s < n then throttle_acquire s else None)"
| "throttle_step limit n FetchGate s =
     (if th_phase s = AtGate then Some (s\<lparr>th_phase := Waiting (gate (th_ctrl s))\<rparr>) else None)"
| "throttle_step limit n PassGate s =
     (case th_phase s of Waiting ch \<Rightarrow> if closedChans (th_ctrl s) ! ch then Some (s\<lparr>th_phase := Passed\<rparr>) else None | _ \<Rightarrow> None)"
| "throttle_step limit n SendTask s =
     (if th_phase s = Passed then Some (s\<lparr>th_next := Suc (th_next s), th_phase := AtBucket\<rparr>) else None)"
| "throttle_step limit n Halt s = Some (s\<lparr>th_phase := Stopped\<rparr>)"
| "throttle_step limit n Tick s =
     (case th_bucket s of None \<Rightarrow> None
      | Some b \<Rightarrow> Some (s\<lparr>th_bucket := Some (bucket_tick b), th_ticks := Suc (th_ticks s)\<rparr>))"
| "throttle_step limit n (Poll r) s =
     (if pollEnded (th_poller s) then None
      else case poll_round limit r (th_poller s) (th_ctrl s) of (p, c) \<Rightarrow> Some (s\<lparr>th_poller := p, th_ctrl := c\<rparr>))"
| "throttle_step limit n (Key b) s = Some (s\<lparr>th_ctrl := key_read b (th_ctrl s)\<rparr>)"

fun throttle_run :: "int \<Rightarrow> nat \<Rightarrow> throttle_event list \<Rightarrow> throttled \<Rightarrow> throttled option" where
  "throttle_run limit n [] s = Some s"
| "throttle_run limit n (e # es) s =
     (case throttle_step limit n e s of None \<Rightarrow> None | Some s' \<Rightarrow> throttle_run limit n es s')"

definition throttle_start :: "bool \<Rightarrow> LeakyBucket option \<Rightarrow> nat \<Rightarrow> throttled" where
  "throttle_start apiEnabled bkt next0 =
     \<lparr>th_ctrl = NewController [WithAPIEnabled apiEnabled], th_poller = new_poller, th_bucket = bkt, th_ticks = 0,
      th_phase = AtBucket, th_next = next0\<rparr>"

lemma throttle_run_append:
  "throttle_run limit n (es @ es') s =
    (case throttle_run limit n es s of None \<Rightarrow> None | Some s' \<Rightarrow> throttle_run limit n es' s')"
  by (induction es arbitrary: s) (auto split: option.splits)

lemma throttle_run_invariant:
  assumes "throttle_run limit n es s = Some t" and "I s"
    and "\<And>e s s'. e \<in> set es \<Longrightarrow> I s \<Longrightarrow> throttle_step limit n e s = Some s' \<Longrightarrow> I s'"
  shows "I t"
  using assms
proof (induction es arbitrary: s)
  case (Cons e es)
  then obtain s' where s': "throttle_step limit n e s = Some s'" "throttle_run limit n es s' = Some t"
    by (auto split: option.splits)
  show ?case by (rule Cons.IH [OF s'(2)]) (use Cons.prems s'(1) in auto)
qed simp

text \<open>A token that the dispatcher has taken and not used yet\<close>

definition holds_token :: "dispatch_phase \<Rightarrow> nat" where
  "holds_token ph = (case ph of AtGate \<Rightarrow> 1 | Waiting _ \<Rightarrow> 1 | Passed \<Rightarrow> 1 | _ \<Rightarrow> 0)"

text \<open>The gate is in order, a waiting dispatcher waits at a channel that exists, and the tokens add up; after
  a stop only the upper bound is kept.\<close>

definition throttle_inv :: "nat \<Rightarrow> throttled \<Rightarrow> bool" where
  "throttle_inv next0 s \<longleftrightarrow> gate_ok (th_ctrl s) \<and> next0 \<le> th_next s \<and>
     (\<forall>ch. th_phase s = Waiting ch \<longrightarrow> ch < length (closedChans (th_ctrl s))) \<and>
     (\<forall>b. th_bucket s = Some b \<longrightarrow> tokens b \<le> capacity b \<and> 0 < capacity b \<and>
        th_next s - next0 + holds_token (th_phase s) + tokens b \<le> capacity b + th_ticks s \<and>
        (th_phase s \<noteq> Stopped \<longrightarrow> capacity b \<le> th_next s - next0 + holds_token (th_phase s) + tokens b))"

lemma key_ok: "gate_ok c \<Longrightarrow> gate_ok (key_read b c)"
  by (simp add: key_read_def set_ok)

lemma poll_ok: "gate_ok c \<Longrightarrow> gate_ok (snd (poll_round limit r p c))"
  by (auto simp: poll_round_def set_ok Let_def split: option.splits)

text \<open>A closed channel stays closed, and no channel disappears.\<close>

definition keeps_closed :: "Controller \<Rightarrow> Controller \<Rightarrow> bool" where
  "keeps_closed c c' \<longleftrightarrow> length (closedChans c) \<le> length (closedChans c') \<and>
     (\<forall>i < length (closedChans c). closedChans c ! i \<longrightarrow> closedChans c' ! i)"

lemma recompute_keeps: "keeps_closed c (recomputeLocked c)"
  using recompute_closed [of _ c] by (auto simp: keeps_closed_def recomputeLocked_def)

lemma set_keeps: "keeps_closed c (SetAPIPaused v c)" "keeps_closed c (ToggleManualPaused c)" "keeps_closed c c"
  using recompute_keeps [of "c\<lparr>apiPaused := v\<rparr>"] recompute_keeps [of "c\<lparr>manualPaused := \<not> manualPaused c\<rparr>"]
  by (simp_all add: keeps_closed_def SetAPIPaused_def ToggleManualPaused_def)

lemma key_keeps: "keeps_closed c (key_read b c)"
  by (simp add: key_read_def set_keeps)

lemma poll_keeps: "keeps_closed c (snd (poll_round limit r p c))"
  by (auto simp: poll_round_def set_keeps Let_def split: option.splits)

lemma step_keeps: "throttle_step limit n e s = Some s' \<Longrightarrow> keeps_closed (th_ctrl s) (th_ctrl s')"
  using poll_keeps [of "th_ctrl s" limit _ "th_poller s"] key_keeps [of "th_ctrl s"] set_keeps(3) [of "th_ctrl s"]
  by (cases e) (auto simp: throttle_acquire_def split: if_splits option.splits dispatch_phase.splits prod.splits,
    metis snd_conv)

lemma throttle_step_inv:
  assumes "throttle_inv next0 s" and "throttle_step limit n e s = Some s'"
  shows "throttle_inv next0 s'"
proof -
  have gate: "gate_ok (th_ctrl s')"
    using assms poll_ok [of "th_ctrl s" limit _ "th_poller s"] key_ok [of "th_ctrl s"]
    by (cases e) (auto simp: throttle_inv_def throttle_acquire_def split: if_splits option.splits dispatch_phase.splits prod.splits,
      metis snd_conv)
  have chan: "ch < length (closedChans (th_ctrl s'))" if "th_phase s' = Waiting ch" for ch
  proof -
    have "ch < length (closedChans (th_ctrl s))"
      using that assms
      by (cases e) (auto simp: throttle_inv_def gate_ok_def throttle_acquire_def split: if_splits option.splits dispatch_phase.splits prod.splits)
    then show ?thesis using step_keeps [OF assms(2)] by (simp add: keeps_closed_def)
  qed
  have "next0 \<le> th_next s' \<and>
     (\<forall>b. th_bucket s' = Some b \<longrightarrow> tokens b \<le> capacity b \<and> 0 < capacity b \<and>
        th_next s' - next0 + holds_token (th_phase s') + tokens b \<le> capacity b + th_ticks s' \<and>
        (th_phase s' \<noteq> Stopped \<longrightarrow> capacity b \<le> th_next s' - next0 + holds_token (th_phase s') + tokens b))"
  proof (cases "th_bucket s")
    case None
    then have "th_bucket s' = None \<and> th_next s \<le> th_next s'"
      using assms(2) by (cases e) (auto simp: throttle_acquire_def split: if_splits option.splits dispatch_phase.splits prod.splits)
    then show ?thesis using assms(1) by (auto simp: throttle_inv_def)
  next
    case (Some b)
    note tokens = assms(1) [unfolded throttle_inv_def, THEN conjunct2, THEN conjunct2, THEN conjunct2, rule_format, OF Some]
    note start = assms(1) [unfolded throttle_inv_def, THEN conjunct2, THEN conjunct1]
    show ?thesis
      using assms(2) Some tokens start
      by (cases e; simp add: throttle_acquire_def bucket_Acquire_def bucket_tick_def holds_token_def
        split: if_splits option.splits dispatch_phase.splits prod.splits; (clarsimp; linarith)?)
  qed
  then show ?thesis using gate chan by (auto simp: throttle_inv_def)
qed

lemma throttle_start_inv:
  assumes "\<forall>b. bkt = Some b \<longrightarrow> tokens b = capacity b \<and> 0 < capacity b"
  shows "throttle_inv next0 (throttle_start api bkt next0)"
  using assms new_ok [of api] by (simp add: throttle_inv_def throttle_start_def holds_token_def)

lemma run_inv:
  assumes "throttle_run limit n es (throttle_start api bkt next0) = Some s" and "\<forall>b. bkt = Some b \<longrightarrow> tokens b = capacity b \<and> 0 < capacity b"
  shows "throttle_inv next0 s"
  using assms(1) throttle_start_inv [OF assms(2)] by (rule throttle_run_invariant) (use throttle_step_inv in blast)

section \<open>Pausing\<close>

definition over_limit :: "int \<Rightarrow> Sample \<times> sample_error option \<Rightarrow> bool" where
  "over_limit limit r \<longleftrightarrow> poll_error r = None \<and> pressure_ge (Maximum (fst r)) (poll_threshold limit)"

text \<open>A poll that does not resume the scan: it fails, or the router is still overloaded\<close>

definition keeps_pause :: "int \<Rightarrow> throttle_event \<Rightarrow> bool" where
  "keeps_pause limit e \<longleftrightarrow> (case e of Poll r \<Rightarrow> poll_error r \<noteq> None \<or> over_limit limit r | _ \<Rightarrow> True)"

text \<open>What a dispatcher can still send while the gate stays shut: the task with which it is past the gate,
  or waits at a channel that an earlier resume has closed\<close>

definition past_gate :: "throttled \<Rightarrow> nat" where
  "past_gate s = (case th_phase s of Passed \<Rightarrow> 1 | Waiting ch \<Rightarrow> if closedChans (th_ctrl s) ! ch then 1 else 0 | _ \<Rightarrow> 0)"

lemma over_limit_pauses:
  "over_limit limit r \<Longrightarrow> apiPaused (snd (poll_round limit r p c))"
  by (simp add: over_limit_def poll_round_def Let_def)

lemma pause_step:
  assumes "throttle_step limit n e s = Some s'" and "keeps_pause limit e" and "apiPaused (th_ctrl s)"
  shows "apiPaused (th_ctrl s')"
  using assms
  by (cases e) (auto simp: keeps_pause_def over_limit_def poll_round_def throttle_acquire_def key_read_def Let_def
    split: if_splits option.splits dispatch_phase.splits prod.splits)

lemma paused_budget:
  assumes "throttle_inv next0 s" and "throttle_step limit n e s = Some s'" and "apiPaused (th_ctrl s)"
    and "apiPaused (th_ctrl s')"
  shows "th_next s' + past_gate s' \<le> th_next s + past_gate s"
proof (cases e)
  case FetchGate
  then show ?thesis using assms by (auto simp: throttle_inv_def gate_ok_def IsPaused_def past_gate_def split: if_splits)
next
  case (Poll r)
  have "closedChans (th_ctrl s) ! ch" if "th_phase s = Waiting ch" "closedChans (th_ctrl s') ! ch" for ch
    using that assms(1,3,4) Poll assms(2)
    by (auto simp: throttle_inv_def gate_ok_def IsPaused_def poll_round_def SetAPIPaused_def recomputeLocked_def Let_def nth_append
      split: if_splits option.splits prod.splits)
  then show ?thesis using Poll assms(2) by (auto simp: past_gate_def split: if_splits prod.splits dispatch_phase.splits)
next
  case (Key b)
  have "closedChans (th_ctrl s) ! ch" if "th_phase s = Waiting ch" "closedChans (th_ctrl s') ! ch" for ch
    using that assms(1,3,4) Key assms(2)
    by (auto simp: throttle_inv_def gate_ok_def IsPaused_def key_read_def ToggleManualPaused_def recomputeLocked_def nth_append
      split: if_splits)
  then show ?thesis using Key assms(2) by (auto simp: past_gate_def split: dispatch_phase.splits)
qed (use assms in \<open>auto simp: past_gate_def throttle_acquire_def split: if_splits option.splits dispatch_phase.splits\<close>)

lemma paused_run:
  assumes "throttle_run limit n es s = Some t" and "throttle_inv next0 s" and "apiPaused (th_ctrl s)"
    and "\<forall>e \<in> set es. keeps_pause limit e"
  shows "th_next t + past_gate t \<le> th_next s + past_gate s"
proof -
  let ?I = "\<lambda>u. throttle_inv next0 u \<and> apiPaused (th_ctrl u) \<and> th_next u + past_gate u \<le> th_next s + past_gate s"
  have "?I t"
  proof (rule throttle_run_invariant [OF assms(1)])
    fix e u u'
    assume e: "e \<in> set es" and u: "?I u" and step: "throttle_step limit n e u = Some u'"
    have p: "apiPaused (th_ctrl u')" by (rule pause_step [OF step]) (use assms(4) e u in auto)
    then show "?I u'" using throttle_step_inv [OF _ step] paused_budget [OF _ step _ p] u by fastforce
  qed (use assms in simp)
  then show ?thesis by simp
qed

lemma step_mono: "throttle_step limit n e s = Some s' \<Longrightarrow> th_next s \<le> th_next s'"
  by (cases e) (auto simp: throttle_acquire_def split: if_splits option.splits dispatch_phase.splits prod.splits)

lemma run_mono: "throttle_run limit n es s = Some t \<Longrightarrow> th_next s \<le> th_next t"
  by (induction es arbitrary: s) (auto split: option.splits dest: step_mono intro: order_trans)

lemma bucket_start_full: "runtime_bucket rem policy = Some b \<Longrightarrow> tokens b = capacity b \<and> 0 < capacity b"
  by (auto simp: runtime_bucket_def new_bucket_bounds)


lemma acquire_possible:
  assumes "throttle_inv next0 s" and "th_phase s = AtBucket" and "th_next s < n"
  shows "\<exists>es' t. length es' \<le> 2 \<and> set es' \<subseteq> {Acquire, Tick} \<and> throttle_run limit n es' s = Some t \<and>
    th_phase t = AtGate \<and> th_next t = th_next s \<and> th_ctrl t = th_ctrl s"
proof (cases "th_bucket s")
  case None
  then show ?thesis using assms(2,3) by (intro exI [of _ "[Acquire]"]) (simp add: throttle_acquire_def)
next
  case (Some b)
  show ?thesis
  proof (cases "tokens b = 0")
    case False
    then show ?thesis using assms(2,3) Some
      by (intro exI [of _ "[Acquire]"]) (simp add: throttle_acquire_def bucket_Acquire_def)
  next
    case True
    have "0 < capacity b" using assms(1) Some by (simp add: throttle_inv_def)
    then show ?thesis using assms(2,3) Some True
      by (intro exI [of _ "[Tick, Acquire]"]) (simp add: throttle_acquire_def bucket_Acquire_def bucket_tick_def)
  qed
qed

lemma gate_possible:
  assumes "gate_ok (th_ctrl s)" and "\<not> IsPaused (th_ctrl s)"
  shows "th_phase s = AtGate \<Longrightarrow> throttle_run limit n [FetchGate, PassGate, SendTask] s =
      Some (s\<lparr>th_next := Suc (th_next s), th_phase := AtBucket\<rparr>)"
    "th_phase s = Waiting ch \<Longrightarrow> ch < length (closedChans (th_ctrl s)) \<Longrightarrow> throttle_run limit n [PassGate, SendTask] s =
      Some (s\<lparr>th_next := Suc (th_next s), th_phase := AtBucket\<rparr>)"
    "th_phase s = Passed \<Longrightarrow> throttle_run limit n [SendTask] s = Some (s\<lparr>th_next := Suc (th_next s), th_phase := AtBucket\<rparr>)"
  using assms by (auto simp: gate_ok_def)

text \<open>C18. The controls neither lose a wake-up nor exceed the rate. In every reachable state in which the
  dispatcher has work, is not stopped and nothing is paused, at most five steps of the dispatcher and the
  bucket alone send the next task, however often the scan was paused and resumed before. And whenever the
  chunk has a bucket, the tasks it has sent are at most the configured burst plus the ticks so far, where a
  tick comes every \<open>interval\<close> nanoseconds, between a microsecond and a second for every configured rate.\<close>

theorem throttle_progress:
  assumes "throttle_run limit n es (throttle_start api (runtime_bucket rem policy) next0) = Some s"
  shows "(th_phase s \<noteq> Stopped \<and> th_next s < n \<and> \<not> IsPaused (th_ctrl s) \<longrightarrow>
      (\<exists>es' t. length es' \<le> 5 \<and> set es' \<subseteq> {Acquire, FetchGate, PassGate, SendTask, Tick} \<and>
         throttle_run limit n es' s = Some t \<and> th_next t = th_next s + 1)) \<and>
    (\<forall>b. th_bucket s = Some b \<longrightarrow> int (th_next s) \<le> int next0 + max 1 (min (bucketCapacity policy) MaxCapacity) + int (th_ticks s) \<and>
      1000 \<le> interval b \<and> interval b \<le> second)"
proof (intro conjI impI allI)
  have inv: "throttle_inv next0 s" using run_inv [OF assms] bucket_start_full by blast
  then have gate: "gate_ok (th_ctrl s)" by (simp add: throttle_inv_def)
  assume *: "th_phase s \<noteq> Stopped \<and> th_next s < n \<and> \<not> IsPaused (th_ctrl s)"
  then have paused: "\<not> IsPaused (th_ctrl s)" by simp
  show "\<exists>es' t. length es' \<le> 5 \<and> set es' \<subseteq> {Acquire, FetchGate, PassGate, SendTask, Tick} \<and>
         throttle_run limit n es' s = Some t \<and> th_next t = th_next s + 1"
  proof (cases "th_phase s")
    case AtBucket
    obtain es1 u where u: "length es1 \<le> 2" "set es1 \<subseteq> {Acquire, Tick}" "throttle_run limit n es1 s = Some u"
      "th_phase u = AtGate" "th_next u = th_next s" "th_ctrl u = th_ctrl s"
      using acquire_possible [OF inv AtBucket] * by metis
    then have "throttle_run limit n (es1 @ [FetchGate, PassGate, SendTask]) s =
        Some (u\<lparr>th_next := Suc (th_next u), th_phase := AtBucket\<rparr>)"
      using gate_possible(1) [of u limit n] gate paused by (simp add: throttle_run_append)
    with u show ?thesis by (intro exI [of _ "es1 @ [FetchGate, PassGate, SendTask]"]) auto
  next
    case AtGate
    then show ?thesis using gate_possible(1) [OF gate paused] by (intro exI [of _ "[FetchGate, PassGate, SendTask]"]) simp
  next
    case (Waiting ch)
    then show ?thesis using gate_possible(2) [OF gate paused Waiting] inv
      by (intro exI [of _ "[PassGate, SendTask]"]) (simp add: throttle_inv_def)
  next
    case Passed
    then show ?thesis using gate_possible(3) [OF gate paused] by (intro exI [of _ "[SendTask]"]) simp
  qed (use * in simp)
next
  fix b assume b: "th_bucket s = Some b"
  let ?I = "\<lambda>u. (\<forall>b. th_bucket u = Some b \<longrightarrow> int (capacity b) = max 1 (min (bucketCapacity policy) MaxCapacity) \<and>
     1000 \<le> interval b \<and> interval b \<le> second)"
  have "?I s"
  proof (rule throttle_run_invariant [OF assms])
    show "?I (throttle_start api (runtime_bucket rem policy) next0)"
      using new_bucket_bounds(5,6) [of "bucketRate policy" "bucketCapacity policy"]
      by (auto simp: throttle_start_def runtime_bucket_def newRuntimeBucket_def Let_def NewLeakyBucket_def MaxCapacity_def split: if_splits)
  next
    fix e u u'
    assume "?I u" "throttle_step limit n e u = Some u'"
    then show "?I u'"
      by (cases e) (auto simp: throttle_acquire_def bucket_Acquire_def bucket_tick_def
        split: if_splits option.splits dispatch_phase.splits prod.splits)
  qed
  moreover have "throttle_inv next0 s" using run_inv [OF assms] bucket_start_full by blast
  ultimately show "int (th_next s) \<le> int next0 + max 1 (min (bucketCapacity policy) MaxCapacity) + int (th_ticks s)"
    "1000 \<le> interval b" "interval b \<le> second"
    using b by (auto simp: throttle_inv_def)
qed

section \<open>The poll as a specification\<close>

definition failing :: "Sample \<times> sample_error option \<Rightarrow> bool" where
  "failing r \<longleftrightarrow> poll_error r \<noteq> None"

definition third_failure :: "(Sample \<times> sample_error option) list \<Rightarrow> nat \<Rightarrow> bool" where
  "third_failure rs i \<longleftrightarrow> i < length rs \<and> 2 \<le> i \<and> failing (rs ! i) \<and> failing (rs ! (i - 1)) \<and> failing (rs ! (i - 2))"

lemma poll_rounds_ended [simp]: "pollEnded p \<Longrightarrow> poll_rounds limit rs p c = (p, c)"
  by (cases rs) auto

lemma poll_rounds_append:
  "poll_rounds limit (xs @ ys) p c = (case poll_rounds limit xs p c of (p', c') \<Rightarrow> poll_rounds limit ys p' c')"
  by (induction xs arbitrary: p c) (auto split: prod.splits)

lemma takeWhile_two:
  "2 \<le> length (takeWhile P (rev xs)) \<longleftrightarrow> 2 \<le> length xs \<and> P (xs ! (length xs - 1)) \<and> P (xs ! (length xs - 2))"
proof (cases xs rule: rev_cases)
  case (snoc ys y)
  then show ?thesis by (cases ys rule: rev_cases) (auto simp: nth_append)
qed simp

lemma third_failure_snoc:
  "third_failure (xs @ [x]) i \<longleftrightarrow> third_failure xs i \<or> (i = length xs \<and> failing x \<and> 2 \<le> length (takeWhile failing (rev xs)))"
proof (cases "i < length xs")
  case True
  then show ?thesis by (auto simp: third_failure_def nth_append)
next
  case False
  then show ?thesis unfolding third_failure_def takeWhile_two by (cases "i = length xs") (auto simp: nth_append)
qed

definition poll_history :: "int \<Rightarrow> Controller \<Rightarrow> (Sample \<times> sample_error option) list \<Rightarrow> poller \<times> Controller \<Rightarrow> bool" where
  "poll_history limit c0 rs s \<longleftrightarrow> manualPaused (snd s) = manualPaused c0 \<and>
     (if pollEnded (fst s) then
        \<exists>i. third_failure rs i \<and> (\<forall>j < i. \<not> third_failure rs j) \<and> apiError (fst s) = poll_error (rs ! i)
      else (\<forall>i. \<not> third_failure rs i) \<and> apiError (fst s) = None \<and>
        consecutiveFailures (fst s) = length (takeWhile failing (rev rs)) \<and> consecutiveFailures (fst s) \<le> 2 \<and>
        apiPaused (snd s) = (case filter (\<lambda>r. \<not> failing r) (rev rs) of [] \<Rightarrow> apiPaused c0 | r # _ \<Rightarrow> over_limit limit r))"

lemma poll_history_snoc:
  assumes "poll_history limit c0 xs (p, c)"
  shows "poll_history limit c0 (xs @ [x]) (if pollEnded p then (p, c) else poll_round limit x p c)"
proof (cases "pollEnded p")
  case True
  then obtain i where i: "third_failure xs i" "\<forall>j < i. \<not> third_failure xs j" "apiError p = poll_error (xs ! i)"
    using assms by (auto simp: poll_history_def)
  have "i < length xs" using i(1) by (simp add: third_failure_def)
  then have "third_failure (xs @ [x]) i \<and> (\<forall>j < i. \<not> third_failure (xs @ [x]) j) \<and> apiError p = poll_error ((xs @ [x]) ! i)"
    using i by (auto simp: third_failure_snoc nth_append)
  then show ?thesis using True assms by (auto simp: poll_history_def)
next
  case False
  then have h: "\<forall>i. \<not> third_failure xs i" "apiError p = None" "consecutiveFailures p = length (takeWhile failing (rev xs))"
    "consecutiveFailures p \<le> 2" "manualPaused c = manualPaused c0"
    "apiPaused c = (case filter (\<lambda>r. \<not> failing r) (rev xs) of [] \<Rightarrow> apiPaused c0 | r # _ \<Rightarrow> over_limit limit r)"
    using assms by (auto simp: poll_history_def)
  show ?thesis
  proof (cases "poll_error x")
    case None
    then have "\<not> failing x" by (simp add: failing_def)
    moreover have "over_limit limit x \<longleftrightarrow> pressure_ge (Maximum (fst x)) (poll_threshold limit)"
      using None by (simp add: over_limit_def)
    ultimately show ?thesis using False h None
      by (simp add: poll_history_def poll_round_def Let_def third_failure_snoc)
  next
    case (Some e)
    then have fail: "failing x" by (simp add: failing_def)
    show ?thesis
    proof (cases "consecutiveFailures p + 1 \<le> 2")
      case True
      then show ?thesis using False h Some fail
        by (simp add: poll_history_def poll_round_def Let_def third_failure_snoc)
    next
      case three: False
      then have "third_failure (xs @ [x]) (length xs)" using h(3,4) fail by (simp add: third_failure_snoc)
      moreover have "\<forall>j < length xs. \<not> third_failure (xs @ [x]) j" using h(1) by (simp add: third_failure_snoc)
      ultimately show ?thesis using three False h Some
        by (auto simp: poll_history_def poll_round_def Let_def)
    qed
  qed
qed

text \<open>C30. The poll is its specification: for every sequence of results it ends with an error exactly if
  three polls in a row fail, and then with the error of the third of the first such three; until then
  the pause that it controls is that of the last poll that succeeded, overloaded or not, and the pause of the
  keyboard is not touched. A sample with a value that is not finite counts as a failure.\<close>

theorem poll_monitor_exact:
  assumes "poll_rounds limit rs new_poller (NewController [WithAPIEnabled enabled]) = (p, c)"
  shows "(pollEnded p \<longleftrightarrow> (\<exists>i. third_failure rs i)) \<and>
    (\<forall>i. third_failure rs i \<and> (\<forall>j < i. \<not> third_failure rs j) \<longrightarrow> apiError p = poll_error (rs ! i)) \<and>
    (\<not> pollEnded p \<longrightarrow> apiError p = None \<and>
      apiPaused c = (case filter (\<lambda>r. \<not> failing r) (rev rs) of [] \<Rightarrow> False | r # _ \<Rightarrow> over_limit limit r)) \<and>
    \<not> manualPaused c"
proof -
  let ?c0 = "NewController [WithAPIEnabled enabled]"
  have "poll_history limit ?c0 rs (poll_rounds limit rs new_poller ?c0)"
  proof (induction rs rule: rev_induct)
    case Nil
    show ?case by (simp add: poll_history_def new_poller_def third_failure_def)
  next
    case (snoc x xs)
    obtain p c where pc: "poll_rounds limit xs new_poller ?c0 = (p, c)" by fastforce
    then have "poll_rounds limit (xs @ [x]) new_poller ?c0 = (if pollEnded p then (p, c) else poll_round limit x p c)"
      by (auto simp: poll_rounds_append split: prod.splits)
    then show ?case using poll_history_snoc [of limit ?c0 xs p c x] snoc.IH unfolding pc by (simp only:)
  qed
  then have h: "poll_history limit ?c0 rs (p, c)" using assms by simp
  show ?thesis
  proof (cases "pollEnded p")
    case True
    then obtain i where i: "third_failure rs i" "\<forall>j < i. \<not> third_failure rs j" "apiError p = poll_error (rs ! i)"
      using h by (auto simp: poll_history_def)
    moreover have "j = i" if "third_failure rs j" "\<forall>k < j. \<not> third_failure rs k" for j
      using i(1,2) that by (meson linorder_neqE_nat)
    moreover have "\<not> manualPaused c" using h by (simp add: poll_history_def new_controller)
    ultimately show ?thesis using True by blast
  next
    case False
    have c0: "\<not> manualPaused ?c0" "\<not> apiPaused ?c0" by (simp_all add: new_controller)
    have "\<not> manualPaused c" "\<forall>i. \<not> third_failure rs i" "apiError p = None"
      "apiPaused c = (case filter (\<lambda>r. \<not> failing r) (rev rs) of [] \<Rightarrow> False | r # _ \<Rightarrow> over_limit limit r)"
      using h False c0 by (simp_all add: poll_history_def split: list.split)
    then show ?thesis using False by blast
  qed
qed

text \<open>A chunk that fits in the burst needs no bucket: with one, the dispatcher would never have waited.\<close>

lemma skipped_bucket_never_waits:
  assumes "throttle_run limit n es (throttle_start api (Some (NewLeakyBucket (bucketRate policy) (bucketCapacity policy))) next0) = Some s"
    and "runtime_bucket (int n - int next0) policy = None" and "\<not> disableRateLimit policy"
    and "th_phase s = AtBucket" and "th_next s < n"
  shows "throttle_step limit n Acquire s \<noteq> None"
proof -
  let ?I = "\<lambda>u. \<exists>b. th_bucket u = Some b \<and> capacity b = capacity (NewLeakyBucket (bucketRate policy) (bucketCapacity policy))"
  have "?I s"
  proof (rule throttle_run_invariant [OF assms(1)])
    fix e u u'
    assume "?I u" "throttle_step limit n e u = Some u'"
    then show "?I u'"
      by (cases e) (auto simp: throttle_acquire_def bucket_Acquire_def bucket_tick_def
        split: if_splits option.splits dispatch_phase.splits prod.splits)
  qed (simp add: throttle_start_def)
  then obtain b where b: "th_bucket s = Some b" "capacity b = capacity (NewLeakyBucket (bucketRate policy) (bucketCapacity policy))" by auto
  have "throttle_inv next0 s" by (rule run_inv [OF assms(1)]) (simp add: new_bucket_bounds)
  then have "capacity b \<le> th_next s - next0 + tokens b" "next0 \<le> th_next s"
    using b(1) assms(4) by (auto simp: throttle_inv_def holds_token_def)
  moreover have "int n - int next0 \<le> int (capacity b)"
    using assms(2,3) by (auto simp: b(2) runtime_bucket_def newRuntimeBucket_def NewLeakyBucket_def Let_def MaxCapacity_def split: if_splits)
  ultimately have "tokens b \<noteq> 0" using assms(5) by linarith
  then show ?thesis using b(1) assms(4,5) by (simp add: throttle_acquire_def bucket_Acquire_def)
qed

section \<open>Concrete runs\<close>

definition good_sample :: "rat \<Rightarrow> Sample \<times> sample_error option" where
  "good_sample q = (\<lparr>Maximum = Finite q, Sources = []\<rparr>, None)"

definition bad_sample :: "Sample \<times> sample_error option" where
  "bad_sample = (\<lparr>Maximum = NaN, Sources = []\<rparr>, None)"

lemma sample_errors [simp]:
  "poll_error (good_sample q) = None" "Maximum (fst (good_sample q)) = Finite q"
  "poll_error bad_sample = Some (NonFinitePressure ''Maximum'' NaN)"
  by (simp_all add: poll_error_def good_sample_def bad_sample_def validatePressureSample_def nonFinitePressureError_def Let_def)

abbreviation sample_policy :: runtimePolicy where
  "sample_policy \<equiv> \<lparr>bucketRate = 100, bucketCapacity = 100, disableRateLimit = False\<rparr>"

lemma bucket_none: "runtime_bucket 1 sample_policy = None"
  by (simp add: runtime_bucket_def newRuntimeBucket_def MaxCapacity_def)


lemma throttle_progress_witness:
  "\<exists>es' t. length es' \<le> 5 \<and> throttle_run 60 3 es' (throttle_start True (runtime_bucket 1 sample_policy) 0) = Some t \<and>
    th_next t = 1"
  using throttle_progress [of 60 3 "[]" True 1 sample_policy 0, OF throttle_run.simps(1)]
  by (auto simp: throttle_start_def new_controller IsPaused_def)

lemma poll_monitor_exact_witness:
  "\<exists>p c. poll_rounds 60 [good_sample 75, bad_sample, bad_sample, bad_sample] new_poller (NewController [WithAPIEnabled True]) = (p, c) \<and>
    pollEnded p"
proof -
  let ?rs = "[good_sample 75, bad_sample, bad_sample, bad_sample]"
  obtain p c where pc: "poll_rounds 60 ?rs new_poller (NewController [WithAPIEnabled True]) = (p, c)" by fastforce
  have "third_failure ?rs 3" by (simp add: third_failure_def failing_def)
  then have "pollEnded p" using poll_monitor_exact [OF pc] by blast
  then show ?thesis using pc by blast
qed

end
