(* ===== verification/ScanSetup.thy ===== *)
theory ScanSetup
  imports ResumePlan SnapshotSave PrePing InputLoad
begin

text \<open>
  The steps that come before a scan runs, composed as the program composes them: \<open>GenerateBuckets\<close>
  (\<open>bucketgen.go\<close>), which turns the input into a snapshot, and the first part of \<open>scanRuntime.execute\<close>
  (\<open>scan_runtime.go\<close>), which loads the input and a snapshot, checks that they fit, and builds the runtimes;
  with \<open>input_loader.go\<close>, \<open>expansion_limits.go\<close> and the output paths of \<open>batch_output.go\<close>.

  What the loaders and \<open>filepath.Abs\<close> return are arguments. The contexts are never canceled here.
\<close>

section \<open>Inputs\<close>

datatype 'e setup_error =
    ResumeMissing
  | FDLimit
  | InputFailed 'e
  | PortFileRequired
  | SnapshotFailed load_error
  | SetupCanceled
  | NotAuthorized string
  | WrongSemantics semantics_error
  | BadFallback group_error
  | BadLimits expand_error
  | TooLarge expand_error
  | NoOutputPath
  | RuntimeFailed build_error
  | SnapshotPathMissing
  | BlocklistFailed blocklist_error
  | GroupsFailed group_error

definition wrap_error :: "('a \<Rightarrow> 'b) \<Rightarrow> 'a + 'c \<Rightarrow> 'b + 'c" where
  "wrap_error f r = (case r of Inl e \<Rightarrow> Inl (f e) | Inr a \<Rightarrow> Inr a)"

lemma wrap_error_simps [simp]: "wrap_error f (Inl e) = Inl (f e)" "wrap_error f (Inr a) = Inr a"
  by (simp_all add: wrap_error_def)

lemma wrap_error_Inr [simp]: "wrap_error f r = Inr a \<longleftrightarrow> r = Inr a"
  by (cases r) simp_all

definition allBasicRecordsHavePorts :: "CIDRRecord list \<Rightarrow> bool" where
  "allBasicRecordsHavePorts records \<longleftrightarrow> records \<noteq> [] \<and> (\<forall>r \<in> set records. \<not> IsRich r \<and> Port r > 0)"

text \<open>\<open>ports\<close> is \<open>None\<close> where no port file is named.\<close>

definition loadRunInputsContext ::
  "bool \<Rightarrow> 'e + CIDRRecord list \<Rightarrow> ('e + PortSpec list) option \<Rightarrow> 'e setup_error + CIDRRecord list \<times> PortSpec list" where
  "loadRunInputsContext allowMissingPort cidrs ports =
     try_bind (wrap_error InputFailed cidrs) (\<lambda>records.
       case ports of
         None \<Rightarrow>
           if hasRichRecords records \<or> allBasicRecordsHavePorts records \<or> allowMissingPort then Inr (records, [])
           else Inl PortFileRequired
       | Some r \<Rightarrow> try_bind (wrap_error InputFailed r) (\<lambda>specs. Inr (records, specs)))"

section \<open>Expansion limits\<close>

record TargetExpansionValues =
  tv_Limits :: ExpansionLimits
  tv_CountSet :: bool
  tv_MemorySet :: bool

definition DefaultTargetCandidateLimit :: int where "DefaultTargetCandidateLimit = 10000000"
definition DefaultTargetMemoryLimitGB :: int where "DefaultTargetMemoryLimitGB = 16"

definition incompleteChunkKeys :: "Chunk list \<Rightarrow> string set" where
  "incompleteChunkKeys chunks = set (map chunkCIDR (filter (\<lambda>ch. \<not> chunkIsCompleted ch) chunks))"

definition effectiveScanExpansionLimits ::
  "TargetExpansionState option \<Rightarrow> TargetExpansionValues \<Rightarrow> expand_error + ExpansionLimits" where
  "effectiveScanExpansionLimits stored command =
     (let (candidates, memory) = (case stored of None \<Rightarrow> (DefaultTargetCandidateLimit, DefaultTargetMemoryLimitGB)
            | Some st \<Rightarrow> (te_CandidateLimit st, te_MemoryLimitGB st));
          candidates = (if tv_CountSet command then int (candidateLimit (tv_Limits command)) else candidates);
          memory = (if tv_MemorySet command then int (memoryLimitGB (tv_Limits command)) else memory)
      in NewExpansionLimits candidates memory)"

section \<open>Output paths\<close>

definition join_path :: "string \<Rightarrow> string \<Rightarrow> string" where
  "join_path dir name = (if dir = ''/'' then dir @ name else dir @ ''/'' @ name)"

definition batch_paths :: "string \<Rightarrow> string \<Rightarrow> nat \<Rightarrow> string \<times> string \<times> string" where
  "batch_paths baseDir ts attempt =
     (let suffix = (if 0 < attempt then ''-'' @ itoa (int attempt) else []);
          path = (\<lambda>prefix. join_path baseDir (prefix @ ''-'' @ ts @ suffix @ ''.csv''))
      in (path ''scan_results'', path ''opened_results'', path ''unreachable_results''))"

fun first_free :: "(string \<Rightarrow> bool) \<Rightarrow> string \<Rightarrow> string \<Rightarrow> nat list \<Rightarrow> (string \<times> string \<times> string) option" where
  "first_free fileExists baseDir ts [] = None"
| "first_free fileExists baseDir ts (i # is) =
     (case batch_paths baseDir ts i of (scanPath, openPath, unreachablePath) \<Rightarrow>
        if \<not> fileExists scanPath \<and> \<not> fileExists openPath \<and> \<not> fileExists unreachablePath
        then Some (scanPath, openPath, unreachablePath) else first_free fileExists baseDir ts is)"

definition resolveBatchOutputPaths :: "(string \<Rightarrow> bool) \<Rightarrow> string \<Rightarrow> string \<Rightarrow> (string \<times> string \<times> string) option" where
  "resolveBatchOutputPaths fileExists baseDir ts = first_free fileExists baseDir ts [0..<100]"

definition absOutputFile :: "(string \<Rightarrow> string option) \<Rightarrow> string \<Rightarrow> string option" where
  "absOutputFile filepath_Abs path = (if path = [] then Some [] else filepath_Abs path)"

definition resolvePersistedOutputPaths :: "(string \<Rightarrow> string option) \<Rightarrow> OutputState \<Rightarrow> OutputState option" where
  "resolvePersistedOutputPaths filepath_Abs recorded =
     (case absOutputFile filepath_Abs (ScanPath recorded) of None \<Rightarrow> None
      | Some scanPath \<Rightarrow>
          (case absOutputFile filepath_Abs (OpenPath recorded) of None \<Rightarrow> None
           | Some openPath \<Rightarrow> Some \<lparr>ScanPath = scanPath, OpenPath = openPath\<rparr>))"

text \<open>A new batch never takes the name of an existing file.\<close>

lemma first_free_fresh:
  "first_free fileExists baseDir ts is = Some (s, p, u) \<Longrightarrow> \<not> fileExists s \<and> \<not> fileExists p \<and> \<not> fileExists u"
  by (induction "is") (auto split: if_splits prod.splits)

section \<open>GenerateBuckets\<close>

definition generated_snapshot ::
  "CIDRRecord list \<Rightarrow> PortSpec list \<Rightarrow> ExpansionLimits \<Rightarrow> ExpansionEstimate \<Rightarrow> 32 word list \<Rightarrow> Chunk list \<Rightarrow> Snapshot" where
  "generated_snapshot records specs limits est blocklist chunks =
     \<lparr>sn_Chunks = Some chunks,
      sn_PreScanPing = \<lparr>ps_Enabled = True, ps_TimeoutMS = 0, ps_UnreachableIPv4U32 = blocklist\<rparr>,
      sn_Output = None,
      sn_RichDenyExcluded = True,
      sn_TargetExpansion = Some \<lparr>te_CandidateCount = int (CandidateCount est),
         te_CandidateLimit = int (candidateLimit limits), te_MemoryLimitGB = int (memoryLimitGB limits)\<rparr>,
      sn_TargetSemanticsVersion = CurrentTargetSemanticsVersion,
      sn_BasicPortFallback = (if hasRichRecords records then [] else map Raw specs)\<rparr>"

text \<open>All of \<open>GenerateBuckets\<close> but the save\<close>

definition bucket_snapshot ::
  "string \<Rightarrow> 'e + CIDRRecord list \<Rightarrow> ('e + PortSpec list) option \<Rightarrow> ExpansionLimits \<Rightarrow> (unit + string list) list option \<Rightarrow>
   'e setup_error + Snapshot" where
  "bucket_snapshot snapshotOutput cidrs ports limits blocklistFile =
     (if trim_space snapshotOutput = [] then Inl SnapshotPathMissing
      else
        try_bind (loadRunInputsContext True cidrs ports) (\<lambda>(records, specs).
        try_bind (wrap_error TooLarge (EstimateAuthorizedCIDRRecords records limits None)) (\<lambda>est.
        try_bind (wrap_error BlocklistFailed (parseUnreachableBlocklist blocklistFile)) (\<lambda>blocklist.
        try_bind (wrap_error GroupsFailed (generated_chunks None records specs (reachablePredicate blocklist))) (\<lambda>chunks.
          Inr (generated_snapshot records specs limits est blocklist chunks))))))"

definition GenerateBuckets ::
  "snapshotFileOps \<Rightarrow> (string \<Rightarrow> string list) \<Rightarrow> (Chunk \<Rightarrow> bool) \<Rightarrow> string \<Rightarrow> files \<Rightarrow> SnapshotLimits \<Rightarrow>
   string \<Rightarrow> 'e + CIDRRecord list \<Rightarrow> ('e + PortSpec list) option \<Rightarrow> ExpansionLimits \<Rightarrow> (unit + string list) list option \<Rightarrow>
   ('e setup_error + save_error option) \<times> files" where
  "GenerateBuckets ops pieces nil_ports tmp fs snapLimits snapshotOutput cidrs ports limits blocklistFile =
     (case bucket_snapshot snapshotOutput cidrs ports limits blocklistFile of
        Inl e \<Rightarrow> (Inl e, fs)
      | Inr snap \<Rightarrow>
          (case saveSnapshotWithFileOps ops pieces nil_ports tmp fs snapshotOutput snap snapLimits of (err, fs') \<Rightarrow> (Inr err, fs')))"

section \<open>The set-up of a scan\<close>

record 'e scan_request =
  rq_resume :: string
  rq_fdLimitOk :: bool
  rq_cidrs :: "'e + CIDRRecord list"
  rq_ports :: "('e + PortSpec list) option"
  rq_snapshot :: "load_error + Snapshot"
  rq_canceled :: bool
  rq_command :: TargetExpansionValues
  rq_freshPaths :: "OutputState option"
  rq_abs :: "string \<Rightarrow> string option"
  rq_policy :: runtimePolicy

record scan_plan =
  sp_snapshot :: Snapshot
  sp_output :: OutputState
  sp_append :: bool
  sp_runtimes :: "built_runtime list"

definition scan_ports :: "Snapshot \<Rightarrow> CIDRRecord list \<Rightarrow> PortSpec list \<Rightarrow> 'e setup_error + PortSpec list" where
  "scan_ports snap records specs =
     (if sn_TargetSemanticsVersion snap = CurrentTargetSemanticsVersion \<and> \<not> hasRichRecords records
      then wrap_error BadFallback (inputPortSpecsFromRows (sn_BasicPortFallback snap)) else Inr specs)"

definition scan_output :: "'e scan_request \<Rightarrow> Snapshot \<Rightarrow> 'e setup_error + OutputState \<times> bool" where
  "scan_output rq snap =
     (case sn_Output snap of
        Some recorded \<Rightarrow>
          (case resolvePersistedOutputPaths (rq_abs rq) recorded of None \<Rightarrow> Inl NoOutputPath | Some p \<Rightarrow> Inr (p, True))
      | None \<Rightarrow> (case rq_freshPaths rq of None \<Rightarrow> Inl NoOutputPath | Some p \<Rightarrow> Inr (p, False)))"

definition snapshot_chunks :: "Snapshot \<Rightarrow> Chunk list" where
  "snapshot_chunks snap = (case sn_Chunks snap of None \<Rightarrow> [] | Some chunks \<Rightarrow> chunks)"

definition record_expansion :: "Snapshot \<Rightarrow> ExpansionLimits \<Rightarrow> ExpansionEstimate \<Rightarrow> Snapshot" where
  "record_expansion snap limits est =
     snap\<lparr>sn_TargetExpansion := Some
       \<lparr>te_CandidateCount = (case sn_TargetExpansion snap of None \<Rightarrow> int (CandidateCount est) | Some st \<Rightarrow> te_CandidateCount st),
        te_CandidateLimit = int (candidateLimit limits), te_MemoryLimitGB = int (memoryLimitGB limits)\<rparr>\<rparr>"

definition scan_setup :: "'e scan_request \<Rightarrow> 'e setup_error + scan_plan" where
  "scan_setup rq =
     (if trim_space (rq_resume rq) = [] then Inl ResumeMissing
      else if \<not> rq_fdLimitOk rq then Inl FDLimit
      else
        try_bind (loadRunInputsContext True (rq_cidrs rq) (rq_ports rq)) (\<lambda>(records, specs0).
        try_bind (wrap_error SnapshotFailed (rq_snapshot rq)) (\<lambda>loaded.
        if rq_canceled rq then Inl SetupCanceled
        else
        try_bind (wrap_error NotAuthorized
            (validateSnapshotAuthorization (sn_RichDenyExcluded loaded) (snapshot_chunks loaded) records)) (\<lambda>_.
        try_bind (wrap_error WrongSemantics (validateSnapshotTargetSemantics (sn_TargetSemanticsVersion loaded) records)) (\<lambda>_.
        try_bind (scan_ports loaded records specs0) (\<lambda>specs.
        let allowed = loaded\<lparr>sn_RichDenyExcluded := True\<rparr> in
        try_bind (wrap_error BadLimits (effectiveScanExpansionLimits (sn_TargetExpansion allowed) (rq_command rq))) (\<lambda>limits.
        try_bind (wrap_error TooLarge
            (EstimateAuthorizedCIDRRecords records limits (Some (incompleteChunkKeys (snapshot_chunks allowed))))) (\<lambda>est.
        let snap = record_expansion allowed limits est in
        try_bind (scan_output rq snap) (\<lambda>(out, append).
        try_bind (wrap_error RuntimeFailed
            (buildRuntimeWithPredicateContext None None None (snapshot_chunks snap) records specs (rq_policy rq)
              (Some (reachablePredicate (ps_UnreachableIPv4U32 (sn_PreScanPing snap)))))) (\<lambda>rts.
          Inr \<lparr>sp_snapshot = snap, sp_output = out, sp_append = append, sp_runtimes = rts\<rparr>))))))))))"

section \<open>Ports survive the snapshot\<close>

text \<open>Trimmed text has nothing to trim.\<close>

lemma strip_seq_shorter: "strip_seq ps s = Some t \<Longrightarrow> \<forall>p \<in> set ps. p \<noteq> [] \<Longrightarrow> length t < length s \<and> suffix t s"
  by (induction ps) (auto split: if_splits simp: prefix_def suffix_def)

lemma strip_front_fuel_fixed:
  "\<forall>p \<in> set ps. p \<noteq> [] \<Longrightarrow> length s \<le> n \<Longrightarrow> strip_seq ps (strip_front_fuel n ps s) = None"
proof (induction n arbitrary: s)
  case 0
  then show ?case by (induction ps) auto
next
  case (Suc n)
  then show ?case using strip_seq_shorter [of ps s] by (force split: option.splits)
qed

lemma strip_front_fuel_suffix: "\<forall>p \<in> set ps. p \<noteq> [] \<Longrightarrow> suffix (strip_front_fuel n ps s) s"
proof (induction n arbitrary: s)
  case (Suc n)
  then show ?case using strip_seq_shorter [of ps s] by (auto split: option.splits intro: suffix_order.trans)
qed simp

lemma strip_front_id: "strip_seq ps s = None \<Longrightarrow> strip_front ps s = s"
  by (cases "length s") (simp_all add: strip_front_def)

lemma strip_seq_None_prefix: "strip_seq ps s = None \<Longrightarrow> prefix t s \<Longrightarrow> strip_seq ps t = None"
  by (induction ps) (auto split: if_splits dest: prefix_order.trans)

lemma trim_space_idem: "trim_space (trim_space s) = trim_space s"
proof -
  let ?u = "strip_front space_seqs s" and ?rseqs = "map rev space_seqs"
  let ?w = "strip_front ?rseqs (rev ?u)"
  have nonempty: "\<forall>p \<in> set space_seqs. p \<noteq> []" "\<forall>p \<in> set ?rseqs. p \<noteq> []"
    using space_seqs_not_print by auto
  have "strip_seq space_seqs ?u = None" by (simp add: strip_front_def strip_front_fuel_fixed nonempty(1))
  moreover have "suffix ?w (rev ?u)" unfolding strip_front_def [of ?rseqs] by (rule strip_front_fuel_suffix [OF nonempty(2)])
  then have "prefix (rev ?w) ?u" by (simp add: suffix_to_prefix)
  ultimately have "strip_front space_seqs (rev ?w) = rev ?w" by (rule strip_front_id [OF strip_seq_None_prefix])
  moreover have "strip_seq ?rseqs ?w = None" unfolding strip_front_def [of ?rseqs] by (rule strip_front_fuel_fixed [OF nonempty(2)]) simp
  then have "strip_front ?rseqs ?w = ?w" by (rule strip_front_id)
  ultimately show ?thesis by (simp add: trim_space_def)
qed

text \<open>A port as the loader reads it: its line is trimmed and parses to it.\<close>

definition loaded_spec :: "PortSpec \<Rightarrow> bool" where
  "loaded_spec s \<longleftrightarrow> parse_port_line (Raw s) = Inr s \<and> trim_space (Raw s) = Raw s"

lemma parse_port_line_Inr:
  assumes "parse_port_line l0 = Inr s"
  shows "Raw s = l0" "Proto s = ''tcp''" "port_ok (Number s)"
    "trim_space l1 = l0 \<Longrightarrow> port_row_step (None, acc) l1 = Inr (None, acc @ [Number s])"
  using assms by (auto simp: parse_port_line_def port_row_step_def port_ok_def split: list.splits option.splits if_splits)

lemma ports_loop_loaded:
  assumes "ports_loop limits err c ls k n out = Inr specs" and "\<forall>s \<in> set out. loaded_spec s"
  shows "\<forall>s \<in> set specs. loaded_spec s"
  using assms
proof (induction ls arbitrary: c k n out)
  case (Cons l ls)
  obtain c' where c': "ctx_poll 1 c = Some c'" using Cons.prems(1) by (cases "ctx_poll 1 c") simp_all
  show ?case
  proof (cases "trim_space l = []")
    case True
    then have "ports_loop limits err c' ls (Suc k) n out = Inr specs" using Cons.prems(1) c' by (simp add: Let_def)
    then show ?thesis by (rule Cons.IH) (rule Cons.prems(2))
  next
    case False
    then obtain s where s: "parse_port_line (trim_space l) = Inr s" "ports_loop limits err c' ls (Suc k) (Suc n) (out @ [s]) = Inr specs"
      using Cons.prems(1) c' by (auto simp: Let_def try_bind_eq_Inr split: if_splits)
    have "loaded_spec s" using s(1) by (simp add: loaded_spec_def parse_port_line_Inr(1) trim_space_idem)
    then show ?thesis by (intro Cons.IH [OF s(2)]) (use Cons.prems(2) in auto)
  qed
qed (auto split: option.splits)

lemma loaded_port_file:
  "LoadPortsContextWithLimits c ls err limits = Inr specs \<Longrightarrow> \<forall>s \<in> set specs. loaded_spec s"
  unfolding LoadPortsContextWithLimits_def by (rule ports_loop_loaded) auto

lemma loaded_rows:
  "\<forall>s \<in> set specs. loaded_spec s \<Longrightarrow>
    try_fold port_row_step (None, acc) (map Raw specs) = Inr (None, acc @ map Number specs)"
proof (induction specs arbitrary: acc)
  case (Cons s specs)
  then have "loaded_spec s" by simp
  then have "port_row_step (None, acc) (Raw s) = Inr (None, acc @ [Number s])"
    using parse_port_line_Inr(4) [of "Raw s" s "Raw s" acc] by (simp add: loaded_spec_def)
  then show ?case using Cons by simp
qed simp

lemma specs_reparse:
  assumes "\<forall>s \<in> set specs. loaded_spec s"
  shows "inputPortSpecsFromRows (map Raw specs) = Inr specs" "\<forall>s \<in> set specs. port_ok (Number s)"
proof -
  have proto: "Proto s = ''tcp''" "port_ok (Number s)" if "s \<in> set specs" for s
    using assms that parse_port_line_Inr(2,3) [of "Raw s" s] by (auto simp: loaded_spec_def)
  have "map (\<lambda>(port, raw). \<lparr>Number = port, Proto = ''tcp'', Raw = raw\<rparr>) (zip (map Number specs) (map Raw specs)) = specs"
    using proto by (induction specs) auto
  then show "inputPortSpecsFromRows (map Raw specs) = Inr specs"
    using loaded_rows [OF assms, of "[]"] by (simp add: inputPortSpecsFromRows_def parsePortRowsContext_def)
  show "\<forall>s \<in> set specs. port_ok (Number s)" using proto by blast
qed

section \<open>The estimate of the unfinished work\<close>

lemma estimateExpansionBytes_mono:
  "estimateExpansionBytes m = Some b \<Longrightarrow> n \<le> m \<Longrightarrow> \<exists>a \<le> b. estimateExpansionBytes n = Some a"
  by (auto simp: estimateExpansionBytes_def split: if_splits)

lemma addCandidateCount_mono:
  assumes "addCandidateCount a row cidr n limits = Inr e" and "a' \<le> a"
  shows "\<exists>e'. addCandidateCount a' row cidr n limits = Inr e' \<and> CandidateCount e' \<le> CandidateCount e"
proof -
  obtain b where b: "estimateExpansionBytes (a + n) = Some b" "\<not> 2 ^ 64 - 1 - a < n"
    "\<not> exceedsExpansionLimits (a + n) b limits" "CandidateCount e = a + n"
    using assms(1) by (auto simp: addCandidateCount_def split: if_splits option.splits)
  obtain b' where b': "estimateExpansionBytes (a' + n) = Some b'" "b' \<le> b"
    using estimateExpansionBytes_mono [OF b(1), of "a' + n"] assms(2) by auto
  have "\<not> exceedsExpansionLimits (a' + n) b' limits"
    using b(3) b'(2) assms(2) by (auto simp: exceedsExpansionLimits_def)
  then show ?thesis using b b' assms(2) by (auto simp: addCandidateCount_def)
qed

lemma addCandidateCount_ge:
  "addCandidateCount a row cidr n limits = Inr e \<Longrightarrow> a \<le> CandidateCount e"
  by (auto simp: addCandidateCount_def split: if_splits option.splits)

lemma authorized_step_included:
  assumes "authorized_step denied idx limits None est ir = Inr e" and "CandidateCount est' \<le> CandidateCount est"
  shows "\<exists>e'. authorized_step denied idx limits (Some S) est' ir = Inr e' \<and> CandidateCount e' \<le> CandidateCount e"
proof -
  obtain i r where ir: "ir = (i, r)" by (cases ir)
  let ?cidr = "recordCIDR r"
  consider "authorized_step denied idx limits None est ir = Inr est" "\<forall>e S. authorized_step denied idx limits S e ir = Inr e"
    | sel n norm where "recordExpansionSelector r ?cidr = Inr sel" "countSelectorCandidates sel = Inr (n, norm)"
      "\<And>est S. authorized_step denied idx limits S est ir = (if (case S of None \<Rightarrow> False | Some cs \<Rightarrow> ?cidr \<notin> cs) then Inr est else
        addCandidateCount (CandidateCount est) (if RowNumber r \<le> 0 then int i + 1 else RowNumber r) norm
          (if recordUsesPrecheckExpansion r then n - denied_count idx r sel else n) limits)"
    using assms(1) unfolding ir authorized_step_def Let_def by (fastforce split: if_splits sum.splits)
  then show ?thesis
  proof cases
    case 1
    then show ?thesis using assms by auto
  next
    case (2 sel n norm)
    show ?thesis
    proof (cases "?cidr \<in> S")
      case True
      then show ?thesis using assms 2(3) addCandidateCount_mono [OF _ assms(2)] by auto
    next
      case False
      then have "authorized_step denied idx limits (Some S) est' ir = Inr est'" by (simp add: 2(3))
      then show ?thesis using assms(1,2) 2(3) [of None est] addCandidateCount_ge by (fastforce intro: order_trans)
    qed
  qed
qed

lemma estimate_included:
  assumes "EstimateAuthorizedCIDRRecords records limits None = Inr e"
  shows "\<exists>e'. EstimateAuthorizedCIDRRecords records limits (Some S) = Inr e' \<and> CandidateCount e' \<le> CandidateCount e"
proof -
  have "\<exists>e'. try_fold (authorized_step denied idx limits (Some S)) est' irs = Inr e' \<and> CandidateCount e' \<le> CandidateCount e"
    if "try_fold (authorized_step denied idx limits None) est irs = Inr e" "CandidateCount est' \<le> CandidateCount est"
    for denied idx est est' irs
    using that
  proof (induction irs arbitrary: est est')
    case (Cons ir irs)
    then obtain e1 where e1: "authorized_step denied idx limits None est ir = Inr e1"
      "try_fold (authorized_step denied idx limits None) e1 irs = Inr e"
      by (auto simp: try_bind_eq_Inr)
    from authorized_step_included [OF e1(1) Cons.prems(2), of S] obtain e2 where e2:
      "authorized_step denied idx limits (Some S) est' ir = Inr e2" "CandidateCount e2 \<le> CandidateCount e1" by blast
    show ?case using Cons.IH [OF e1(2) e2(2)] e2(1) by simp
  qed simp
  then show ?thesis using assms by (auto simp: EstimateAuthorizedCIDRRecords_def Let_def)
qed

section \<open>From the input to the runtimes of a scan\<close>

lemma scan_inputs_load:
  assumes "ports = None \<or> (\<exists>specs. ports = Some (Inr specs))"
  shows "\<exists>specs. loadRunInputsContext True (Inr records) ports = Inr (records, specs)"
  using assms by (auto simp: loadRunInputsContext_def)

lemma bucket_snapshot_parts:
  assumes "bucket_snapshot snapshotOutput cidrs ports limits blocklistFile = Inr snap"
  obtains records specs est blocklist fresh where "cidrs = Inr records"
    "EstimateAuthorizedCIDRRecords records limits None = Inr est"
    "parseUnreachableBlocklist blocklistFile = Inr blocklist"
    "generated_chunks None records specs (reachablePredicate blocklist) = Inr fresh"
    "snap = generated_snapshot records specs limits est blocklist fresh"
    "specs = (case ports of Some (Inr s) \<Rightarrow> s | _ \<Rightarrow> [])"
proof -
  obtain records specs est blocklist fresh where p: "loadRunInputsContext True cidrs ports = Inr (records, specs)"
    "EstimateAuthorizedCIDRRecords records limits None = Inr est"
    "parseUnreachableBlocklist blocklistFile = Inr blocklist"
    "generated_chunks None records specs (reachablePredicate blocklist) = Inr fresh"
    "snap = generated_snapshot records specs limits est blocklist fresh"
    using assms by (auto simp: bucket_snapshot_def try_bind_eq_Inr split: if_splits)
  have "cidrs = Inr records \<and> specs = (case ports of Some (Inr s) \<Rightarrow> s | _ \<Rightarrow> [])"
    using p(1) by (auto simp: loadRunInputsContext_def try_bind_eq_Inr split: option.splits sum.splits)
  then show ?thesis using that p by blast
qed

lemma stored_limits_effective:
  assumes "NewExpansionLimits candidates memory = Inr limits" and "\<not> tv_CountSet command" and "\<not> tv_MemorySet command"
  shows "effectiveScanExpansionLimits (Some \<lparr>te_CandidateCount = n, te_CandidateLimit = int (candidateLimit limits),
      te_MemoryLimitGB = int (memoryLimitGB limits)\<rparr>) command = Inr limits"
  using assms by (auto simp: effectiveScanExpansionLimits_def NewExpansionLimits_def Let_def split: if_splits)

text \<open>A snapshot that a scan saves while it works on a generated one: the chunks have moved on, and the
  files of the batch are recorded.\<close>

definition progressed :: "Snapshot \<Rightarrow> Chunk list \<Rightarrow> OutputState option \<Rightarrow> Snapshot" where
  "progressed snap chunks out = snap\<lparr>sn_Chunks := Some chunks, sn_Output := out\<rparr>"

text \<open>The input is one that both commands read: its ports, where it has any, are valid, and rows without a
  port have ports to scan.\<close>

definition scannable_input :: "CIDRRecord list \<Rightarrow> PortSpec list \<Rightarrow> bool" where
  "scannable_input records specs \<longleftrightarrow> (\<forall>s \<in> set specs. loaded_spec s) \<and>
     (\<forall>r \<in> set records. IsRich r \<and> IsValid r \<longrightarrow> port_ok (Port r)) \<and>
     (hasRichRecords records \<or> specs \<noteq> [] \<or> hasBasicRowPorts records)"

text \<open>A request for a scan of the same input, with the command line not changing the limits\<close>

definition same_input_request :: "'e scan_request \<Rightarrow> 'e + CIDRRecord list \<Rightarrow> bool" where
  "same_input_request rq cidrs \<longleftrightarrow> trim_space (rq_resume rq) \<noteq> [] \<and> rq_fdLimitOk rq \<and> \<not> rq_canceled rq \<and> rq_cidrs rq = cidrs \<and>
     (rq_ports rq = None \<or> (\<exists>specs. rq_ports rq = Some (Inr specs))) \<and>
     \<not> tv_CountSet (rq_command rq) \<and> \<not> tv_MemorySet (rq_command rq)"

lemma progressed_setup:
  fixes rq :: "'e scan_request"
  assumes "bucket_snapshot snapshotOutput cidrs ports limits blocklistFile = Inr snap"
    and "NewExpansionLimits candidates memory = Inr limits"
    and "cidrs = Inr records" and "scannable_input records (case ports of Some (Inr s) \<Rightarrow> s | _ \<Rightarrow> [])"
    and "list_all2 in_progress (snapshot_chunks snap) chunks" and "saved = progressed snap chunks out"
    and "same_input_request rq cidrs" and "rq_snapshot rq = Inr saved" and "scan_output rq saved = Inr (paths, appending)"
  shows "\<exists>rts. scan_setup rq = Inr \<lparr>sp_snapshot = saved, sp_output = paths, sp_append = appending, sp_runtimes = rts\<rparr> \<and>
    list_all2 runtime_fits chunks rts"
proof -
  obtain specs est blocklist fresh where p: "EstimateAuthorizedCIDRRecords records limits None = Inr est"
    "parseUnreachableBlocklist blocklistFile = Inr blocklist"
    "generated_chunks None records specs (reachablePredicate blocklist) = Inr fresh"
    "snap = generated_snapshot records specs limits est blocklist fresh"
    "specs = (case ports of Some (Inr s) \<Rightarrow> s | _ \<Rightarrow> [])"
    using bucket_snapshot_parts [OF assms(1)] assms(3) by (metis Inr_inject)
  have input: "\<forall>s \<in> set specs. loaded_spec s" "\<forall>r \<in> set records. IsRich r \<and> IsValid r \<longrightarrow> port_ok (Port r)"
    "hasRichRecords records \<or> specs \<noteq> [] \<or> hasBasicRowPorts records"
    using assms(4) p(5) by (simp_all add: scannable_input_def)
  obtain specs0 where specs0: "loadRunInputsContext True (Inr records) (rq_ports rq) = Inr (records, specs0)"
    using scan_inputs_load assms(7) unfolding same_input_request_def by metis
  define specs1 where "specs1 = (if hasRichRecords records then specs0 else specs)"
  have saved: "snapshot_chunks saved = chunks" "sn_RichDenyExcluded saved" "saved\<lparr>sn_RichDenyExcluded := True\<rparr> = saved"
    "sn_TargetSemanticsVersion saved = CurrentTargetSemanticsVersion"
    "ps_UnreachableIPv4U32 (sn_PreScanPing saved) = blocklist"
    "sn_TargetExpansion saved = Some \<lparr>te_CandidateCount = int (CandidateCount est),
       te_CandidateLimit = int (candidateLimit limits), te_MemoryLimitGB = int (memoryLimitGB limits)\<rparr>"
    "sn_BasicPortFallback saved = (if hasRichRecords records then [] else map Raw specs)"
    by (simp_all add: assms(6) p(4) progressed_def generated_snapshot_def snapshot_chunks_def)
  have ports: "(scan_ports saved records specs0 :: 'e setup_error + PortSpec list) = Inr specs1"
    using specs_reparse(1) [OF input(1)] by (simp add: scan_ports_def saved specs1_def)
  have limits: "effectiveScanExpansionLimits (sn_TargetExpansion saved) (rq_command rq) = Inr limits"
    unfolding saved(6) using assms(7) by (intro stored_limits_effective [OF assms(2)]) (simp_all add: same_input_request_def)
  obtain est' where est': "EstimateAuthorizedCIDRRecords records limits (Some (incompleteChunkKeys chunks)) = Inr est'"
    using estimate_included [OF p(1)] by blast
  have kept: "record_expansion saved limits est' = saved"
    by (simp add: record_expansion_def assms(6) p(4) progressed_def generated_snapshot_def)
  have fresh: "snapshot_chunks snap = fresh" by (simp add: p(4) generated_snapshot_def snapshot_chunks_def)
  have same: "generated_chunks None records specs1 (reachablePredicate blocklist) = Inr fresh"
    using p(3) by (cases "hasRichRecords records") (simp_all add: specs1_def generated_chunks_def)
  have "\<exists>rts. buildRuntimeWithPredicateContext None None None chunks records specs1 (rq_policy rq)
      (Some (reachablePredicate blocklist)) = Inr rts \<and> list_all2 runtime_fits chunks rts \<and>
      targets_fit (env\<lparr>env_runtimes := map br_runtime rts\<rparr>) (map br_chunk rts)"
  proof (rule generated_resumes [OF same])
    show "list_all2 in_progress fresh chunks" using assms(5) fresh by simp
  qed (use input specs_reparse(2) [OF input(1)] in \<open>auto simp: specs1_def\<close>)
  then obtain rts where rts: "buildRuntimeWithPredicateContext None None None chunks records specs1 (rq_policy rq)
      (Some (reachablePredicate blocklist)) = Inr rts" "list_all2 runtime_fits chunks rts" by blast
  have "scan_setup rq = Inr \<lparr>sp_snapshot = saved, sp_output = paths, sp_append = appending, sp_runtimes = rts\<rparr>"
    using assms(3,7) specs0 ports limits est' rts(1) assms(9)
    by (simp add: scan_setup_def same_input_request_def assms(8) saved kept
      validateSnapshotAuthorization_def validateSnapshotTargetSemantics_def)
  then show ?thesis using rts(2) by blast
qed


section \<open>A concrete chain\<close>

definition one_row :: "CIDRRecord list" where
  "one_row = [hd sample_basics]"

definition two_ports :: "PortSpec list" where
  "two_ports = tcp_specs [80, 443]"

definition row_chunk :: "int \<Rightarrow> Chunk" where
  "row_chunk i = \<lparr>chunkCIDR = ''10.0.0.0/24'', chunkCIDRName = [], Ports = [''80/tcp'', ''443/tcp''], NextIndex = i,
     ScannedCount = i, TotalCount = 2, Status = ''pending''\<rparr>"

definition small_limits :: ExpansionLimits where
  "small_limits = \<lparr>candidateLimit = 5, memoryLimitGB = 16, memoryLimitByte = 16000000000\<rparr>"

definition interrupted_snapshot :: Snapshot where
  "interrupted_snapshot = \<lparr>sn_Chunks = Some [row_chunk 1],
     sn_PreScanPing = \<lparr>ps_Enabled = True, ps_TimeoutMS = 0, ps_UnreachableIPv4U32 = []\<rparr>,
     sn_Output = Some \<lparr>ScanPath = ''/s'', OpenPath = ''/o''\<rparr>, sn_RichDenyExcluded = True,
     sn_TargetExpansion = Some \<lparr>te_CandidateCount = 1, te_CandidateLimit = 5, te_MemoryLimitGB = 16\<rparr>,
     sn_TargetSemanticsVersion = 1, sn_BasicPortFallback = [''80/tcp'', ''443/tcp'']\<rparr>"

definition next_request :: "nat scan_request" where
  "next_request = \<lparr>rq_resume = ''b'', rq_fdLimitOk = True, rq_cidrs = Inr one_row, rq_ports = None,
     rq_snapshot = Inr interrupted_snapshot, rq_canceled = False,
     rq_command = \<lparr>tv_Limits = small_limits, tv_CountSet = False, tv_MemorySet = False\<rparr>,
     rq_freshPaths = None, rq_abs = Some, rq_policy = \<lparr>bucketRate = 100, bucketCapacity = 100, disableRateLimit = False\<rparr>\<rparr>"

lemma one_row_chunks: "generated_chunks None one_row two_ports (\<lambda>_. True) = Inr [row_chunk 0]"
  by code_simp

lemma one_row_estimate:
  "EstimateAuthorizedCIDRRecords one_row small_limits None = Inr \<lparr>CandidateCount = 1, EstimatedBytes = 1000001500\<rparr>"
proof -
  have "countSelectorCandidates (trim_space (IPRaw (hd sample_basics))) = Inr (1, ''10.0.0.1'')" by code_simp
  moreover have "\<not> IsRich (hd sample_basics)" "trim_space (IPRaw (hd sample_basics)) \<noteq> []" by code_simp+
  ultimately show ?thesis
    by (simp add: EstimateAuthorizedCIDRRecords_def authorized_step_def Let_def recordExpansionSelector_def
      recordUsesPrecheckExpansion_def addCandidateCount_def estimate0_def estimateExpansionBytes_def
      exceedsExpansionLimits_def one_row_def small_limits_def)
qed

lemma one_row_snapshot:
  "bucket_snapshot ''b'' (Inr one_row) (Some (Inr two_ports)) small_limits None =
     (Inr (generated_snapshot one_row two_ports small_limits \<lparr>CandidateCount = 1, EstimatedBytes = 1000001500\<rparr> [] [row_chunk 0])
       :: nat setup_error + Snapshot)"
proof -
  have "reachablePredicate [] = (\<lambda>_. True)" by (rule ext) (simp add: reachablePredicate_iff)
  moreover have "trim_space ''b'' \<noteq> []" by code_simp
  ultimately show ?thesis
    by (simp add: bucket_snapshot_def loadRunInputsContext_def one_row_estimate parseUnreachableBlocklist_def one_row_chunks)
qed

lemma one_row_plain: "\<not> hasRichRecords one_row" "map Raw two_ports = [''80/tcp'', ''443/tcp'']"
  by code_simp+

lemma interrupted_progress:
  "interrupted_snapshot = progressed (generated_snapshot one_row two_ports small_limits
     \<lparr>CandidateCount = 1, EstimatedBytes = 1000001500\<rparr> [] [row_chunk 0]) [row_chunk 1] (Some \<lparr>ScanPath = ''/s'', OpenPath = ''/o''\<rparr>)"
  by (simp add: interrupted_snapshot_def progressed_def generated_snapshot_def one_row_plain small_limits_def CurrentTargetSemanticsVersion_def)

lemma interrupted_text: "length (encodeSnapshot (\<lambda>_. False) (snapshotEnvelopeFromSnapshot interrupted_snapshot)) < 2000"
  by code_simp

lemma interrupted_valid: "valid_snapshot interrupted_snapshot = interrupted_snapshot"
proof -
  have "to_valid ''80/tcp'' = ''80/tcp''" "to_valid ''443/tcp'' = ''443/tcp''" "to_valid ''10.0.0.0/24'' = ''10.0.0.0/24''"
    "to_valid ''pending'' = ''pending''" "to_valid ''/s'' = ''/s''" "to_valid ''/o'' = ''/o''"
    by code_simp+
  then show ?thesis
    by (simp add: valid_snapshot_def interrupted_snapshot_def valid_chunk_def valid_output_def row_chunk_def del: to_valid.simps(2))
qed


end
