(* ===== verification/PolicyTools.thy ===== *)
theory PolicyTools
  imports InputValidate
begin

text \<open>
  The tools that prepare the scanner's input: the comparison of deny and open networks
  (\<open>pkg/cidrutil\<close>, \<open>cmd/cidr-compare\<close>), the filter of closed networks (\<open>pkg/preprocess\<close>,
  \<open>cmd/preprocess\<close>), and the enrichment of host and port pairs (\<open>pkg/enrich\<close>, \<open>cmd/enrich-targets\<close>).

  A CSV reader is the list of its results, \<open>Inl\<close> a read error; \<open>ReadAll\<close> fails with the first of them.
  Warnings and summaries go to stderr and are left out. A missing index (\<open>-1\<close>) is \<open>None\<close>.
\<close>

type_synonym csv_rows = "(unit + string list) list"

definition ReadAll :: "csv_rows \<Rightarrow> unit + string list list" where
  "ReadAll rows = try_map id rows"

section \<open>CIDR entries\<close>

record CIDREntry =
  Network :: string
  StartIP :: "32 word"
  EndIP :: "32 word"

text \<open>The code reads the first four bytes of the mask, whatever its length.\<close>

definition ParseCIDR :: "string \<Rightarrow> CIDREntry option" where
  "ParseCIDR cidr =
     (case parse_cidr cidr of None \<Rightarrow> None
      | Some ipNet \<Rightarrow>
        (case to4 (net_ip ipNet) of None \<Rightarrow> None
         | Some ip \<Rightarrow> Some \<lparr>Network = cidr, StartIP = be_u32 ip, EndIP = be_u32 ip OR NOT (be_u32 (take 4 (net_mask ipNet)))\<rparr>))"

definition entry_contains :: "CIDREntry \<Rightarrow> CIDREntry \<Rightarrow> bool" where
  "entry_contains deny open \<longleftrightarrow> StartIP deny \<le> StartIP open \<and> EndIP deny \<ge> EndIP open"

text \<open>The interval tree is the list of its entries in insertion order.\<close>

type_synonym IntervalTree = "CIDREntry list"

definition tree_Insert :: "IntervalTree \<Rightarrow> CIDREntry \<Rightarrow> IntervalTree" where
  "tree_Insert t e = t @ [e]"

definition tree_Query :: "IntervalTree \<Rightarrow> CIDREntry \<Rightarrow> CIDREntry list" where
  "tree_Query t e = filter (\<lambda>entry. entry_contains entry e) t"

section \<open>Deny and open files\<close>

record csvPolicy =
  cidrHeader :: string
  filterHeader :: string
  filterValue :: string

definition denyCSVPolicy :: csvPolicy where
  "denyCSVPolicy = \<lparr>cidrHeader = ''dst_network_segment'', filterHeader = ''decision'', filterValue = ''deny''\<rparr>"

definition openCSVPolicy :: csvPolicy where
  "openCSVPolicy = \<lparr>cidrHeader = ''segment'', filterHeader = ''status'', filterValue = ''open''\<rparr>"

datatype policy_error =
    MissingHeader
  | MalformedCSV nat
  | PartialHeader
  | HeaderTooShort nat
  | RecordTooShort nat nat nat
  | InvalidCIDR nat string

fun findColumnIndex_from :: "nat \<Rightarrow> string list \<Rightarrow> string \<Rightarrow> nat option" where
  "findColumnIndex_from i [] name = None"
| "findColumnIndex_from i (h # hs) name = (if trim_space h = name then Some i else findColumnIndex_from (Suc i) hs name)"

definition findColumnIndex :: "string list \<Rightarrow> string \<Rightarrow> nat option" where
  "findColumnIndex headers name = findColumnIndex_from 0 headers name"

definition isWhitespaceOnlyRecord :: "string list \<Rightarrow> bool" where
  "isWhitespaceOnlyRecord record \<longleftrightarrow> length record = 1 \<and> trim_space (record ! 0) = []"

fun read_header :: "csv_rows \<Rightarrow> policy_error + string list \<times> csv_rows" where
  "read_header [] = Inl MissingHeader"
| "read_header (Inl _ # rows) = Inl (MalformedCSV 1)"
| "read_header (Inr h # rows) = (if isWhitespaceOnlyRecord h then read_header rows else Inr (h, rows))"

definition header_columns :: "csvPolicy \<Rightarrow> string list \<Rightarrow> policy_error + nat \<times> nat" where
  "header_columns policy header =
     (case (findColumnIndex header (cidrHeader policy), findColumnIndex header (filterHeader policy)) of
        (Some c, Some f) \<Rightarrow> Inr (c, f)
      | (None, None) \<Rightarrow> if length header < 2 then Inl (HeaderTooShort (length header)) else Inr (0, 1)
      | _ \<Rightarrow> Inl PartialHeader)"

fun policy_rows :: "csvPolicy \<Rightarrow> nat \<Rightarrow> nat \<Rightarrow> nat \<Rightarrow> CIDREntry list \<Rightarrow> csv_rows \<Rightarrow> policy_error + CIDREntry list" where
  "policy_rows policy cidrIndex filterIndex recordNumber entries [] = Inr entries"
| "policy_rows policy cidrIndex filterIndex recordNumber entries (Inl _ # rows) = Inl (MalformedCSV (recordNumber + 1))"
| "policy_rows policy cidrIndex filterIndex recordNumber entries (Inr record # rows) =
     (let requiredFields = (if filterIndex \<ge> cidrIndex then filterIndex + 1 else cidrIndex + 1) in
      if isWhitespaceOnlyRecord record then policy_rows policy cidrIndex filterIndex recordNumber entries rows
      else if length record < requiredFields then Inl (RecordTooShort (recordNumber + 1) requiredFields (length record))
      else if to_lower (trim_space (record ! filterIndex)) \<noteq> filterValue policy
      then policy_rows policy cidrIndex filterIndex (recordNumber + 1) entries rows
      else (case ParseCIDR (trim_space (record ! cidrIndex)) of
          None \<Rightarrow> Inl (InvalidCIDR (recordNumber + 1) (trim_space (record ! cidrIndex)))
        | Some entry \<Rightarrow> policy_rows policy cidrIndex filterIndex (recordNumber + 1) (entries @ [entry]) rows))"

definition parsePolicyCSV :: "csv_rows \<Rightarrow> csvPolicy \<Rightarrow> policy_error + CIDREntry list" where
  "parsePolicyCSV rows policy =
     try_bind (read_header rows) (\<lambda>(header, rest).
     try_bind (header_columns policy header) (\<lambda>(c, f). policy_rows policy c f 1 [] rest))"

text \<open>The main loop of \<open>cidr-compare\<close>: its output lines after the header, as pairs\<close>

definition cidr_compare :: "csv_rows \<Rightarrow> csv_rows \<Rightarrow> policy_error + (string \<times> string) list" where
  "cidr_compare denyRows openRows =
     try_bind (parsePolicyCSV denyRows denyCSVPolicy) (\<lambda>denyEntries.
     try_bind (parsePolicyCSV openRows openCSVPolicy) (\<lambda>openEntries.
       let tree = foldl tree_Insert [] denyEntries in
       Inr (concat (map (\<lambda>entry. map (\<lambda>deny. (Network deny, Network entry)) (tree_Query tree entry)) openEntries))))"

section \<open>Enrichment\<close>

definition findSmallestCIDR :: "IntervalTree \<Rightarrow> string \<Rightarrow> string" where
  "findSmallestCIDR tree host =
     (let hostCIDR = host @ ''/32'' in
      case ParseCIDR hostCIDR of None \<Rightarrow> hostCIDR
      | Some entry \<Rightarrow>
        (case tree_Query tree entry of [] \<Rightarrow> hostCIDR
         | m # ms \<Rightarrow> Network (foldl (\<lambda>best x. if EndIP x - StartIP x < EndIP best - StartIP best then x else best) m ms)))"

record RichRow =
  row_SrcIP :: string
  row_SrcNetworkSegment :: string
  row_DstIP :: string
  row_DstNetworkSegment :: string
  row_ServiceLabel :: string
  row_Protocol :: string
  row_Port :: string
  row_Decision :: string
  row_MatchedPolicyID :: string
  row_Reason :: string

definition ToSlice :: "RichRow \<Rightarrow> string list" where
  "ToSlice r = [row_SrcIP r, row_SrcNetworkSegment r, row_DstIP r, row_DstNetworkSegment r, row_ServiceLabel r,
     row_Protocol r, row_Port r, row_Decision r, row_MatchedPolicyID r, row_Reason r]"

definition RichHeader :: "string list" where
  "RichHeader = [''src_ip'', ''src_network_segment'', ''dst_ip'', ''dst_network_segment'', ''service_label'', ''protocol'',
     ''port'', ''decision'', ''matched_policy_id'', ''reason'']"

datatype enrich_error = InvalidHost string | HostNotIPv4 string | PortOutOfRange int

definition Enrich :: "IntervalTree \<Rightarrow> (int \<rightharpoonup> string) \<Rightarrow> string \<Rightarrow> int \<Rightarrow> enrich_error + RichRow" where
  "Enrich tree serviceMap host port =
     (case parse_ip host of None \<Rightarrow> Inl (InvalidHost host)
      | Some ip \<Rightarrow>
        if to4 ip = None then Inl (HostNotIPv4 host)
        else if port < 1 \<or> port > 65535 then Inl (PortOutOfRange port)
        else Inr \<lparr>row_SrcIP = ''10.59.42.39'', row_SrcNetworkSegment = ''10.59.42.39/32'', row_DstIP = host,
           row_DstNetworkSegment = findSmallestCIDR tree host,
           row_ServiceLabel = (case serviceMap port of Some l \<Rightarrow> l | None \<Rightarrow> ''unknown''), row_Protocol = ''tcp'',
           row_Port = itoa port, row_Decision = ''accept'', row_MatchedPolicyID = ''enriched'', row_Reason = ''MATCH_POLICY_ACCEPT''\<rparr>)"

text \<open>The column of a header: the last one that matches\<close>

fun last_column :: "nat \<Rightarrow> nat option \<Rightarrow> string \<Rightarrow> string list \<Rightarrow> nat option" where
  "last_column i found name [] = found"
| "last_column i found name (c # cs) = last_column (Suc i) (if trim_space (to_lower c) = name then Some i else found) name cs"

datatype load_list_error = ListUnreadable | ListEmpty | ListColumnsMissing

definition service_row :: "nat \<Rightarrow> nat \<Rightarrow> (int \<rightharpoonup> string) \<Rightarrow> string list \<Rightarrow> (int \<rightharpoonup> string)" where
  "service_row portIdx labelIdx m row =
     (if length row \<le> portIdx \<or> length row \<le> labelIdx then m
      else (case atoi (trim_space (row ! portIdx)) of None \<Rightarrow> m | Some port \<Rightarrow> m(port \<mapsto> trim_space (row ! labelIdx))))"

definition LoadServiceMap :: "csv_rows \<Rightarrow> load_list_error + (int \<rightharpoonup> string)" where
  "LoadServiceMap rows =
     (case ReadAll rows of Inl _ \<Rightarrow> Inl ListUnreadable
      | Inr [] \<Rightarrow> Inl ListEmpty
      | Inr (header # body) \<Rightarrow>
          (case (last_column 0 None ''port'' header, last_column 0 None ''service_label'' header) of
             (Some p, Some l) \<Rightarrow> Inr (foldl (service_row p l) Map.empty body)
           | _ \<Rightarrow> Inl ListColumnsMissing))"

text \<open>A CSV row has at least one field, so the code reads the first.\<close>

definition cidr_row :: "IntervalTree \<Rightarrow> string list \<Rightarrow> IntervalTree" where
  "cidr_row tree row =
     (if row = [] then tree
      else let raw = trim_space (row ! 0) in
        if raw = [] then tree
        else (case ParseCIDR raw of None \<Rightarrow> tree | Some entry \<Rightarrow> tree_Insert tree entry))"

definition LoadCIDRList :: "csv_rows \<Rightarrow> load_list_error + IntervalTree" where
  "LoadCIDRList rows =
     (case ReadAll rows of Inl _ \<Rightarrow> Inl ListUnreadable
      | Inr all \<Rightarrow>
          let start = (if all \<noteq> [] \<and> ParseCIDR (trim_space (hd (hd all))) = None then 1 else 0) in
          Inr (foldl cidr_row [] (drop start all)))"

text \<open>The loop of \<open>enrich-targets\<close>: the rows written, or the error of the reader after them\<close>

definition enrich_row :: "IntervalTree \<Rightarrow> (int \<rightharpoonup> string) \<Rightarrow> nat \<Rightarrow> nat \<Rightarrow> string list \<Rightarrow> string list list" where
  "enrich_row tree svc hostIdx portIdx row =
     (if length row \<le> hostIdx \<or> length row \<le> portIdx then []
      else (case atoi (trim_space (row ! portIdx)) of None \<Rightarrow> []
        | Some port \<Rightarrow> (case Enrich tree svc (trim_space (row ! hostIdx)) port of Inl _ \<Rightarrow> [] | Inr rich \<Rightarrow> [ToSlice rich])))"

datatype tool_error = InputUnreadable | ColumnsMissing

definition enrich_targets :: "IntervalTree \<Rightarrow> (int \<rightharpoonup> string) \<Rightarrow> csv_rows \<Rightarrow> tool_error + string list list" where
  "enrich_targets tree svc rows =
     (case rows of [] \<Rightarrow> Inl InputUnreadable
      | Inl _ # _ \<Rightarrow> Inl InputUnreadable
      | Inr header # body \<Rightarrow>
          (case (last_column 0 None ''host'' header, last_column 0 None ''port'' header) of
             (Some h, Some p) \<Rightarrow>
               try_bind (try_map (\<lambda>r. case r of Inl _ \<Rightarrow> Inl InputUnreadable | Inr row \<Rightarrow> Inr (enrich_row tree svc h p row)) body)
                 (\<lambda>rowss. Inr (RichHeader # concat rowss))
           | _ \<Rightarrow> Inl ColumnsMissing))"

section \<open>The filter of closed networks\<close>

definition Keep :: "IntervalTree \<Rightarrow> string \<Rightarrow> bool option" where
  "Keep closedTree dstNetworkSegment =
     (case ParseCIDR dstNetworkSegment of None \<Rightarrow> None | Some entry \<Rightarrow> Some (tree_Query closedTree entry = []))"

definition cleaned_row :: "string \<Rightarrow> nat \<Rightarrow> nat \<Rightarrow> nat \<Rightarrow> IntervalTree \<Rightarrow> string list \<Rightarrow> IntervalTree" where
  "cleaned_row fabLower fabIdx cidrIdx statusIdx tree row =
     (if length row \<le> max fabIdx (max cidrIdx statusIdx) then tree
      else if trim_space (to_lower (row ! fabIdx)) \<noteq> fabLower then tree
      else if trim_space (to_lower (row ! statusIdx)) \<noteq> ''close'' then tree
      else (case ParseCIDR (trim_space (row ! cidrIdx)) of None \<Rightarrow> tree | Some entry \<Rightarrow> tree_Insert tree entry))"

definition LoadCleanedCIDRs :: "csv_rows \<Rightarrow> string \<Rightarrow> load_list_error + IntervalTree" where
  "LoadCleanedCIDRs rows fabName =
     (case ReadAll rows of Inl _ \<Rightarrow> Inl ListUnreadable
      | Inr [] \<Rightarrow> Inl ListEmpty
      | Inr (header # body) \<Rightarrow>
          (case (last_column 0 None ''fab'' header, last_column 0 None ''segment'' header, last_column 0 None ''status'' header) of
             (Some f, Some c, Some st) \<Rightarrow> Inr (foldl (cleaned_row (to_lower (trim_space fabName)) f c st) [] body)
           | _ \<Rightarrow> Inl ListColumnsMissing))"

record filter_counts =
  fc_total :: nat
  fc_kept :: nat
  fc_dropped :: nat
  fc_rows :: "string list list"

definition filter_row :: "IntervalTree \<Rightarrow> nat \<Rightarrow> filter_counts \<Rightarrow> string list \<Rightarrow> filter_counts" where
  "filter_row tree segIdx s row =
     (let s1 = s\<lparr>fc_total := fc_total s + 1\<rparr> in
      if length row \<le> segIdx then s1\<lparr>fc_dropped := fc_dropped s + 1\<rparr>
      else (case Keep tree (trim_space (row ! segIdx)) of
          None \<Rightarrow> s1\<lparr>fc_dropped := fc_dropped s + 1\<rparr>
        | Some ok \<Rightarrow> if ok then s1\<lparr>fc_kept := fc_kept s + 1, fc_rows := fc_rows s @ [row]\<rparr> else s1\<lparr>fc_dropped := fc_dropped s + 1\<rparr>))"

fun first_column :: "nat \<Rightarrow> string \<Rightarrow> string list \<Rightarrow> nat option" where
  "first_column i name [] = None"
| "first_column i name (c # cs) = (if trim_space (to_lower c) = name then Some i else first_column (Suc i) name cs)"

text \<open>The loop of \<open>preprocess\<close>: the header is passed through\<close>

definition preprocess_rows :: "IntervalTree \<Rightarrow> csv_rows \<Rightarrow> tool_error + string list \<times> filter_counts" where
  "preprocess_rows tree rows =
     (case rows of [] \<Rightarrow> Inl InputUnreadable
      | Inl _ # _ \<Rightarrow> Inl InputUnreadable
      | Inr header # body \<Rightarrow>
          (case first_column 0 ''dst_network_segment'' header of None \<Rightarrow> Inl ColumnsMissing
           | Some segIdx \<Rightarrow>
               try_bind (try_fold (\<lambda>s r. case r of Inl _ \<Rightarrow> Inl InputUnreadable | Inr row \<Rightarrow> Inr (filter_row tree segIdx s row))
                   \<lparr>fc_total = 0, fc_kept = 0, fc_dropped = 0, fc_rows = []\<rparr> body)
                 (\<lambda>s. Inr (header, s))))"

section \<open>Networks as sets of addresses\<close>

definition cidr_addresses :: "string \<Rightarrow> (32 word) set" where
  "cidr_addresses s = {a. \<exists>net. parse_cidr s = Some net \<and> ipnet_contains net (put_u32 a)}"

text \<open>A text of an IPv4 network, not of an IPv4 network written as an IPv6 one\<close>

definition plain_cidr :: "string \<Rightarrow> bool" where
  "plain_cidr s \<longleftrightarrow> (case parse_cidr s of None \<Rightarrow> True | Some net \<Rightarrow> length (net_mask net) = 4)"

lemma parse_addr_A4: "parse_addr s = Some (A4 v) \<Longrightarrow> length v = 4"
  by (auto simp: parse_addr_def parse_v6_def Let_def split: list.splits if_splits option.splits intro: parse_v4_length)

lemma plain_prefix_net:
  assumes "plain_cidr s" and "parse_cidr s = Some net"
  obtains w k where "k \<le> 32" "net = prefix_net w k"
proof -
  have "length (net_mask net) = 4" using assms by (simp add: plain_cidr_def)
  moreover obtain ad m where cut: "cut_slash s = Some (ad, m)"
    using assms(2) by (auto simp: parse_cidr_def split: option.splits)
  ultimately obtain v n where v: "parse_addr ad = Some (A4 v)" "n \<le> 32"
    "net = \<lparr>net_ip = and_bytes v (cidr_mask n 32), net_mask = cidr_mask n 32\<rparr>"
    using assms(2) by (auto simp: parse_cidr_def split: option.splits naddr.splits if_splits)
  have len: "length v = 4" by (rule parse_addr_A4 [OF v(1)])
  have "and_bytes v (cidr_mask n 32) = put_u32 (be_u32 v AND pmask n)"
    using len v(2) by (intro be_u32_inject [THEN iffD1]) (simp_all add: be_u32_and_bytes be_u32_cidr_mask length_and_bytes)
  then show ?thesis using that [OF v(2), of "be_u32 v"] v(3) by (simp add: prefix_net_def)
qed

text \<open>A plain entry is the interval of the addresses of its network.\<close>

lemma plain_entry:
  assumes "plain_cidr s" and "ParseCIDR s = Some e"
  shows "Network e = s" "cidr_addresses s = {StartIP e..EndIP e}" "StartIP e \<le> EndIP e"
    "\<exists>w k. k \<le> 32 \<and> StartIP e = w AND NOT (mask k) \<and> EndIP e = w OR mask k"
proof -
  obtain net where net: "parse_cidr s = Some net" using assms(2) by (auto simp: ParseCIDR_def split: option.splits)
  obtain w k where k: "k \<le> 32" "net = prefix_net w k" by (rule plain_prefix_net [OF assms(1) net])
  let ?j = "32 - k"
  have mask: "be_u32 (cidr_mask k 32) = pmask k" using k(1) by (simp add: be_u32_cidr_mask)
  have "(w AND pmask k) OR NOT (pmask k) = w OR mask ?j"
    by (rule bit_word_eqI) (auto simp: pmask_def bit_simps)
  then have e: "e = \<lparr>Network = s, StartIP = w AND NOT (mask ?j), EndIP = w OR mask ?j\<rparr>"
    using assms(2) net k by (simp add: ParseCIDR_def mask pmask_def)
  then show "Network e = s" "StartIP e \<le> EndIP e" using block_order [of ?j w] by auto
  show "cidr_addresses s = {StartIP e..EndIP e}"
  proof (rule set_eqI)
    fix a
    have "a \<in> cidr_addresses s \<longleftrightarrow> a AND NOT (mask ?j) = w AND NOT (mask ?j)"
      using net k by (simp add: cidr_addresses_def ipnet_contains_prefix_net pmask_def)
    then show "a \<in> cidr_addresses s \<longleftrightarrow> a \<in> {StartIP e..EndIP e}"
      using block_member [of ?j a w] unfolding e by simp
  qed
  show "\<exists>w k. k \<le> 32 \<and> StartIP e = w AND NOT (mask k) \<and> EndIP e = w OR mask k"
    using e by (intro exI [of _ w] exI [of _ ?j]) simp
qed

lemma contains_iff_subset:
  assumes "plain_cidr s" "ParseCIDR s = Some d" "plain_cidr t" "ParseCIDR t = Some e"
  shows "entry_contains d e \<longleftrightarrow> cidr_addresses t \<subseteq> cidr_addresses s"
  using plain_entry [OF assms(1,2)] plain_entry [OF assms(3,4)] by (simp add: entry_contains_def)

lemma entry_Network: "ParseCIDR s = Some e \<Longrightarrow> Network e = s"
  by (auto simp: ParseCIDR_def split: option.splits)

lemma foldl_insert: "foldl tree_Insert t es = t @ es"
  by (induction es arbitrary: t) (simp_all add: tree_Insert_def)

section \<open>cidr-compare\<close>

text \<open>The networks that a file selects: those of the rows with the value of the policy\<close>

definition policy_selection :: "csv_rows \<Rightarrow> csvPolicy \<Rightarrow> string list" where
  "policy_selection rows policy =
     (case read_header rows of Inl _ \<Rightarrow> []
      | Inr (header, rest) \<Rightarrow>
        (case header_columns policy header of Inl _ \<Rightarrow> []
         | Inr (c, f) \<Rightarrow> map (\<lambda>r. trim_space (r ! c))
             (filter (\<lambda>r. \<not> isWhitespaceOnlyRecord r \<and> to_lower (trim_space (r ! f)) = filterValue policy)
               (List.map_filter (\<lambda>r. case r of Inl _ \<Rightarrow> None | Inr row \<Rightarrow> Some row) rest))))"

lemma policy_rows_spec:
  "policy_rows policy c f n entries rows = Inr out \<Longrightarrow>
    \<exists>es. out = entries @ es \<and> map Some es = map ParseCIDR (map (\<lambda>r. trim_space (r ! c))
      (filter (\<lambda>r. \<not> isWhitespaceOnlyRecord r \<and> to_lower (trim_space (r ! f)) = filterValue policy)
        (List.map_filter (\<lambda>r. case r of Inl _ \<Rightarrow> None | Inr row \<Rightarrow> Some row) rows)))"
proof (induction policy c f n entries rows rule: policy_rows.induct)
  case (3 policy c f n entries row rows)
  show ?case
  proof (cases "isWhitespaceOnlyRecord row")
    case True
    then show ?thesis using 3 by (simp add: Let_def map_filter_simps)
  next
    case False
    show ?thesis
    proof (cases "to_lower (trim_space (row ! f)) = filterValue policy")
      case skip: False
      then show ?thesis using 3 False by (auto simp: Let_def map_filter_simps split: if_splits)
    next
      case True
      then obtain e where e: "ParseCIDR (trim_space (row ! c)) = Some e"
        "policy_rows policy c f (n + 1) (entries @ [e]) rows = Inr out"
        using 3(4) False by (auto simp: Let_def split: if_splits option.splits)
      obtain es where "out = (entries @ [e]) @ es" "map Some es = map ParseCIDR (map (\<lambda>r. trim_space (r ! c))
        (filter (\<lambda>r. \<not> isWhitespaceOnlyRecord r \<and> to_lower (trim_space (r ! f)) = filterValue policy)
          (List.map_filter (\<lambda>r. case r of Inl _ \<Rightarrow> None | Inr row \<Rightarrow> Some row) rows)))"
        using 3(3) [OF refl False _ _ e(1,2)] 3(4) False True by (auto simp: Let_def split: if_splits)
      then show ?thesis using e(1) False True by (intro exI [of _ "e # es"]) (simp add: map_filter_simps)
    qed
  qed
qed (simp_all add: map_filter_simps)

lemma selected_networks: "map Some es = map ParseCIDR ss \<Longrightarrow> map Network es = ss"
  by (induction ss arbitrary: es) (auto simp: map_eq_Cons_conv dest: entry_Network [OF sym])

lemma parsed_policy:
  assumes "parsePolicyCSV rows policy = Inr es"
  shows "map Some es = map ParseCIDR (policy_selection rows policy)" "map Network es = policy_selection rows policy"
    "e \<in> set es \<Longrightarrow> ParseCIDR (Network e) = Some e"
proof -
  show sel: "map Some es = map ParseCIDR (policy_selection rows policy)"
    using assms by (auto simp: parsePolicyCSV_def policy_selection_def try_bind_eq_Inr dest!: policy_rows_spec)
  then show "map Network es = policy_selection rows policy"
    by (rule selected_networks)
  show "ParseCIDR (Network e) = Some e" if "e \<in> set es"
  proof -
    have "Some e \<in> set (map ParseCIDR (policy_selection rows policy))" using that sel [symmetric] by simp
    then show ?thesis using entry_Network by fastforce
  qed
qed

text \<open>C29. cidr-compare prints exactly the inclusions. When both files are accepted and their selected networks
  are written as IPv4 networks, the output has one line for every pair of a selected open network and a
  selected deny network that contains all its addresses, in the order of the files, and no other line.\<close>

theorem cidr_compare_exact:
  assumes "cidr_compare denyRows openRows = Inr out"
    and "\<forall>s \<in> set (policy_selection denyRows denyCSVPolicy) \<union> set (policy_selection openRows openCSVPolicy). plain_cidr s"
  shows "out = concat (map (\<lambda>open. map (\<lambda>deny. (deny, open))
      (filter (\<lambda>deny. cidr_addresses open \<subseteq> cidr_addresses deny) (policy_selection denyRows denyCSVPolicy)))
    (policy_selection openRows openCSVPolicy))"
proof -
  obtain ds os where p: "parsePolicyCSV denyRows denyCSVPolicy = Inr ds" "parsePolicyCSV openRows openCSVPolicy = Inr os"
    "out = concat (map (\<lambda>entry. map (\<lambda>deny. (Network deny, Network entry)) (tree_Query ds entry)) os)"
    using assms(1) by (auto simp: cidr_compare_def try_bind_eq_Inr foldl_insert)
  note deny = parsed_policy [OF p(1)] and op = parsed_policy [OF p(2)]
  have "map (\<lambda>deny. (Network deny, Network o')) (tree_Query ds o') =
      map (\<lambda>deny. (deny, Network o')) (filter (\<lambda>deny. cidr_addresses (Network o') \<subseteq> cidr_addresses deny) (map Network ds))"
    if "o' \<in> set os" for o'
  proof -
    have "plain_cidr (Network o')" using that assms(2) op(2) [symmetric] by auto
    moreover have "plain_cidr (Network d)" if "d \<in> set ds" for d using that assms(2) deny(2) [symmetric] by auto
    ultimately have "filter (\<lambda>d. entry_contains d o') ds = filter (\<lambda>d. cidr_addresses (Network o') \<subseteq> cidr_addresses (Network d)) ds"
      using contains_iff_subset deny(3) op(3) that by (intro filter_cong) auto
    then show ?thesis by (simp add: tree_Query_def filter_map comp_def)
  qed
  then have "out = concat (map (\<lambda>o'. map (\<lambda>deny. (deny, Network o'))
      (filter (\<lambda>deny. cidr_addresses (Network o') \<subseteq> cidr_addresses deny) (map Network ds))) os)"
    unfolding p(3) by (intro arg_cong [of _ _ concat] map_cong) auto
  then show ?thesis unfolding deny(2) [symmetric] op(2) [symmetric] by (simp add: comp_def)
qed

lemma cidr_compare_exact_witness:
  "[(''10.0.0.0/8'', ''10.1.0.0/16'')] =
    concat (map (\<lambda>open. map (\<lambda>deny. (deny, open)) (filter (\<lambda>deny. cidr_addresses open \<subseteq> cidr_addresses deny) [''10.0.0.0/8'']))
      [''10.1.0.0/16'', ''11.0.0.0/8''])"
proof -
  let ?deny = "[Inr [''dst_network_segment'', ''decision''], Inr [''10.0.0.0/8'', ''deny''], Inr [''bad'', ''accept'']] :: csv_rows"
  let ?open = "[Inr [''segment'', ''status''], Inr [''10.1.0.0/16'', ''Open''], Inr [''11.0.0.0/8'', ''open'']] :: csv_rows"
  have run: "cidr_compare ?deny ?open = Inr [(''10.0.0.0/8'', ''10.1.0.0/16'')]"
    "policy_selection ?deny denyCSVPolicy = [''10.0.0.0/8'']"
    "policy_selection ?open openCSVPolicy = [''10.1.0.0/16'', ''11.0.0.0/8'']"
    by code_simp+
  have plain: "plain_cidr ''10.0.0.0/8''" "plain_cidr ''10.1.0.0/16''" "plain_cidr ''11.0.0.0/8''" by code_simp+
  show ?thesis using cidr_compare_exact [OF run(1)] plain unfolding run(2,3) by simp
qed

text \<open>An IPv4 network that is written as an IPv6 network is taken for its first address: a deny row for it
  covers none of the networks that it contains.\<close>

lemma mapped_address: "parse_addr ''::ffff:10.0.0.0'' = Some (A6 [0, 0, 0, 0, 0, 0, 0, 0, 0, 0, 255, 255, 10, 0, 0, 0] [])"
proof -
  have hex: "hex_val CHR ''.'' = None" "hex_val CHR ''0'' = Some 0" "hex_val CHR ''1'' = Some 1" "hex_val CHR '':'' = None"
    "hex_val CHR ''f'' = Some 15"
    by (simp_all add: hex_val_def)
  have word: "hex_word ''ffff'' = 65535" by (simp add: hex_word_def hex)
  have v4: "parse_v4 ''10.0.0.0'' = Some [10, 0, 0, 0]" by code_simp
  have nine: "(9 :: nat) = Suc (Suc 7)" by simp
  have loop: "v6_loop 9 ''ffff:10.0.0.0'' [] (Some 0) = Some ([255, 255, 10, 0, 0, 0], Some 0)"
    unfolding nine v6_loop.simps by (simp add: hex word v4 Let_def)
  have "parse_v6_body ''::ffff:10.0.0.0'' = Some [0, 0, 0, 0, 0, 0, 0, 0, 0, 0, 255, 255, 10, 0, 0, 0]"
    unfolding parse_v6_body_def by (simp add: loop del: v6_loop.simps) (simp add: numeral_eq_Suc)
  then show ?thesis by (simp add: parse_addr_def parse_v6_def Let_def)
qed

lemma mapped_network:
  "parse_cidr ''::ffff:10.0.0.0/104'' = Some \<lparr>net_ip = [0, 0, 0, 0, 0, 0, 0, 0, 0, 0, 255, 255, 10, 0, 0, 0], net_mask = [255, 255, 255, 255, 255, 255, 255, 255, 255, 255, 255, 255, 255, 0, 0, 0]\<rparr>"
proof -
  have "cut_slash ''::ffff:10.0.0.0/104'' = Some (''::ffff:10.0.0.0'', ''104'')" "digits_value ''104'' = Some 104"
    "cidr_mask 104 128 = [255, 255, 255, 255, 255, 255, 255, 255, 255, 255, 255, 255, 255, 0, 0, 0]" "and_bytes [0, 0, 0, 0, 0, 0, 0, 0, 0, 0, 255, 255, 10, 0, 0, 0] [255, 255, 255, 255, 255, 255, 255, 255, 255, 255, 255, 255, 255, 0, 0, 0] = [0, 0, 0, 0, 0, 0, 0, 0, 0, 0, 255, 255, 10, 0, 0, 0]"
    by code_simp+
  note parts = this
  show ?thesis
    unfolding parse_cidr_def parts(1) option.case prod.case mapped_address parts(2) naddr.case parts(3) by (simp add: parts(4))
qed

lemma mapped_cidr_is_one_address:
  "ParseCIDR ''::ffff:10.0.0.0/104'' = Some \<lparr>Network = ''::ffff:10.0.0.0/104'', StartIP = 0x0A000000, EndIP = 0x0A000000\<rparr> \<and>
   0x0A000001 \<in> cidr_addresses ''::ffff:10.0.0.0/104''"
proof
  have "to4 [0, 0, 0, 0, 0, 0, 0, 0, 0, 0, 255, 255, 10, 0, 0, 0] = Some [10, 0, 0, 0]" "be_u32 [10, 0, 0, 0] = 0x0A000000" "be_u32 [255, 255, 255, 255] = - 1"
    by code_simp+
  then show "ParseCIDR ''::ffff:10.0.0.0/104'' = Some \<lparr>Network = ''::ffff:10.0.0.0/104'', StartIP = 0x0A000000, EndIP = 0x0A000000\<rparr>"
    by (simp add: ParseCIDR_def mapped_network del: be_u32.simps)
  have "ipnet_contains \<lparr>net_ip = [0, 0, 0, 0, 0, 0, 0, 0, 0, 0, 255, 255, 10, 0, 0, 0], net_mask = [255, 255, 255, 255, 255, 255, 255, 255, 255, 255, 255, 255, 255, 0, 0, 0]\<rparr> (put_u32 0x0A000001)"
    by code_simp
  then show "0x0A000001 \<in> cidr_addresses ''::ffff:10.0.0.0/104''" by (simp add: cidr_addresses_def mapped_network)
qed

section \<open>preprocess\<close>

definition good_rows :: "csv_rows \<Rightarrow> string list list" where
  "good_rows rows = List.map_filter (\<lambda>r. case r of Inl _ \<Rightarrow> None | Inr row \<Rightarrow> Some row) rows"

text \<open>The networks that the cleaned file closes for a fab\<close>

definition closed_networks :: "csv_rows \<Rightarrow> string \<Rightarrow> string list" where
  "closed_networks rows fabName =
     (case good_rows rows of [] \<Rightarrow> []
      | header # body \<Rightarrow>
          (case (last_column 0 None ''fab'' header, last_column 0 None ''segment'' header, last_column 0 None ''status'' header) of
             (Some f, Some c, Some st) \<Rightarrow> filter (\<lambda>s. ParseCIDR s \<noteq> None) (map (\<lambda>row. trim_space (row ! c))
               (filter (\<lambda>row. max f (max c st) < length row \<and> trim_space (to_lower (row ! f)) = to_lower (trim_space fabName) \<and>
                  trim_space (to_lower (row ! st)) = ''close'') body))
           | _ \<Rightarrow> []))"

lemma ReadAll_good: "ReadAll rows = Inr all \<Longrightarrow> good_rows rows = all \<and> rows = map Inr all"
  unfolding ReadAll_def good_rows_def
  by (induction rows arbitrary: all) (auto simp: try_bind_eq_Inr map_filter_simps split: sum.splits)

lemma cleaned_rows:
  "foldl (cleaned_row fab f c st) t rows = t @ map (\<lambda>s. the (ParseCIDR s)) (filter (\<lambda>s. ParseCIDR s \<noteq> None)
     (map (\<lambda>row. trim_space (row ! c))
       (filter (\<lambda>row. max f (max c st) < length row \<and> trim_space (to_lower (row ! f)) = fab \<and> trim_space (to_lower (row ! st)) = ''close'') rows)))"
  by (induction rows arbitrary: t) (auto simp: cleaned_row_def tree_Insert_def not_le split: option.splits)

lemma cleaned_tree:
  assumes "LoadCleanedCIDRs rows fab = Inr tree"
  shows "tree = map (\<lambda>s. the (ParseCIDR s)) (closed_networks rows fab)" "\<forall>s \<in> set (closed_networks rows fab). ParseCIDR s \<noteq> None"
proof -
  obtain header body f c st where p: "ReadAll rows = Inr (header # body)" "last_column 0 None ''fab'' header = Some f"
    "last_column 0 None ''segment'' header = Some c" "last_column 0 None ''status'' header = Some st"
    "tree = foldl (cleaned_row (to_lower (trim_space fab)) f c st) [] body"
    using assms by (auto simp: LoadCleanedCIDRs_def split: sum.splits list.splits option.splits)
  then show "tree = map (\<lambda>s. the (ParseCIDR s)) (closed_networks rows fab)" "\<forall>s \<in> set (closed_networks rows fab). ParseCIDR s \<noteq> None"
    using ReadAll_good [OF p(1), THEN conjunct1] by (simp_all add: closed_networks_def cleaned_rows)
qed

text \<open>A row stays if its segment is a network that no closed network contains.\<close>

definition stays :: "string list \<Rightarrow> nat \<Rightarrow> string list \<Rightarrow> bool" where
  "stays closed segIdx row \<longleftrightarrow> segIdx < length row \<and> ParseCIDR (trim_space (row ! segIdx)) \<noteq> None \<and>
     (\<forall>c \<in> set closed. \<not> cidr_addresses (trim_space (row ! segIdx)) \<subseteq> cidr_addresses c)"

lemma Keep_stays:
  assumes "LoadCleanedCIDRs rows fab = Inr tree" and "\<forall>c \<in> set (closed_networks rows fab). plain_cidr c" and "plain_cidr s"
  shows "Keep tree s = (if ParseCIDR s = None then None
    else Some (\<forall>c \<in> set (closed_networks rows fab). \<not> cidr_addresses s \<subseteq> cidr_addresses c))"
proof (cases "ParseCIDR s")
  case (Some e)
  have "entry_contains (the (ParseCIDR c)) e \<longleftrightarrow> cidr_addresses s \<subseteq> cidr_addresses c" if "c \<in> set (closed_networks rows fab)" for c
    using that assms(2) cleaned_tree(2) [OF assms(1)] by (intro contains_iff_subset [OF _ _ assms(3) Some]) auto
  then show ?thesis using Some cleaned_tree(1) [OF assms(1)] by (simp add: Keep_def tree_Query_def filter_empty_conv)
qed (simp add: Keep_def)

lemma filter_loop:
  assumes "LoadCleanedCIDRs cleaned fab = Inr tree" and "\<forall>c \<in> set (closed_networks cleaned fab). plain_cidr c"
    and "\<forall>row \<in> set (good_rows rows). segIdx < length row \<longrightarrow> plain_cidr (trim_space (row ! segIdx))"
    and "try_fold (\<lambda>s r. case r of Inl _ \<Rightarrow> Inl InputUnreadable | Inr row \<Rightarrow> Inr (filter_row tree segIdx s row)) s rows = Inr t"
    and "fc_total s = fc_kept s + fc_dropped s" and "fc_kept s = length (fc_rows s)"
  shows "fc_rows t = fc_rows s @ filter (stays (closed_networks cleaned fab) segIdx) (good_rows rows) \<and>
    fc_total t = fc_kept t + fc_dropped t \<and> fc_kept t = length (fc_rows t) \<and> fc_total t = fc_total s + length rows"
  using assms(3-)
proof (induction rows arbitrary: s)
  case (Cons r rows)
  obtain row where row: "r = Inr row" using Cons.prems(2) by (cases r) auto
  let ?s = "filter_row tree segIdx s row"
  have step: "fc_rows ?s = fc_rows s @ filter (stays (closed_networks cleaned fab) segIdx) [row] \<and>
    fc_total ?s = fc_kept ?s + fc_dropped ?s \<and> fc_kept ?s = length (fc_rows ?s) \<and> fc_total ?s = fc_total s + 1"
    using Cons.prems(1,3,4) row Keep_stays [OF assms(1,2)]
    by (auto simp: filter_row_def stays_def good_rows_def map_filter_simps Let_def)
  have rest: "good_rows (r # rows) = row # good_rows rows" using row by (simp add: good_rows_def map_filter_simps)
  have t: "fc_rows t = fc_rows ?s @ filter (stays (closed_networks cleaned fab) segIdx) (good_rows rows) \<and>
    fc_total t = fc_kept t + fc_dropped t \<and> fc_kept t = length (fc_rows t) \<and> fc_total t = fc_total ?s + length rows"
    by (rule Cons.IH) (use Cons.prems(1,2) step row rest in simp_all)
  have "fc_total t = fc_total s + length (r # rows)" using t step by (metis add.assoc add.commute length_Cons Suc_eq_plus1)
  moreover have "fc_rows t = fc_rows s @ filter (stays (closed_networks cleaned fab) segIdx) (good_rows (r # rows))"
    using t step unfolding rest by simp
  ultimately show ?case using t by blast
qed (simp add: good_rows_def map_filter_simps)



section \<open>enrich-targets\<close>

lemma list_tree:
  assumes "LoadCIDRList rows = Inr tree" and "e \<in> set tree"
  shows "ParseCIDR (Network e) = Some e"
proof -
  have all: "\<forall>e \<in> set (foldl cidr_row t rs). ParseCIDR (Network e) = Some e" if "\<forall>e \<in> set t. ParseCIDR (Network e) = Some e" for t rs
    using that
  proof (induction rs arbitrary: t)
    case (Cons r rs)
    have "\<forall>e \<in> set (cidr_row t r). ParseCIDR (Network e) = Some e"
      using Cons.prems by (auto simp: cidr_row_def tree_Insert_def Let_def entry_Network split: option.splits)
    then show ?case using Cons.IH by simp
  qed simp
  obtain rs where "tree = foldl cidr_row [] rs" using assms(1) by (auto simp: LoadCIDRList_def Let_def split: sum.splits)
  then show ?thesis using all [of "[]" rs] assms(2) by simp
qed

text \<open>Blocks around an address are nested, so the narrower one is inside the wider one.\<close>

lemma nested_blocks:
  fixes a :: "32 word"
  assumes "k \<le> 32" "j \<le> 32" and "(a OR mask k) - (a AND NOT (mask k)) \<le> (a OR mask j) - (a AND NOT (mask j))"
  shows "{a AND NOT (mask k)..a OR mask k} \<subseteq> {a AND NOT (mask j)..a OR mask j}"
proof -
  have width: "unat ((a OR mask i) - (a AND NOT (mask i))) = 2 ^ i - 1" if "i \<le> 32" for i
  proof -
    have "a AND NOT (mask i) \<le> a OR mask i" using block_order [OF that, of a] by (blast intro: order_trans)
    then show ?thesis using that by (simp add: unat_sub unat_block_start unat_block_end)
  qed
  have "(2 :: nat) ^ k - 1 \<le> 2 ^ j - 1" using assms(3) by (simp add: word_le_nat_alt width assms(1,2))
  then have "k \<le> j" by (meson diff_le_mono2 le_diff_conv nat_le_linear one_le_numeral one_le_power power_increasing_iff
      le_antisym linorder_not_le one_less_numeral_iff semiring_norm(76) diff_less_mono power_strict_increasing)
  have "x AND NOT (mask j) = a AND NOT (mask j)" if "x AND NOT (mask k) = a AND NOT (mask k)" for x :: "32 word"
  proof (rule bit_word_eqI)
    fix i assume "i < LENGTH(32)"
    have "bit (x AND NOT (mask k)) i = bit (a AND NOT (mask k)) i" using that by simp
    then show "bit (x AND NOT (mask j)) i = bit (a AND NOT (mask j)) i"
      using \<open>k \<le> j\<close> by (auto simp: bit_simps)
  qed
  then show ?thesis using block_member [OF assms(1), of _ a] block_member [OF assms(2), of _ a] by auto
qed

lemma plain_entry_around:
  assumes "plain_cidr s" and "ParseCIDR s = Some e" and "a \<in> cidr_addresses s"
  shows "\<exists>k \<le> 32. StartIP e = a AND NOT (mask k) \<and> EndIP e = a OR mask k"
proof -
  obtain w k where k: "k \<le> 32" "StartIP e = w AND NOT (mask k)" "EndIP e = w OR mask k"
    using plain_entry(4) [OF assms(1,2)] by blast
  have "w AND NOT (mask k) \<le> a \<and> a \<le> w OR mask k" using assms(3) plain_entry(2) [OF assms(1,2)] k by simp
  then have eq: "a AND NOT (mask k) = w AND NOT (mask k)" using block_member [OF k(1), of a w] by simp
  have "x OR mask k = (x AND NOT (mask k)) OR mask k" for x :: "32 word"
    by (rule bit_word_eqI) (auto simp: bit_simps)
  then have "a OR mask k = w OR mask k" using eq by metis
  then show ?thesis using k eq by auto
qed

lemma narrower_is_inside:
  assumes "plain_cidr s" "ParseCIDR s = Some d" "plain_cidr t" "ParseCIDR t = Some e"
    and "a \<in> cidr_addresses s" "a \<in> cidr_addresses t" and "EndIP d - StartIP d \<le> EndIP e - StartIP e"
  shows "cidr_addresses s \<subseteq> cidr_addresses t"
proof -
  obtain k where k: "k \<le> 32" "StartIP d = a AND NOT (mask k)" "EndIP d = a OR mask k"
    using plain_entry_around [OF assms(1,2,5)] by blast
  obtain j where j: "j \<le> 32" "StartIP e = a AND NOT (mask j)" "EndIP e = a OR mask j"
    using plain_entry_around [OF assms(3,4,6)] by blast
  show ?thesis using nested_blocks [OF k(1) j(1), of a] assms(7) k j plain_entry(2) [OF assms(1,2)] plain_entry(2) [OF assms(3,4)] by simp
qed

abbreviation narrower :: "CIDREntry \<Rightarrow> CIDREntry \<Rightarrow> CIDREntry" where
  "narrower best x \<equiv> (if EndIP x - StartIP x < EndIP best - StartIP best then x else best)"

lemma narrowest:
  "foldl narrower m ms \<in> insert m (set ms) \<and>
    (\<forall>x \<in> insert m (set ms). EndIP (foldl narrower m ms) - StartIP (foldl narrower m ms) \<le> EndIP x - StartIP x)"
proof (induction ms arbitrary: m)
  case (Cons y ys)
  have "EndIP (narrower m y) - StartIP (narrower m y) \<le> EndIP m - StartIP m" "EndIP (narrower m y) - StartIP (narrower m y) \<le> EndIP y - StartIP y"
    by (auto simp: not_less)
  then show ?case using Cons.IH [of "narrower m y"] by (auto intro: order_trans)
qed simp

lemma host_entry: "ParseCIDR (u32_string a @ ''/32'') = Some \<lparr>Network = u32_string a @ ''/32'', StartIP = a, EndIP = a\<rparr>"
  "plain_cidr (u32_string a @ ''/32'')"
proof -
  have "nat_digits 32 = ''32''" by code_simp
  then have parse: "parse_cidr (u32_string a @ ''/32'') = Some (prefix_net a 32)"
    using parse_cidr_string [of 32 a] by (simp add: cidr_string_def)
  have mask: "be_u32 (cidr_mask 32 32) = - 1" by (simp add: be_u32_cidr_mask pmask_def)
  show "ParseCIDR (u32_string a @ ''/32'') = Some \<lparr>Network = u32_string a @ ''/32'', StartIP = a, EndIP = a\<rparr>"
    by (simp add: ParseCIDR_def parse mask pmask_def)
  show "plain_cidr (u32_string a @ ''/32'')" by (simp add: plain_cidr_def parse)
qed

text \<open>C19. Enrichment assigns the most specific network. For a host written as an IPv4 address and a list of
  IPv4 networks, an enriched row carries the host, the port, and a network that contains the host: if the list
  has networks with the host, it is one of them, and all its addresses are in every other one;
  otherwise it is the host alone.\<close>

theorem enrich_most_specific:
  assumes "LoadCIDRList rows = Inr tree" and "\<forall>e \<in> set tree. plain_cidr (Network e)"
    and "Enrich tree svc (u32_string a) port = Inr row"
  shows "a \<in> cidr_addresses (row_DstNetworkSegment row) \<and>
    (\<forall>e \<in> set tree. a \<in> cidr_addresses (Network e) \<longrightarrow> cidr_addresses (row_DstNetworkSegment row) \<subseteq> cidr_addresses (Network e)) \<and>
    (if \<exists>e \<in> set tree. a \<in> cidr_addresses (Network e) then row_DstNetworkSegment row \<in> Network ` set tree
     else row_DstNetworkSegment row = u32_string a @ ''/32'') \<and>
    row_DstIP row = u32_string a \<and> row_Port row = itoa port \<and> 1 \<le> port \<and> port \<le> 65535"
proof -
  let ?host = "u32_string a @ ''/32''"
  let ?hits = "filter (\<lambda>e. a \<in> cidr_addresses (Network e)) tree"
  have entry: "ParseCIDR (Network e) = Some e" "plain_cidr (Network e)" if "e \<in> set tree" for e
    using that assms(2) list_tree [OF assms(1)] by auto
  have hits: "tree_Query tree \<lparr>Network = ?host, StartIP = a, EndIP = a\<rparr> = ?hits"
    unfolding tree_Query_def
    by (rule filter_cong [OF refl]) (use entry plain_entry(2) in \<open>auto simp: entry_contains_def\<close>)
  have host: "cidr_addresses ?host = {a}" using plain_entry(2) [OF host_entry(2,1)] by simp
  have seg: "row_DstNetworkSegment row = findSmallestCIDR tree (u32_string a)" and fields: "row_DstIP row = u32_string a"
    "row_Port row = itoa port" "1 \<le> port" "port \<le> 65535"
    using assms(3) by (auto simp: Enrich_def split: option.splits if_splits)
  show ?thesis
  proof (cases ?hits)
    case Nil
    then have "row_DstNetworkSegment row = ?host" unfolding seg findSmallestCIDR_def Let_def host_entry(1) option.case hits by simp
    moreover have "\<forall>e \<in> set tree. a \<notin> cidr_addresses (Network e)" using Nil by (simp add: filter_empty_conv)
    ultimately show ?thesis using host fields by simp
  next
    case (Cons m ms)
    let ?best = "foldl narrower m ms"
    have set: "insert m (set ms) = {e \<in> set tree. a \<in> cidr_addresses (Network e)}" using Cons by (metis list.simps(15) set_filter)
    have best: "?best \<in> set tree" "a \<in> cidr_addresses (Network ?best)"
      "\<forall>x \<in> set tree. a \<in> cidr_addresses (Network x) \<longrightarrow> EndIP ?best - StartIP ?best \<le> EndIP x - StartIP x"
      using narrowest [of m ms] unfolding set by auto
    have net: "row_DstNetworkSegment row = Network ?best"
      unfolding seg findSmallestCIDR_def Let_def host_entry(1) option.case hits Cons by simp
    have "cidr_addresses (Network ?best) \<subseteq> cidr_addresses (Network e)" if "e \<in> set tree" "a \<in> cidr_addresses (Network e)" for e
      using narrower_is_inside [OF entry(2) entry(1) entry(2) entry(1), of ?best e a] best that by blast
    then show ?thesis using best net fields by auto
  qed
qed

lemma enrich_most_specific_witness:
  "\<exists>tree row. LoadCIDRList [Inr [''10.0.0.0/8''], Inr [''10.1.0.0/16'']] = Inr tree \<and>
    Enrich tree Map.empty (u32_string 0x0A010203) 443 = Inr row \<and> row_DstNetworkSegment row \<in> {''10.0.0.0/8'', ''10.1.0.0/16''} \<and>
    0x0A010203 \<in> cidr_addresses (row_DstNetworkSegment row)"
proof -
  let ?tree = "[\<lparr>Network = ''10.0.0.0/8'', StartIP = 0x0A000000, EndIP = 0x0AFFFFFF\<rparr>, \<lparr>Network = ''10.1.0.0/16'', StartIP = 0x0A010000, EndIP = 0x0A01FFFF\<rparr>]"
  have tree: "LoadCIDRList [Inr [''10.0.0.0/8''], Inr [''10.1.0.0/16'']] = Inr ?tree" by code_simp
  have plain: "plain_cidr ''10.0.0.0/8''" "plain_cidr ''10.1.0.0/16''" by code_simp+
  obtain ip where "parse_ip (u32_string 0x0A010203) = Some ip" "to4 ip \<noteq> None"
    using parse_ip4_u32_string [of "0x0A010203"] by (auto simp: parse_ip4_def split: option.splits)
  then obtain row where row: "Enrich ?tree Map.empty (u32_string 0x0A010203) 443 = Inr row" by (simp add: Enrich_def)
  have member: "0x0A010203 \<in> cidr_addresses ''10.0.0.0/8''"
    using plain_entry(2) [OF plain(1) list_tree [OF tree, of "hd ?tree", simplified]] by simp
  show ?thesis
    using enrich_most_specific [OF tree _ row] plain row tree member by (intro exI [of _ ?tree] exI [of _ row]) auto
qed

section \<open>Fab names\<close>

datatype fab_error = FabEmpty | FabSeparator | FabRelative | FabBadCharacter char | FabTrailing | FabReserved string

definition windowsInvalidNameChars :: string where
  "windowsInvalidNameChars = [CHR ''<'', CHR ''>'', CHR '':'', CHR 0x22, CHR ''|'', CHR ''?'', CHR ''*'']"

definition reservedDeviceNames :: "string list" where
  "reservedDeviceNames =
     [''con'', ''prn'', ''aux'', ''nul'', ''conin$'', ''conout$''] @
     concat (map (\<lambda>p. map (\<lambda>d. p @ d)
       ([[CHR 0xC2, CHR 0xB9], [CHR 0xC2, CHR 0xB2], [CHR 0xC2, CHR 0xB3]] @ map nat_digits [0..<10])) [''com'', ''lpt''])"

text \<open>The code walks over runes; the characters that it refuses are ASCII, so it refuses a name by its bytes.\<close>

definition ValidateFabName :: "string \<Rightarrow> fab_error option" where
  "ValidateFabName name =
     (if name = [] then Some FabEmpty
      else if CHR ''/'' \<in> set name \<or> CHR 0x5C \<in> set name then Some FabSeparator
      else if name = ''.'' \<or> name = ''..'' then Some FabRelative
      else (case find (\<lambda>c. (of_char c :: nat) < 0x20 \<or> c \<in> set windowsInvalidNameChars) name of
          Some c \<Rightarrow> Some (FabBadCharacter c)
        | None \<Rightarrow>
          if last name = CHR ''.'' \<or> last name = CHR '' '' then Some FabTrailing
          else
            let stem = takeWhile (\<lambda>c. c \<noteq> CHR ''.'') name;
                stem = rev (dropWhile (\<lambda>c. c = CHR '' '' \<or> c = CHR ''.'') (rev stem))
            in if to_lower stem \<in> set reservedDeviceNames then Some (FabReserved stem) else None))"

definition ParseFabName :: "string \<Rightarrow> fab_error + string" where
  "ParseFabName name = (case ValidateFabName name of Some e \<Rightarrow> Inl e | None \<Rightarrow> Inr name)"

text \<open>\<open>filepath.Join\<close> joins the elements that are not empty and cleans the path lexically. A clean path is
  whether it is rooted and its elements.\<close>

definition clean_step :: "bool \<Rightarrow> string list \<Rightarrow> string \<Rightarrow> string list" where
  "clean_step rooted st c =
     (if c = [] \<or> c = ''.'' then st
      else if c = ''..'' then (if st \<noteq> [] \<and> last st \<noteq> ''..'' then butlast st else if rooted then st else st @ [''..''])
      else st @ [c])"

definition path_clean :: "string \<Rightarrow> bool \<times> string list" where
  "path_clean p = (let rooted = (p \<noteq> [] \<and> hd p = CHR ''/'') in (rooted, foldl (clean_step rooted) [] (split_on CHR ''/'' p)))"

definition OutputPath :: "string \<Rightarrow> string \<Rightarrow> string \<Rightarrow> bool \<times> string list" where
  "OutputPath baseDir fabName ts =
     path_clean (join_with CHR ''/'' (filter (\<lambda>e. e \<noteq> []) [baseDir, fabName, ts, ''input.csv'']))"

definition OutputPathForFabName :: "string \<Rightarrow> string \<Rightarrow> string \<Rightarrow> (bool \<times> string list) option" where
  "OutputPathForFabName baseDir fabName ts = (if fabName = [] then None else Some (OutputPath baseDir fabName ts))"

definition plain_element :: "string \<Rightarrow> bool" where
  "plain_element s \<longleftrightarrow> s \<noteq> [] \<and> s \<noteq> ''.'' \<and> s \<noteq> ''..'' \<and> CHR ''/'' \<notin> set s"

lemma accepted_fab_plain: "ParseFabName name = Inr fab \<Longrightarrow> fab = name \<and> plain_element fab"
  by (auto simp: ParseFabName_def ValidateFabName_def plain_element_def split: option.splits if_splits)

lemma split_on_middle: "split_on sep (x @ sep # y) = split_on sep x @ split_on sep y"
proof (induction x)
  case (Cons c x)
  then show ?case using split_on_nonempty [of sep x] by (cases "split_on sep x") auto
qed simp

lemma clean_plain: "plain_element c \<Longrightarrow> clean_step rooted st c = st @ [c]"
  by (simp add: plain_element_def clean_step_def)

text \<open>C31. An accepted fab name cannot move the output out of its directory: for every base directory and
  timestamp, the path of the output is, after lexical cleaning, the base directory followed by exactly
  the three elements fab name, timestamp and \<open>input.csv\<close>; and the fab name is used as it was given.\<close>

theorem fab_output_inside:
  assumes "ParseFabName name = Inr fab" and "baseDir \<noteq> []" and "plain_element ts"
  shows "OutputPathForFabName baseDir fab ts = Some (fst (path_clean baseDir), snd (path_clean baseDir) @ [name, ts, ''input.csv''])"
proof -
  have fab: "fab = name" "plain_element name" using accepted_fab_plain [OF assms(1)] by auto
  have input: "plain_element ''input.csv''" by (simp add: plain_element_def)
  have nonempty: "name \<noteq> []" "ts \<noteq> []" using fab(2) assms(3) by (simp_all add: plain_element_def)
  have split: "split_on CHR ''/'' (baseDir @ CHR ''/'' # name @ CHR ''/'' # ts @ CHR ''/'' # ''input.csv'') =
      split_on CHR ''/'' baseDir @ [name, ts, ''input.csv'']"
    using fab(2) assms(3) by (simp add: plain_element_def split_on_middle split_on_no_sep)
  have joined: "join_with CHR ''/'' (filter (\<lambda>e. e \<noteq> []) [baseDir, name, ts, ''input.csv'']) =
      baseDir @ CHR ''/'' # name @ CHR ''/'' # ts @ CHR ''/'' # ''input.csv''"
    using nonempty assms(2) by simp
  have "foldl (clean_step r) [] (split_on CHR ''/'' baseDir @ [name, ts, ''input.csv'']) =
      foldl (clean_step r) [] (split_on CHR ''/'' baseDir) @ [name, ts, ''input.csv'']" for r
    by (simp add: clean_plain fab(2) assms(3) input)
  then have "OutputPath baseDir name ts = (fst (path_clean baseDir), snd (path_clean baseDir) @ [name, ts, ''input.csv''])"
    unfolding OutputPath_def joined path_clean_def split Let_def using assms(2) by simp
  then show ?thesis using nonempty fab(1) by (simp add: OutputPathForFabName_def)
qed

lemma fab_output_inside_witness:
  "OutputPathForFabName ''/srv/out'' ''fab-1'' ''20240501'' = Some (True, [''srv'', ''out'', ''fab-1'', ''20240501'', ''input.csv''])"
proof -
  have "ParseFabName ''fab-1'' = Inr ''fab-1''" "path_clean ''/srv/out'' = (True, [''srv'', ''out''])" by code_simp+
  then show ?thesis using fab_output_inside [of "''fab-1''" "''fab-1''" "''/srv/out''" "''20240501''"] by (simp add: plain_element_def)
qed

end
